(* ===== verification/Prelude.thy ===== *)
theory Prelude
  imports Main "HOL-Library.Word" "HOL-Library.List_Lexorder" "HOL-Library.Char_ord"
    "HOL-Library.Multiset" "HOL-Library.Sublist"
begin

text \<open>
  Shared vocabulary of the development: the engine's error categories, the result type of
  fallible operations, instants, 64-bit unsigned integers, Go's three-way comparison, the
  comparator interface with the sorting and searching functions of package sort that the code
  uses, and the lemmas about them that the component theories share.
\<close>

section \<open>Errors and results\<close>

text \<open>The stable failure categories of errors.go. A value of the Go type holds one of them.\<close>

datatype ErrorCategory =
    ErrorInvalidArgument
  | ErrorPermissionDenied
  | ErrorNotFound
  | ErrorConflict
  | ErrorFailedPrecondition
  | ErrorResourceExhausted
  | ErrorCanceled
  | ErrorDeadlineExceeded
  | ErrorUnavailable
  | ErrorUnsupportedArtifact
  | ErrorCursorExpired
  | ErrorIntegrity
  | ErrorInternal

text \<open>A Go result pair (value, error): \<open>Inl\<close> carries the category of a non-nil error.\<close>

type_synonym 'a result = "ErrorCategory + 'a"

text \<open>An error-only result: a nil error is \<open>Inr ()\<close>.\<close>

type_synonym check = "unit result"

fun bindR :: "'a result \<Rightarrow> ('a \<Rightarrow> 'b result) \<Rightarrow> 'b result" where
  "bindR (Inl e) f = Inl e"
| "bindR (Inr x) f = f x"

definition requireR :: "bool \<Rightarrow> ErrorCategory \<Rightarrow> check" where
  "requireR ok e = (if ok then Inr () else Inl e)"

fun isOk :: "'a result \<Rightarrow> bool" where
  "isOk (Inl e) = False"
| "isOk (Inr x) = True"

text \<open>A loop that validates each element and returns on the first error.\<close>

fun eachR :: "('a \<Rightarrow> check) \<Rightarrow> 'a list \<Rightarrow> check" where
  "eachR f [] = Inr ()"
| "eachR f (x # xs) = bindR (f x) (\<lambda>_. eachR f xs)"

section \<open>Instants and machine integers\<close>

text \<open>
  A time.Time is modelled by its instant: the nanoseconds since the zero time. IsZero, Before,
  After, Equal and Compare look at the instant only.
\<close>

type_synonym Time = int

definition isZeroTime :: "Time \<Rightarrow> bool" where
  "isZeroTime t = (t = 0)"

type_synonym uint64 = "64 word"

definition MaxUint64 :: uint64 where
  "MaxUint64 = 18446744073709551615"

section \<open>Three-way comparison\<close>

text \<open>cmp.Compare of the Go library on an ordered type.\<close>

definition cmpCompare :: "'a::linorder \<Rightarrow> 'a \<Rightarrow> int" where
  "cmpCompare x y = (if x < y then -1 else if y < x then 1 else 0)"

text \<open>The step \<open>if order := a; order != 0 { return order }; return b\<close>.\<close>

definition thenCmp :: "int \<Rightarrow> int \<Rightarrow> int" where
  "thenCmp a b = (if a \<noteq> 0 then a else b)"

text \<open>compareBool of data.go: false sorts before true.\<close>

definition compareBool :: "bool \<Rightarrow> bool \<Rightarrow> int" where
  "compareBool l r = (if l = r then 0 else if \<not> l then -1 else 1)"

section \<open>Sorting and searching\<close>

text \<open>sort.Slice with the comparison \<open>cmp x y < 0\<close> as its less function.\<close>

fun insertCmp :: "('a \<Rightarrow> 'a \<Rightarrow> int) \<Rightarrow> 'a \<Rightarrow> 'a list \<Rightarrow> 'a list" where
  "insertCmp cmp x [] = [x]"
| "insertCmp cmp x (y # ys) = (if cmp y x < 0 then y # insertCmp cmp x ys else x # y # ys)"

fun sortSlice :: "('a \<Rightarrow> 'a \<Rightarrow> int) \<Rightarrow> 'a list \<Rightarrow> 'a list" where
  "sortSlice cmp [] = []"
| "sortSlice cmp (x # xs) = insertCmp cmp x (sortSlice cmp xs)"

text \<open>sort.Search: the loop over the half-open interval \<open>[i, j)\<close>.\<close>

function searchLoop :: "(nat \<Rightarrow> bool) \<Rightarrow> nat \<Rightarrow> nat \<Rightarrow> nat" where
  "searchLoop f i j =
     (if i < j then
        (let h = (i + j) div 2
         in if \<not> f h then searchLoop f (h + 1) j else searchLoop f i h)
      else i)"
  by pat_completeness auto
termination
  by (relation "measure (\<lambda>(f, i, j). j - i)") auto

declare searchLoop.simps [simp del]

definition sortSearch :: "nat \<Rightarrow> (nat \<Rightarrow> bool) \<Rightarrow> nat" where
  "sortSearch n f = searchLoop f 0 n"

section \<open>Lemmas on results\<close>

lemma bindR_Inr_iff [simp]: "bindR m f = Inr y \<longleftrightarrow> (\<exists>x. m = Inr x \<and> f x = Inr y)"
  by (cases m) auto

lemma bindR_Inl_iff: "bindR m f = Inl e \<longleftrightarrow> m = Inl e \<or> (\<exists>x. m = Inr x \<and> f x = Inl e)"
  by (cases m) auto

lemma bindR_Inr_right [simp]: "bindR m Inr = m"
  by (cases m) simp_all

lemma if_Inl_eq_Inr [simp]:
  "(if c then Inl e else r) = Inr y \<longleftrightarrow> \<not> c \<and> r = Inr y"
  "(if c then r else Inl e) = Inr y \<longleftrightarrow> c \<and> r = Inr y"
  by auto

lemma requireR_Inr [simp]: "requireR ok e = Inr u \<longleftrightarrow> ok"
  by (simp add: requireR_def)

lemma requireR_Inl [simp]: "requireR ok e = Inl e' \<longleftrightarrow> \<not> ok \<and> e' = e"
  by (auto simp: requireR_def)

lemma requireR_simps [simp]: "requireR True e = Inr ()" "requireR False e = Inl e"
  by (simp_all add: requireR_def)

lemma isOk_iff: "isOk r \<longleftrightarrow> (\<exists>x. r = Inr x)"
  by (cases r) auto

lemma isOk_Inr_unit: "isOk (r :: check) \<longleftrightarrow> r = Inr ()"
  by (cases r) auto

lemma eachR_Inr_iff [simp]: "eachR f xs = Inr u \<longleftrightarrow> (\<forall>x \<in> set xs. f x = Inr ())"
  by (induction xs) auto

lemma eachR_require:
  "eachR (\<lambda>x. requireR (P x) e) xs = (if \<forall>x \<in> set xs. P x then Inr () else Inl e)"
  by (induction xs) (auto simp: requireR_def)

lemma eachR_Inl_elem: "eachR f xs = Inl e \<Longrightarrow> \<exists>x \<in> set xs. f x = Inl e"
  by (induction xs) (auto simp: bindR_Inl_iff)

section \<open>The comparator interface\<close>

text \<open>
  Every ordered index and every canonical list of the program relies on a three-way comparison
  that is a total order whose zero is equality. The locale states these laws; the lemmas on
  sorting inside it are used through the interpretations in the component theories.
\<close>

locale comparator =
  fixes cmp :: "'k \<Rightarrow> 'k \<Rightarrow> int"
  assumes cmp_eq: "cmp a b = 0 \<longleftrightarrow> a = b"
    and cmp_flip: "cmp a b < 0 \<longleftrightarrow> 0 < cmp b a"
    and cmp_trans: "cmp a b < 0 \<Longrightarrow> cmp b c < 0 \<Longrightarrow> cmp a c < 0"
begin

lemma cmp_refl: "cmp a a = 0"
  by (simp add: cmp_eq)

lemma cmp_irrefl: "\<not> cmp a a < 0"
  by (simp add: cmp_refl)

lemma cmp_asym: "cmp a b < 0 \<Longrightarrow> \<not> cmp b a < 0"
  using cmp_flip by force

lemma cmp_pos: "0 < cmp a b \<longleftrightarrow> cmp b a < 0"
  by (rule cmp_flip [symmetric])

lemma cmp_cases: "cmp a b < 0 \<or> a = b \<or> cmp b a < 0"
  using cmp_eq [of a b] cmp_flip [of b a] by linarith

lemma cmp_le_trans: "cmp a b \<le> 0 \<Longrightarrow> cmp b c \<le> 0 \<Longrightarrow> cmp a c \<le> 0"
  by (metis cmp_eq cmp_trans le_less)

lemma cmp_le_less_trans: "cmp a b \<le> 0 \<Longrightarrow> cmp b c < 0 \<Longrightarrow> cmp a c < 0"
  by (metis cmp_eq cmp_trans le_less)

lemma cmp_less_le_trans: "cmp a b < 0 \<Longrightarrow> cmp b c \<le> 0 \<Longrightarrow> cmp a c < 0"
  by (metis cmp_eq cmp_trans le_less)

lemma cmp_not_less: "\<not> cmp a b < 0 \<longleftrightarrow> cmp b a \<le> 0"
  using cmp_flip [of b a] cmp_flip [of a b] by linarith

lemma mset_insertCmp: "mset (insertCmp cmp x xs) = add_mset x (mset xs)"
  by (induction xs) auto

lemma mset_sortSlice: "mset (sortSlice cmp xs) = mset xs"
  by (induction xs) (auto simp: mset_insertCmp)

lemma set_insertCmp: "set (insertCmp cmp x xs) = insert x (set xs)"
  using mset_insertCmp [of x xs] by (metis set_mset_add_mset_insert set_mset_mset)

lemma set_sortSlice: "set (sortSlice cmp xs) = set xs"
  using mset_sortSlice [of xs] by (metis set_mset_mset)

lemma length_sortSlice: "length (sortSlice cmp xs) = length xs"
  using mset_sortSlice [of xs] by (metis size_mset)

lemma sorted_insertCmp:
  "sorted_wrt (\<lambda>a b. cmp a b \<le> 0) xs \<Longrightarrow> sorted_wrt (\<lambda>a b. cmp a b \<le> 0) (insertCmp cmp x xs)"
proof (induction xs)
  case (Cons y ys)
  then show ?case
    by (auto simp: set_insertCmp cmp_not_less intro: cmp_le_trans)
qed simp

lemma sorted_sortSlice: "sorted_wrt (\<lambda>a b. cmp a b \<le> 0) (sortSlice cmp xs)"
  by (induction xs) (auto intro: sorted_insertCmp)

text \<open>Sortedness determines the order, so the result does not depend on the sorting algorithm.\<close>

lemma sorted_unique:
  assumes "mset xs = mset ys"
    and "sorted_wrt (\<lambda>a b. cmp a b \<le> 0) xs" and "sorted_wrt (\<lambda>a b. cmp a b \<le> 0) ys"
  shows "xs = ys"
  using assms
proof (induction xs arbitrary: ys)
  case Nil
  then show ?case by simp
next
  case (Cons x xs)
  then obtain y ys' where ys: "ys = y # ys'"
    by (cases ys) auto
  have "x \<in> set ys" "y \<in> set (x # xs)"
    using Cons.prems(1) ys by (metis list.set_intros(1) set_mset_mset)+
  then have "cmp x y \<le> 0" "cmp y x \<le> 0"
    using Cons.prems(2,3) ys by (auto simp: cmp_refl)
  then have "x = y"
    using cmp_eq [of x y] cmp_flip [of y x] cmp_flip [of x y] by linarith
  with Cons ys show ?case by auto
qed

lemma sortSlice_unique:
  "mset ys = mset xs \<Longrightarrow> sorted_wrt (\<lambda>a b. cmp a b \<le> 0) ys \<Longrightarrow> sortSlice cmp xs = ys"
  by (rule sorted_unique) (simp_all add: mset_sortSlice sorted_sortSlice)

lemma sorted_less_le:
  "sorted_wrt (\<lambda>a b. cmp a b < 0) xs \<Longrightarrow> sorted_wrt (\<lambda>a b. cmp a b \<le> 0) xs"
  by (erule sorted_wrt_mono_rel [rotated]) simp

lemma sortSlice_sorted: "sorted_wrt (\<lambda>a b. cmp a b < 0) xs \<Longrightarrow> sortSlice cmp xs = xs"
  by (rule sortSlice_unique) (simp_all add: sorted_less_le)

lemma sorted_less_distinct: "sorted_wrt (\<lambda>a b. cmp a b < 0) xs \<Longrightarrow> distinct xs"
  by (induction xs) (auto simp: cmp_refl)

lemma sorted_le_distinct_less:
  "sorted_wrt (\<lambda>a b. cmp a b \<le> 0) xs \<Longrightarrow> distinct xs \<Longrightarrow> sorted_wrt (\<lambda>a b. cmp a b < 0) xs"
  by (induction xs) (auto simp: le_less cmp_eq)

lemma sorted_less_set_unique:
  assumes "set xs = set ys"
    and "sorted_wrt (\<lambda>a b. cmp a b < 0) xs" and "sorted_wrt (\<lambda>a b. cmp a b < 0) ys"
  shows "xs = ys"
  using assms by (intro sorted_unique)
    (auto simp: sorted_less_distinct set_eq_iff_mset_eq_distinct [symmetric] intro: sorted_less_le)

end

text \<open>How the comparators of the program are put together.\<close>

lemma comparator_cmpCompare: "comparator (cmpCompare :: 'a::linorder \<Rightarrow> 'a \<Rightarrow> int)"
  by unfold_locales (auto simp: cmpCompare_def split: if_splits)

lemma comparator_compareBool: "comparator compareBool"
  by unfold_locales (auto simp: compareBool_def split: if_splits)

lemma comparator_project:
  assumes "comparator c" and "inj f"
  shows "comparator (\<lambda>x y. c (f x) (f y))"
proof -
  note c = comparator.cmp_eq [OF assms(1)] comparator.cmp_flip [OF assms(1)]
    comparator.cmp_trans [OF assms(1)]
  show ?thesis
    by unfold_locales (simp_all add: c(1) inj_eq [OF assms(2)] c(2), metis c(2) c(3))
qed

lemma comparator_thenCmp:
  assumes c: "comparator c" and d: "comparator d"
    and inj: "\<And>x y. f x = f y \<Longrightarrow> g x = g y \<Longrightarrow> x = y"
  shows "comparator (\<lambda>x y. thenCmp (c (f x) (f y)) (d (g x) (g y)))"
proof
  fix x y z
  show "thenCmp (c (f x) (f y)) (d (g x) (g y)) = 0 \<longleftrightarrow> x = y"
    using inj by (auto simp: thenCmp_def comparator.cmp_eq [OF c] comparator.cmp_eq [OF d])
  show "thenCmp (c (f x) (f y)) (d (g x) (g y)) < 0 \<longleftrightarrow> 0 < thenCmp (c (f y) (f x)) (d (g y) (g x))"
    by (auto simp: thenCmp_def comparator.cmp_eq [OF c] comparator.cmp_flip [OF c]
        comparator.cmp_flip [OF d])
  assume "thenCmp (c (f x) (f y)) (d (g x) (g y)) < 0" "thenCmp (c (f y) (f z)) (d (g y) (g z)) < 0"
  then show "thenCmp (c (f x) (f z)) (d (g x) (g z)) < 0"
    by (auto simp: thenCmp_def comparator.cmp_eq [OF c] comparator.cmp_refl [OF c] split: if_splits
        dest: comparator.cmp_trans [OF c] comparator.cmp_trans [OF d])
qed

interpretation str_cmp: comparator "cmpCompare :: string \<Rightarrow> string \<Rightarrow> int"
  by (rule comparator_cmpCompare)

lemma cmpCompare_simps [simp]:
  "cmpCompare x y = 0 \<longleftrightarrow> x = y"
  "cmpCompare x y < 0 \<longleftrightarrow> x < y"
  "0 < cmpCompare x y \<longleftrightarrow> y < x"
  "cmpCompare x y \<le> 0 \<longleftrightarrow> x \<le> y"
  "0 \<le> cmpCompare x y \<longleftrightarrow> y \<le> x"
  "cmpCompare x x = 0"
  by (auto simp: cmpCompare_def)

lemma thenCmp_simps [simp]:
  "thenCmp 0 b = b"
  "thenCmp a 0 = a"
  "a \<noteq> 0 \<Longrightarrow> thenCmp a b = a"
  by (simp_all add: thenCmp_def)

lemma thenCmp_zero: "thenCmp a b = 0 \<longleftrightarrow> a = 0 \<and> b = 0"
  by (auto simp: thenCmp_def)

text \<open>
  A chain of comparisons is the lexicographic comparison of the lists of the fields, in which the
  extensions of a list are contiguous.
\<close>

lemma cmpCompare_Cons:
  "cmpCompare (x # xs) (y # ys) = thenCmp (cmpCompare x y) (cmpCompare xs (ys :: 'a::linorder list))"
  by (auto simp: cmpCompare_def thenCmp_def)

lemma cmpCompare_single: "cmpCompare [x] [y :: 'a::linorder] = cmpCompare x y"
  by (auto simp: cmpCompare_def)

lemma cmpCompare_prod:
  "comparator c \<Longrightarrow> comparator d \<Longrightarrow>
     comparator (\<lambda>x y. thenCmp (c (fst x) (fst y)) (d (snd x) (snd y)))"
  by (rule comparator_thenCmp) (auto simp: prod_eq_iff)

lemma prefix_less_eq: "prefix xs ys \<Longrightarrow> xs \<le> (ys :: 'a::linorder list)"
  by (induction xs ys rule: list_induct2') auto

lemma prefix_contiguous:
  "xs \<le> ys \<Longrightarrow> ys \<le> zs \<Longrightarrow> prefix xs zs \<Longrightarrow> prefix xs (ys :: 'a::linorder list)"
proof (induction xs arbitrary: ys zs)
  case (Cons x xs)
  then obtain y ys' z zs' where "ys = y # ys'" "zs = z # zs'"
    by (cases ys; cases zs) auto
  with Cons show ?case by auto
qed simp

definition comparable :: "'a list \<Rightarrow> 'a list \<Rightarrow> bool" where
  "comparable xs ys = (prefix xs ys \<or> prefix ys xs)"

lemma comparable_sym: "comparable xs ys \<longleftrightarrow> comparable ys xs"
  by (auto simp: comparable_def)

lemma comparable_refl [simp]: "comparable xs xs"
  by (simp add: comparable_def)

lemma comparable_less: "xs < (ys :: 'a::linorder list) \<Longrightarrow> comparable xs ys \<longleftrightarrow> prefix xs ys"
  by (auto simp: comparable_def dest: prefix_less_eq)

lemma comparable_contiguous:
  "xs \<le> ys \<Longrightarrow> ys \<le> zs \<Longrightarrow> comparable xs zs \<Longrightarrow> comparable xs (ys :: 'a::linorder list)"
  by (metis comparable_def order_antisym order_trans prefix_contiguous prefix_less_eq)

section \<open>Binary search\<close>

lemma searchLoop_base: "\<not> i < j \<Longrightarrow> searchLoop f i j = i"
  by (simp add: searchLoop.simps)

lemma searchLoop_step:
  "i < j \<Longrightarrow> searchLoop f i j =
     (if \<not> f ((i + j) div 2) then searchLoop f ((i + j) div 2 + 1) j
      else searchLoop f i ((i + j) div 2))"
  by (subst searchLoop.simps) (simp add: Let_def)

definition searchPost :: "(nat \<Rightarrow> bool) \<Rightarrow> nat \<Rightarrow> nat \<Rightarrow> bool" where
  "searchPost f n r = (r \<le> n \<and> (\<forall>k < r. \<not> f k) \<and> (\<forall>k. r \<le> k \<longrightarrow> k < n \<longrightarrow> f k))"

lemma searchLoop_spec:
  assumes mono: "\<And>a b. a \<le> b \<Longrightarrow> b < n \<Longrightarrow> f a \<Longrightarrow> f b"
  shows "i \<le> j \<Longrightarrow> j \<le> n \<Longrightarrow> (\<forall>k < i. \<not> f k) \<Longrightarrow> (\<forall>k. j \<le> k \<longrightarrow> k < n \<longrightarrow> f k)
    \<Longrightarrow> searchPost f n (searchLoop f i j)"
proof (induction "j - i" arbitrary: i j rule: less_induct)
  case less
  show ?case
  proof (cases "i < j")
    case False
    then have "i = j"
      using less.prems(1) by simp
    then show ?thesis
      using less.prems by (simp add: searchLoop_base searchPost_def)
  next
    case True
    define h where "h = (i + j) div 2"
    have h: "i \<le> h" "h < j" "h < n"
      using True less.prems(2) by (auto simp: h_def)
    show ?thesis
    proof (cases "f h")
      case fh: True
      have "searchPost f n (searchLoop f i h)"
        using h less.prems mono [of h, OF _ _ fh] by (intro less.hyps) auto
      then show ?thesis
        using True fh by (simp add: searchLoop_step h_def)
    next
      case fh: False
      have "\<not> f k" if "k < h + 1" for k
        using mono [of k h] that fh h by auto
      then have "searchPost f n (searchLoop f (h + 1) j)"
        using h less.prems by (intro less.hyps) auto
      then show ?thesis
        using True fh by (simp add: searchLoop_step h_def)
    qed
  qed
qed

lemma sortSearch_spec:
  assumes "\<And>a b. a \<le> b \<Longrightarrow> b < n \<Longrightarrow> f a \<Longrightarrow> f b"
  shows "sortSearch n f \<le> n" and "k < sortSearch n f \<Longrightarrow> \<not> f k"
    and "sortSearch n f \<le> k \<Longrightarrow> k < n \<Longrightarrow> f k"
proof -
  have "searchPost f n (sortSearch n f)"
    unfolding sortSearch_def by (rule searchLoop_spec) (use assms in auto)
  then show "sortSearch n f \<le> n" and "k < sortSearch n f \<Longrightarrow> \<not> f k"
    and "sortSearch n f \<le> k \<Longrightarrow> k < n \<Longrightarrow> f k"
    by (auto simp: searchPost_def)
qed

end
