(* ===== verification/Avl.thy ===== *)
theory Avl
  imports Prelude
begin

text \<open>
  The persistent AVL index of store/memory/indexed.go. The source writes it out four times, for
  revisions, tuples, attribute entities and path segments, with the key type, the comparison and
  the payload as the only difference; here it is written once over a comparison. A nil pointer is
  \<open>Nil\<close>. The lemmas show that the operations keep the tree ordered, correctly labelled with heights
  and balanced, and what they do to its in-order contents.
\<close>

section \<open>Nodes\<close>

datatype ('k, 'v) node =
    Nil
  | Node "('k, 'v) node" 'k 'v "('k, 'v) node" int

fun avlHeight :: "('k, 'v) node \<Rightarrow> int" where
  "avlHeight Nil = 0"
| "avlHeight (Node l k v r h) = h"

definition avlNew :: "'k \<Rightarrow> 'v \<Rightarrow> ('k, 'v) node \<Rightarrow> ('k, 'v) node \<Rightarrow> ('k, 'v) node" where
  "avlNew k v l r = Node l k v r (1 + max (avlHeight l) (avlHeight r))"

text \<open>
  The source reads the fields of \<open>node\<close>, \<open>node.left\<close> and \<open>node.right\<close> without a nil check. The
  first equation of each of the next three functions stands for a nil dereference; that it is
  never used on a labelled tree is \<open>avlRebalance_pivots\<close> below.
\<close>

fun avlBalance :: "('k, 'v) node \<Rightarrow> int" where
  "avlBalance Nil = 0"
| "avlBalance (Node l k v r h) = avlHeight l - avlHeight r"

fun avlRotateRight :: "('k, 'v) node \<Rightarrow> ('k, 'v) node" where
  "avlRotateRight (Node (Node pl pk pv pr ph) k v r h) = avlNew pk pv pl (avlNew k v pr r)"
| "avlRotateRight t = t"

fun avlRotateLeft :: "('k, 'v) node \<Rightarrow> ('k, 'v) node" where
  "avlRotateLeft (Node l k v (Node pl pk pv pr ph) h) = avlNew pk pv (avlNew k v l pl) pr"
| "avlRotateLeft t = t"

fun avlRebalance :: "('k, 'v) node \<Rightarrow> ('k, 'v) node" where
  "avlRebalance Nil = Nil"
| "avlRebalance (Node l k v r h) =
     (if avlBalance (Node l k v r h) > 1 then
        avlRotateRight
          (if avlBalance l < 0 then avlNew k v (avlRotateLeft l) r else Node l k v r h)
      else if avlBalance (Node l k v r h) < -1 then
        avlRotateLeft
          (if avlBalance r > 0 then avlNew k v l (avlRotateRight r) else Node l k v r h)
      else Node l k v r h)"

section \<open>Operations\<close>

fun avlGet :: "('k \<Rightarrow> 'k \<Rightarrow> int) \<Rightarrow> ('k, 'v) node \<Rightarrow> 'k \<Rightarrow> 'v option" where
  "avlGet cmp Nil key = None"
| "avlGet cmp (Node l k v r h) key =
     (if cmp key k < 0 then avlGet cmp l key
      else if cmp key k > 0 then avlGet cmp r key
      else Some v)"

fun avlSet :: "('k \<Rightarrow> 'k \<Rightarrow> int) \<Rightarrow> ('k, 'v) node \<Rightarrow> 'k \<Rightarrow> 'v \<Rightarrow> ('k, 'v) node" where
  "avlSet cmp Nil key val = avlNew key val Nil Nil"
| "avlSet cmp (Node l k v r h) key val =
     (if cmp key k < 0 then avlRebalance (avlNew k v (avlSet cmp l key val) r)
      else if cmp key k > 0 then avlRebalance (avlNew k v l (avlSet cmp r key val))
      else avlNew key val l r)"

text \<open>The loop that follows left pointers; \<open>None\<close> stands for its nil dereference.\<close>

fun avlMin :: "('k, 'v) node \<Rightarrow> ('k \<times> 'v) option" where
  "avlMin Nil = None"
| "avlMin (Node l k v r h) = (if l = Nil then Some (k, v) else avlMin l)"

fun avlDelete :: "('k \<Rightarrow> 'k \<Rightarrow> int) \<Rightarrow> ('k, 'v) node \<Rightarrow> 'k \<Rightarrow> ('k, 'v) node" where
  "avlDelete cmp Nil key = Nil"
| "avlDelete cmp (Node l k v r h) key =
     (if cmp key k < 0 then avlRebalance (avlNew k v (avlDelete cmp l key) r)
      else if cmp key k > 0 then avlRebalance (avlNew k v l (avlDelete cmp r key))
      else if l = Nil then r
      else if r = Nil then l
      else case avlMin r of
          Some (sk, sv) \<Rightarrow> avlRebalance (avlNew sk sv l (avlDelete cmp r sk))
        | None \<Rightarrow> Nil)"

section \<open>Abstraction\<close>

fun inorder :: "('k, 'v) node \<Rightarrow> ('k \<times> 'v) list" where
  "inorder Nil = []"
| "inorder (Node l k v r h) = inorder l @ (k, v) # inorder r"

text \<open>Every node is labelled with its height and its subtrees differ by at most one.\<close>

fun balanced :: "('k, 'v) node \<Rightarrow> bool" where
  "balanced Nil = True"
| "balanced (Node l k v r h) =
     (balanced l \<and> balanced r \<and> h = 1 + max (avlHeight l) (avlHeight r) \<and>
      \<bar>avlHeight l - avlHeight r\<bar> \<le> 1)"

definition keysSorted :: "('k \<Rightarrow> 'k \<Rightarrow> int) \<Rightarrow> ('k, 'v) node \<Rightarrow> bool" where
  "keysSorted cmp t = sorted_wrt (\<lambda>a b. cmp (fst a) (fst b) < 0) (inorder t)"

definition avlInv :: "('k \<Rightarrow> 'k \<Rightarrow> int) \<Rightarrow> ('k, 'v) node \<Rightarrow> bool" where
  "avlInv cmp t = (keysSorted cmp t \<and> balanced t)"

definition listSet :: "('k \<Rightarrow> 'k \<Rightarrow> int) \<Rightarrow> 'k \<Rightarrow> 'v \<Rightarrow> ('k \<times> 'v) list \<Rightarrow> ('k \<times> 'v) list" where
  "listSet cmp k v xs =
     filter (\<lambda>p. cmp (fst p) k < 0) xs @ (k, v) # filter (\<lambda>p. cmp k (fst p) < 0) xs"

section \<open>Rotations keep the contents and restore the balance\<close>

lemma inorder_avlNew [simp]: "inorder (avlNew k v l r) = inorder l @ (k, v) # inorder r"
  by (simp add: avlNew_def)

lemma inorder_rotate [simp]:
  "inorder (avlRotateRight t) = inorder t" "inorder (avlRotateLeft t) = inorder t"
proof -
  show "inorder (avlRotateRight t) = inorder t"
    by (cases t rule: avlRotateRight.cases) auto
  show "inorder (avlRotateLeft t) = inorder t"
    by (cases t rule: avlRotateLeft.cases) auto
qed

lemma inorder_avlRebalance [simp]: "inorder (avlRebalance t) = inorder t"
  by (cases t) auto

lemma balanced_height_nonneg: "balanced t \<Longrightarrow> 0 \<le> avlHeight t"
  by (induction t) auto

lemma balanced_height_Nil: "balanced t \<Longrightarrow> avlHeight t = 0 \<longleftrightarrow> t = Nil"
  by (cases t) (use balanced_height_nonneg in fastforce)+

lemma avlHeight_avlNew [simp]: "avlHeight (avlNew k v l r) = 1 + max (avlHeight l) (avlHeight r)"
  by (simp add: avlNew_def)

lemma balanced_avlNew [simp]:
  "balanced (avlNew k v l r) \<longleftrightarrow>
     balanced l \<and> balanced r \<and> \<bar>avlHeight l - avlHeight r\<bar> \<le> 1"
  by (auto simp: avlNew_def)

text \<open>A pivot of a rotation is never nil.\<close>

lemma avlRebalance_pivots:
  assumes "balanced l" and "balanced r"
  shows "avlHeight l - avlHeight r > 1 \<Longrightarrow>
      \<exists>ll lk lv lr lh. l = Node ll lk lv lr lh \<and> (avlBalance l < 0 \<longrightarrow> lr \<noteq> Nil)"
    and "avlHeight l - avlHeight r < -1 \<Longrightarrow>
      \<exists>rl rk rv rr rh. r = Node rl rk rv rr rh \<and> (avlBalance r > 0 \<longrightarrow> rl \<noteq> Nil)"
proof -
  note nonneg = balanced_height_nonneg
  show "avlHeight l - avlHeight r > 1 \<Longrightarrow>
      \<exists>ll lk lv lr lh. l = Node ll lk lv lr lh \<and> (avlBalance l < 0 \<longrightarrow> lr \<noteq> Nil)"
    using assms nonneg [of r] nonneg by (cases l) fastforce+
  show "avlHeight l - avlHeight r < -1 \<Longrightarrow>
      \<exists>rl rk rv rr rh. r = Node rl rk rv rr rh \<and> (avlBalance r > 0 \<longrightarrow> rl \<noteq> Nil)"
    using assms nonneg [of l] nonneg by (cases r) fastforce+
qed

lemma rebalance_left:
  assumes "balanced l" and "balanced r" and "avlHeight l = avlHeight r + 2"
  shows "balanced (avlRebalance (avlNew k v l r)) \<and>
    avlHeight (avlRebalance (avlNew k v l r)) \<in> {avlHeight l, avlHeight l + 1}"
proof -
  obtain ll lk lv lr lh where l: "l = Node ll lk lv lr lh"
    using avlRebalance_pivots(1) [OF assms(1,2)] assms(3) by fastforce
  show ?thesis
  proof (cases "avlBalance l < 0")
    case True
    then obtain a b c d e where "lr = Node a b c d e"
      using avlRebalance_pivots(1) [OF assms(1,2)] assms(3) l by (cases lr) fastforce+
    with True assms l show ?thesis
      by (auto simp: avlNew_def)
  next
    case False
    with assms l show ?thesis
      by (auto simp: avlNew_def)
  qed
qed

lemma rebalance_right:
  assumes "balanced l" and "balanced r" and "avlHeight r = avlHeight l + 2"
  shows "balanced (avlRebalance (avlNew k v l r)) \<and>
    avlHeight (avlRebalance (avlNew k v l r)) \<in> {avlHeight r, avlHeight r + 1}"
proof -
  obtain rl rk rv rr rh where r: "r = Node rl rk rv rr rh"
    using avlRebalance_pivots(2) [OF assms(1,2)] assms(3) by fastforce
  show ?thesis
  proof (cases "avlBalance r > 0")
    case True
    then obtain a b c d e where "rl = Node a b c d e"
      using avlRebalance_pivots(2) [OF assms(1,2)] assms(3) r by (cases rl) fastforce+
    with True assms r show ?thesis
      by (auto simp: avlNew_def)
  next
    case False
    with assms r show ?thesis
      by (auto simp: avlNew_def)
  qed
qed

lemma rebalance_none:
  "\<bar>avlHeight l - avlHeight r\<bar> \<le> 1 \<Longrightarrow> avlRebalance (avlNew k v l r) = avlNew k v l r"
  unfolding avlNew_def avlRebalance.simps avlBalance.simps by auto

lemma rebalance_spec:
  assumes "balanced l" and "balanced r" and "\<bar>avlHeight l - avlHeight r\<bar> \<le> 2"
  shows "balanced (avlRebalance (avlNew k v l r))"
    and "max (avlHeight l) (avlHeight r) \<le> avlHeight (avlRebalance (avlNew k v l r))"
    and "avlHeight (avlRebalance (avlNew k v l r)) \<le> 1 + max (avlHeight l) (avlHeight r)"
    and "\<bar>avlHeight l - avlHeight r\<bar> \<le> 1 \<Longrightarrow>
      avlHeight (avlRebalance (avlNew k v l r)) = 1 + max (avlHeight l) (avlHeight r)"
proof -
  consider "\<bar>avlHeight l - avlHeight r\<bar> \<le> 1" | "avlHeight l = avlHeight r + 2"
    | "avlHeight r = avlHeight l + 2"
    using assms(3) by linarith
  then have "balanced (avlRebalance (avlNew k v l r)) \<and>
      max (avlHeight l) (avlHeight r) \<le> avlHeight (avlRebalance (avlNew k v l r)) \<and>
      avlHeight (avlRebalance (avlNew k v l r)) \<le> 1 + max (avlHeight l) (avlHeight r)"
  proof cases
    case 1
    then show ?thesis using assms by (simp add: rebalance_none)
  next
    case 2
    then show ?thesis using rebalance_left [OF assms(1,2), of k v] by auto
  next
    case 3
    then show ?thesis using rebalance_right [OF assms(1,2), of k v] by auto
  qed
  then show "balanced (avlRebalance (avlNew k v l r))"
    and "max (avlHeight l) (avlHeight r) \<le> avlHeight (avlRebalance (avlNew k v l r))"
    and "avlHeight (avlRebalance (avlNew k v l r)) \<le> 1 + max (avlHeight l) (avlHeight r)"
    by simp_all
  show "\<bar>avlHeight l - avlHeight r\<bar> \<le> 1 \<Longrightarrow>
      avlHeight (avlRebalance (avlNew k v l r)) = 1 + max (avlHeight l) (avlHeight r)"
    by (simp add: rebalance_none)
qed

lemma avlSet_balanced:
  "balanced t \<Longrightarrow> balanced (avlSet cmp t key val) \<and>
     avlHeight t \<le> avlHeight (avlSet cmp t key val) \<and>
     avlHeight (avlSet cmp t key val) \<le> avlHeight t + 1"
proof (induction t)
  case (Node l k v r h)
  let ?l = "avlSet cmp l key val" and ?r = "avlSet cmp r key val"
  have l: "balanced ?l" "avlHeight l \<le> avlHeight ?l" "avlHeight ?l \<le> avlHeight l + 1"
    and r: "balanced ?r" "avlHeight r \<le> avlHeight ?r" "avlHeight ?r \<le> avlHeight r + 1"
    and h: "h = 1 + max (avlHeight l) (avlHeight r)" "\<bar>avlHeight l - avlHeight r\<bar> \<le> 1"
      "balanced l" "balanced r"
    using Node by auto
  have left: "balanced (avlRebalance (avlNew k v ?l r)) \<and>
      h \<le> avlHeight (avlRebalance (avlNew k v ?l r)) \<and>
      avlHeight (avlRebalance (avlNew k v ?l r)) \<le> h + 1"
    using rebalance_spec [of ?l r k v] l h by linarith
  have right: "balanced (avlRebalance (avlNew k v l ?r)) \<and>
      h \<le> avlHeight (avlRebalance (avlNew k v l ?r)) \<and>
      avlHeight (avlRebalance (avlNew k v l ?r)) \<le> h + 1"
    using rebalance_spec [of l ?r k v] r h by linarith
  from left right h show ?case
    by (simp del: avlRebalance.simps)
qed simp

lemma avlDelete_balanced:
  "balanced t \<Longrightarrow> balanced (avlDelete cmp t key) \<and>
     avlHeight (avlDelete cmp t key) \<le> avlHeight t \<and>
     avlHeight t \<le> avlHeight (avlDelete cmp t key) + 1"
proof (induction t arbitrary: key)
  case (Node l k v r h)
  have h: "h = 1 + max (avlHeight l) (avlHeight r)" "\<bar>avlHeight l - avlHeight r\<bar> \<le> 1"
      "balanced l" "balanced r"
    using Node.prems by auto
  have left: "balanced (avlRebalance (avlNew k' v' (avlDelete cmp l key') r)) \<and>
      avlHeight (avlRebalance (avlNew k' v' (avlDelete cmp l key') r)) \<le> h \<and>
      h \<le> avlHeight (avlRebalance (avlNew k' v' (avlDelete cmp l key') r)) + 1" for k' v' key'
    using rebalance_spec [of "avlDelete cmp l key'" r k' v'] Node.IH(1) [of key'] h by linarith
  have right: "balanced (avlRebalance (avlNew k' v' l (avlDelete cmp r key'))) \<and>
      avlHeight (avlRebalance (avlNew k' v' l (avlDelete cmp r key'))) \<le> h \<and>
      h \<le> avlHeight (avlRebalance (avlNew k' v' l (avlDelete cmp r key'))) + 1" for k' v' key'
    using rebalance_spec [of l "avlDelete cmp r key'" k' v'] Node.IH(2) [of key'] h by linarith
  have "avlMin r \<noteq> None" if "r \<noteq> Nil"
    using that by (induction r) auto
  with left right h balanced_height_nonneg [OF h(3)] balanced_height_nonneg [OF h(4)] show ?case
    by (auto simp del: avlRebalance.simps split: option.split)
qed simp

text \<open>A balanced index of n entries has height at most 2 log (n + 1).\<close>

lemma balanced_size: "balanced t \<Longrightarrow> 2 ^ (nat (avlHeight t) div 2) \<le> length (inorder t) + 1"
proof (induction "nat (avlHeight t)" arbitrary: t rule: less_induct)
  case less
  show ?case
  proof (cases t)
    case (Node l k v r h)
    have nn: "0 \<le> avlHeight l" "0 \<le> avlHeight r" "h = 1 + max (avlHeight l) (avlHeight r)"
      "\<bar>avlHeight l - avlHeight r\<bar> \<le> 1" "balanced l" "balanced r"
      using less.prems Node balanced_height_nonneg by auto
    have l: "2 ^ (nat (avlHeight l) div 2) \<le> length (inorder l) + 1"
      using nn Node by (intro less.hyps) auto
    have r: "2 ^ (nat (avlHeight r) div 2) \<le> length (inorder r) + 1"
      using nn Node by (intro less.hyps) auto
    have ge: "nat h - 2 \<le> nat (avlHeight l)" "nat h - 2 \<le> nat (avlHeight r)"
      using nn by auto
    have lr: "(2::nat) ^ ((nat h - 2) div 2) \<le> length (inorder l) + 1"
      "(2::nat) ^ ((nat h - 2) div 2) \<le> length (inorder r) + 1"
      using l r ge by (meson div_le_mono le_trans one_le_numeral power_increasing)+
    show ?thesis
    proof (cases "nat h \<ge> 2")
      case True
      then have "nat h div 2 = Suc ((nat h - 2) div 2)"
        by (simp add: le_div_geq)
      then have "(2::nat) ^ (nat h div 2) = 2 ^ ((nat h - 2) div 2) + 2 ^ ((nat h - 2) div 2)"
        by simp
      with lr show ?thesis by (simp add: Node)
    qed (use Node in auto)
  qed simp
qed

section \<open>Contents\<close>

lemma filter_all: "\<forall>x \<in> set xs. P x \<Longrightarrow> filter P xs = xs"
  by (simp add: filter_id_conv)

lemma filter_none: "\<forall>x \<in> set xs. \<not> P x \<Longrightarrow> filter P xs = []"
  by (simp add: filter_empty_conv)

lemma avlMin_hd: "t \<noteq> Nil \<Longrightarrow> avlMin t = Some (hd (inorder t))"
proof (induction t)
  case (Node l k v r h)
  then show ?case by (cases "l = Nil") (auto simp: hd_append, cases l, auto)
qed simp

lemma inorder_Nil_iff [simp]: "inorder t = [] \<longleftrightarrow> t = Nil"
  by (cases t) auto

text \<open>
  The interface of an ordered index over a comparison: what each operation does to the sorted
  contents, and hence to the finite map that the index stands for.
\<close>

locale ordered_keys = comparator cmp for cmp :: "'k \<Rightarrow> 'k \<Rightarrow> int"
begin

lemma keysSorted_Node:
  "keysSorted cmp (Node l k v r h) \<longleftrightarrow>
     keysSorted cmp l \<and> keysSorted cmp r \<and>
     (\<forall>p \<in> set (inorder l). cmp (fst p) k < 0) \<and> (\<forall>p \<in> set (inorder r). cmp k (fst p) < 0)"
  unfolding keysSorted_def inorder.simps sorted_wrt_append sorted_wrt.simps
  by (auto dest: cmp_trans)

lemma listSet_left:
  assumes "\<forall>p \<in> set ys. cmp k (fst p) < 0"
  shows "listSet cmp k v (xs @ ys) = listSet cmp k v xs @ ys"
proof -
  have "filter (\<lambda>p. cmp (fst p) k < 0) ys = []" "filter (\<lambda>p. cmp k (fst p) < 0) ys = ys"
    using assms cmp_asym by (auto intro!: filter_all filter_none)
  then show ?thesis by (simp add: listSet_def)
qed

lemma listSet_right:
  assumes "\<forall>p \<in> set xs. cmp (fst p) k < 0"
  shows "listSet cmp k v (xs @ ys) = xs @ listSet cmp k v ys"
proof -
  have "filter (\<lambda>p. cmp (fst p) k < 0) xs = xs" "filter (\<lambda>p. cmp k (fst p) < 0) xs = []"
    using assms cmp_asym by (auto intro!: filter_all filter_none)
  then show ?thesis by (simp add: listSet_def)
qed

lemma inorder_avlSet:
  "keysSorted cmp t \<Longrightarrow> inorder (avlSet cmp t key val) = listSet cmp key val (inorder t)"
proof (induction t)
  case Nil
  then show ?case by (simp add: listSet_def)
next
  case (Node l k v r h)
  then have s: "keysSorted cmp l" "keysSorted cmp r"
    "\<forall>p \<in> set (inorder l). cmp (fst p) k < 0" "\<forall>p \<in> set (inorder r). cmp k (fst p) < 0"
    by (auto simp: keysSorted_Node)
  consider "cmp key k < 0" | "key = k" | "cmp k key < 0"
    using cmp_cases by blast
  then show ?case
  proof cases
    case 1
    then have "\<forall>p \<in> set ((k, v) # inorder r). cmp key (fst p) < 0"
      using s(4) cmp_trans by auto
    from listSet_left [OF this] 1 Node.IH(1) [OF s(1)] show ?thesis by simp
  next
    case 2
    then show ?thesis
      using listSet_right [of "inorder l" key val "(k, v) # inorder r"] s(3,4)
      by (simp add: cmp_refl listSet_def filter_all filter_none cmp_asym)
  next
    case 3
    then have "\<forall>p \<in> set (inorder l @ [(k, v)]). cmp (fst p) key < 0"
      using s(3) cmp_trans by auto
    from listSet_right [OF this, of val "inorder r"] 3 cmp_asym [OF 3] cmp_flip [of k key]
      Node.IH(2) [OF s(2)]
    show ?thesis by simp
  qed
qed

lemma inorder_avlDelete:
  "keysSorted cmp t \<Longrightarrow> inorder (avlDelete cmp t key) = filter (\<lambda>p. fst p \<noteq> key) (inorder t)"
proof (induction t arbitrary: key)
  case (Node l k v r h)
  then have s: "keysSorted cmp l" "keysSorted cmp r"
    "\<forall>p \<in> set (inorder l). cmp (fst p) k < 0" "\<forall>p \<in> set (inorder r). cmp k (fst p) < 0"
    by (auto simp: keysSorted_Node)
  note filt = filter_all [of _ "\<lambda>p. fst p \<noteq> key"]
  consider "cmp key k < 0" | "key = k" | "cmp k key < 0"
    using cmp_cases by blast
  then show ?case
  proof cases
    case 1
    then have "\<forall>p \<in> set ((k, v) # inorder r). fst p \<noteq> key"
      using s(4) cmp_asym cmp_irrefl by fastforce
    with filt [OF this] 1 Node.IH(1) [OF s(1)] show ?thesis by simp
  next
    case 2
    have rest: "filter (\<lambda>p. fst p \<noteq> key) (inorder l) = inorder l"
      "filter (\<lambda>p. fst p \<noteq> key) (inorder r) = inorder r"
      using s(3,4) 2 cmp_irrefl by (auto intro!: filter_all)
    show ?thesis
    proof (cases "l = Nil \<or> r = Nil")
      case True
      then show ?thesis using 2 rest by (auto simp: cmp_refl)
    next
      case False
      then obtain sk sv xs where xs: "inorder r = (sk, sv) # xs" "avlMin r = Some (sk, sv)"
        using avlMin_hd [of r] by (cases "inorder r") (auto simp: inorder_Nil_iff [of r])
      have "\<forall>p \<in> set xs. fst p \<noteq> sk"
        using s(2) xs(1) cmp_irrefl by (fastforce simp: keysSorted_def)
      then have "inorder (avlDelete cmp r sk) = xs"
        using Node.IH(2) [OF s(2), of sk] xs(1) by (simp add: filter_all)
      with False 2 xs rest show ?thesis
        by (simp add: cmp_refl del: avlRebalance.simps)
    qed
  next
    case 3
    then have "\<forall>p \<in> set (inorder l @ [(k, v)]). fst p \<noteq> key"
      using s(3) cmp_asym cmp_irrefl by fastforce
    with filt [OF this] 3 cmp_asym [OF 3] cmp_flip [of k key] Node.IH(2) [OF s(2)] show ?thesis
      by simp
  qed
qed simp

lemma avlGet_map_of: "keysSorted cmp t \<Longrightarrow> avlGet cmp t key = map_of (inorder t) key"
proof (induction t)
  case (Node l k v r h)
  then have s: "keysSorted cmp l" "keysSorted cmp r"
    "\<forall>p \<in> set (inorder l). cmp (fst p) k < 0" "\<forall>p \<in> set (inorder r). cmp k (fst p) < 0"
    by (auto simp: keysSorted_Node)
  consider "cmp key k < 0" | "key = k" | "cmp k key < 0"
    using cmp_cases by blast
  then show ?case
  proof cases
    case 1
    then have "map_of ((k, v) # inorder r) key = None"
      using s(4) cmp_asym cmp_irrefl by (fastforce simp: map_of_eq_None_iff)
    with 1 Node.IH(1) [OF s(1)] show ?thesis
      by (simp add: map_add_def del: map_of.simps split: option.split)
  next
    case 2
    have "map_of (inorder l) key = None"
      using s(3) 2 cmp_irrefl by (fastforce simp: map_of_eq_None_iff)
    with 2 show ?thesis by (simp add: cmp_refl map_add_def)
  next
    case 3
    then have "map_of (inorder l @ [(k, v)]) key = None"
      using s(3) cmp_asym cmp_irrefl by (fastforce simp: map_of_eq_None_iff)
    with 3 cmp_asym [OF 3] cmp_flip [of k key] Node.IH(2) [OF s(2)] show ?thesis
      by (auto simp: map_add_def split: option.splits)
  qed
qed simp

text \<open>The map laws of the index.\<close>

lemma set_listSet: "set (listSet cmp k v xs) = insert (k, v) {p \<in> set xs. fst p \<noteq> k}"
  using cmp_cases cmp_irrefl unfolding listSet_def by fastforce

lemma sorted_listSet:
  assumes "sorted_wrt (\<lambda>a b. cmp (fst a) (fst b) < 0) xs"
  shows "sorted_wrt (\<lambda>a b. cmp (fst a) (fst b) < 0) (listSet cmp k v xs)"
  using assms by (auto simp: listSet_def sorted_wrt_append sorted_wrt_filter dest: cmp_trans)

lemma sorted_distinct_keys:
  "sorted_wrt (\<lambda>a b. cmp (fst a) (fst b) < 0) xs \<Longrightarrow> distinct (map fst xs)"
  by (induction xs) (use cmp_irrefl in fastforce)+

lemma keysSorted_avlSet: "keysSorted cmp t \<Longrightarrow> keysSorted cmp (avlSet cmp t k v)"
  by (simp add: keysSorted_def inorder_avlSet sorted_listSet)

lemma keysSorted_avlDelete: "keysSorted cmp t \<Longrightarrow> keysSorted cmp (avlDelete cmp t k)"
  by (simp add: keysSorted_def inorder_avlDelete sorted_wrt_filter)

lemma avlInv_Nil: "avlInv cmp Nil"
  by (simp add: avlInv_def keysSorted_def)

lemma avlInv_avlSet: "avlInv cmp t \<Longrightarrow> avlInv cmp (avlSet cmp t k v)"
  by (simp add: avlInv_def keysSorted_avlSet avlSet_balanced)

lemma avlInv_avlDelete: "avlInv cmp t \<Longrightarrow> avlInv cmp (avlDelete cmp t k)"
  by (simp add: avlInv_def keysSorted_avlDelete avlDelete_balanced)

lemma avlGet_Some_iff: "keysSorted cmp t \<Longrightarrow> avlGet cmp t k = Some v \<longleftrightarrow> (k, v) \<in> set (inorder t)"
  using sorted_distinct_keys [of "inorder t"] by (simp add: avlGet_map_of keysSorted_def)

lemma avlGet_avlSet:
  assumes "avlInv cmp t"
  shows "avlGet cmp (avlSet cmp t k v) = (avlGet cmp t)(k \<mapsto> v)"
proof
  fix x
  have s: "keysSorted cmp t" "keysSorted cmp (avlSet cmp t k v)"
    using assms by (simp_all add: avlInv_def keysSorted_avlSet)
  have "avlGet cmp (avlSet cmp t k v) x = Some y \<longleftrightarrow> ((avlGet cmp t)(k \<mapsto> v)) x = Some y" for y
    using s by (auto simp: avlGet_Some_iff inorder_avlSet set_listSet)
  then show "avlGet cmp (avlSet cmp t k v) x = ((avlGet cmp t)(k \<mapsto> v)) x"
    by (metis option.exhaust)
qed

lemma avlGet_avlDelete:
  assumes "avlInv cmp t"
  shows "avlGet cmp (avlDelete cmp t k) = (avlGet cmp t)(k := None)"
proof
  fix x
  have s: "keysSorted cmp t" "keysSorted cmp (avlDelete cmp t k)"
    using assms by (simp_all add: avlInv_def keysSorted_avlDelete)
  have "avlGet cmp (avlDelete cmp t k) x = Some y \<longleftrightarrow> ((avlGet cmp t)(k := None)) x = Some y" for y
    using s by (auto simp: avlGet_Some_iff inorder_avlDelete)
  then show "avlGet cmp (avlDelete cmp t k) x = ((avlGet cmp t)(k := None)) x"
    by (metis option.exhaust)
qed

lemma avlGet_nonempty: "t \<noteq> Nil \<Longrightarrow> keysSorted cmp t \<Longrightarrow> \<exists>k v. avlGet cmp t k = Some v"
  by (cases t) (auto simp: avlGet_Some_iff simp del: avlGet.simps)

lemma avlSet_not_Nil: "avlSet cmp t k v \<noteq> Nil"
proof -
  have "inorder (avlSet cmp t k v) \<noteq> []"
    by (cases t) (simp_all del: avlRebalance.simps inorder_Nil_iff)
  then show ?thesis by auto
qed

end

end
