(* ===== verification/Limits.thy ===== *)
theory Limits
  imports Prelude
begin

text \<open>
  limits.go and validation.go: the hard maxima of the public API, the overflow-safe budget
  counter, and the validation of text, identifiers, namespaces, namespace patterns, revision
  identifiers and identifier lists. The UTF-8 decoder and the two Unicode classes that
  validateText consults are the Go library's.
\<close>

section \<open>Hard maxima (limits.go)\<close>

definition MaxIdentifierBytes :: nat where "MaxIdentifierBytes = 1024"
definition MaxStringValueBytes :: nat where "MaxStringValueBytes = 65536"
definition MaxNamespaceBytes :: nat where "MaxNamespaceBytes = MaxIdentifierBytes"
definition MaxNamespacePatternBytes :: nat where "MaxNamespacePatternBytes = MaxIdentifierBytes + 1"
definition MaxCallerAttributes :: nat where "MaxCallerAttributes = 128"
definition MaxCallerGrants :: nat where "MaxCallerGrants = 128"
definition MaxCapabilitiesPerGrant :: nat where "MaxCapabilitiesPerGrant = 16"
definition MaxSourceNameBytes :: nat where "MaxSourceNameBytes = MaxIdentifierBytes"
definition MaxPolicySourceBytes :: nat where "MaxPolicySourceBytes = 1048576"
definition MaxArgumentItems :: nat where "MaxArgumentItems = 128"
definition MaxContextualTuples :: nat where "MaxContextualTuples = 1024"
definition MaxContextualAttributes :: nat where "MaxContextualAttributes = 1024"
definition MaxBatchItems :: nat where "MaxBatchItems = 1000"
definition MaxMutationItems :: nat where "MaxMutationItems = 4096"
definition MaxEvidenceBytes :: nat where "MaxEvidenceBytes = 65536"
definition MaxVerifierOutputItems :: nat where "MaxVerifierOutputItems = 1024"
definition MaxPageRequestItems :: nat where "MaxPageRequestItems = 1000"
definition MaxPageResponseItems :: nat where "MaxPageResponseItems = 1000"
definition MaxExplainSteps :: nat where "MaxExplainSteps = 4096"
definition MaxStatusComponents :: nat where "MaxStatusComponents = 256"
definition MaxEventPageItems :: nat where "MaxEventPageItems = 1000"
definition MaxAggregateInputBytes :: nat where "MaxAggregateInputBytes = 4194304"
definition MaxAggregateOutputBytes :: nat where "MaxAggregateOutputBytes = 4194304"
definition MaxAuthorizerOutputBytes :: nat where "MaxAuthorizerOutputBytes = 1048576"
definition MaxVerifierOutputBytes :: nat where "MaxVerifierOutputBytes = 4194304"
definition MaxEventPageBytes :: nat where "MaxEventPageBytes = 4194304"
definition MaxAggregateWorkItems :: nat where "MaxAggregateWorkItems = 100000"

lemmas limit_defs = MaxIdentifierBytes_def MaxStringValueBytes_def MaxNamespaceBytes_def
  MaxNamespacePatternBytes_def MaxCallerAttributes_def MaxCallerGrants_def
  MaxCapabilitiesPerGrant_def MaxSourceNameBytes_def MaxPolicySourceBytes_def
  MaxArgumentItems_def MaxContextualTuples_def MaxContextualAttributes_def MaxBatchItems_def
  MaxMutationItems_def MaxEvidenceBytes_def MaxVerifierOutputItems_def MaxPageRequestItems_def
  MaxPageResponseItems_def MaxExplainSteps_def MaxStatusComponents_def MaxEventPageItems_def MaxAggregateInputBytes_def
  MaxAggregateOutputBytes_def MaxAuthorizerOutputBytes_def MaxVerifierOutputBytes_def
  MaxEventPageBytes_def MaxAggregateWorkItems_def

section \<open>The budget counter (limits.go)\<close>

text \<open>Go's int fields. An add that fails leaves the counter as it was.\<close>

record budgetCounter =
  bc_used :: int
  bc_max :: int

definition newBudget :: "nat \<Rightarrow> budgetCounter" where
  "newBudget m = \<lparr>bc_used = 0, bc_max = int m\<rparr>"

definition budgetAdd :: "budgetCounter \<Rightarrow> int \<Rightarrow> budgetCounter result" where
  "budgetAdd b sz =
     (if sz < 0 \<or> bc_used b < 0 \<or> bc_max b < 0 \<or> sz > bc_max b \<or> bc_used b > bc_max b - sz
      then Inl ErrorResourceExhausted
      else Inr (b\<lparr>bc_used := bc_used b + sz\<rparr>))"

definition budgetAddMany :: "budgetCounter \<Rightarrow> int \<Rightarrow> int \<Rightarrow> budgetCounter result" where
  "budgetAddMany b cnt sz =
     (if cnt < 0 \<or> sz < 0 \<or> bc_used b < 0 \<or> bc_max b < 0 \<or>
         (cnt \<noteq> 0 \<and> sz > bc_max b div cnt)
      then Inl ErrorResourceExhausted
      else budgetAdd b (cnt * sz))"

text \<open>A loop that charges each element and returns on the first failure.\<close>

fun eachB :: "(budgetCounter \<Rightarrow> 'a \<Rightarrow> budgetCounter result) \<Rightarrow> budgetCounter \<Rightarrow> 'a list
    \<Rightarrow> budgetCounter result" where
  "eachB f b [] = Inr b"
| "eachB f b (x # xs) = bindR (f b x) (\<lambda>b'. eachB f b' xs)"

section \<open>Text costs (cost.go)\<close>

definition valueMetadataBytes :: int where "valueMetadataBytes = 9"
definition collectionMetadataBytes :: int where "collectionMetadataBytes = 8"
definition fieldMetadataBytes :: int where "fieldMetadataBytes = 8"
definition timestampBytes :: int where "timestampBytes = 40"
definition digestBytes :: int where "digestBytes = 32"
definition uint64Bytes :: int where "uint64Bytes = 8"
definition boolBytes :: int where "boolBytes = 1"
definition enumBytes :: int where "enumBytes = 1"

lemmas cost_consts = valueMetadataBytes_def collectionMetadataBytes_def fieldMetadataBytes_def
  timestampBytes_def digestBytes_def uint64Bytes_def boolBytes_def enumBytes_def

definition addTextCost :: "budgetCounter \<Rightarrow> string \<Rightarrow> budgetCounter result" where
  "addTextCost b value =
     bindR (budgetAdd b fieldMetadataBytes) (\<lambda>b. budgetAdd b (int (length value)))"

definition addBytesCost :: "budgetCounter \<Rightarrow> 'a list \<Rightarrow> budgetCounter result" where
  "addBytesCost b value =
     bindR (budgetAdd b fieldMetadataBytes) (\<lambda>b. budgetAdd b (int (length value)))"

definition addFixedFieldCost :: "budgetCounter \<Rightarrow> int \<Rightarrow> budgetCounter result" where
  "addFixedFieldCost b sz =
     bindR (budgetAdd b fieldMetadataBytes) (\<lambda>b. budgetAdd b sz)"

definition addAttributePathCost :: "budgetCounter \<Rightarrow> string list \<Rightarrow> budgetCounter result" where
  "addAttributePathCost b path =
     bindR (budgetAdd b collectionMetadataBytes) (\<lambda>b. eachB addTextCost b path)"

definition addIdentifiersCost :: "budgetCounter \<Rightarrow> string list \<Rightarrow> budgetCounter result" where
  "addIdentifiersCost b values =
     bindR (budgetAdd b collectionMetadataBytes) (\<lambda>b. eachB addTextCost b values)"

section \<open>Text (validation.go)\<close>

text \<open>utf8: the code points of a well-formed byte string, \<open>None\<close> for any other.\<close>

definition cont :: "nat \<Rightarrow> bool" where
  "cont b = (128 \<le> b \<and> b \<le> 191)"

fun utf8Runes :: "nat list \<Rightarrow> nat list option" where
  "utf8Runes [] = Some []"
| "utf8Runes (b0 # bs) =
     (if b0 < 128 then map_option (Cons b0) (utf8Runes bs)
      else if 194 \<le> b0 \<and> b0 \<le> 223 then
        (case bs of
           b1 # bs1 \<Rightarrow>
             if cont b1
             then map_option (Cons ((b0 - 192) * 64 + (b1 - 128))) (utf8Runes bs1) else None
         | _ \<Rightarrow> None)
      else if 224 \<le> b0 \<and> b0 \<le> 239 then
        (case bs of
           b1 # b2 # bs2 \<Rightarrow>
             if cont b1 \<and> cont b2 \<and> (b0 = 224 \<longrightarrow> 160 \<le> b1) \<and> (b0 = 237 \<longrightarrow> b1 \<le> 159)
             then map_option (Cons ((b0 - 224) * 4096 + (b1 - 128) * 64 + (b2 - 128)))
                    (utf8Runes bs2)
             else None
         | _ \<Rightarrow> None)
      else if 240 \<le> b0 \<and> b0 \<le> 244 then
        (case bs of
           b1 # b2 # b3 # bs3 \<Rightarrow>
             if cont b1 \<and> cont b2 \<and> cont b3 \<and> (b0 = 240 \<longrightarrow> 144 \<le> b1) \<and> (b0 = 244 \<longrightarrow> b1 \<le> 143)
             then map_option (Cons ((b0 - 240) * 262144 + (b1 - 128) * 4096 + (b2 - 128) * 64
                                      + (b3 - 128)))
                    (utf8Runes bs3)
             else None
         | _ \<Rightarrow> None)
      else None)"

text \<open>unicode.IsControl and unicode.Is(unicode.Cf, r), Unicode 15.0.\<close>

definition isControl :: "nat \<Rightarrow> bool" where
  "isControl r = (r \<le> 31 \<or> (127 \<le> r \<and> r \<le> 159))"

definition cfRanges :: "(nat \<times> nat) list" where
  "cfRanges =
     [(0x00AD, 0x00AD), (0x0600, 0x0605), (0x061C, 0x061C), (0x06DD, 0x06DD), (0x070F, 0x070F),
      (0x0890, 0x0891), (0x08E2, 0x08E2), (0x180E, 0x180E), (0x200B, 0x200F), (0x202A, 0x202E),
      (0x2060, 0x2064), (0x2066, 0x206F), (0xFEFF, 0xFEFF), (0xFFF9, 0xFFFB),
      (0x110BD, 0x110BD), (0x110CD, 0x110CD), (0x13430, 0x1343F), (0x1BCA0, 0x1BCA3),
      (0x1D173, 0x1D17A), (0xE0001, 0xE0001), (0xE0020, 0xE007F)]"

definition isFormat :: "nat \<Rightarrow> bool" where
  "isFormat r = list_ex (\<lambda>(lo, hi). lo \<le> r \<and> r \<le> hi) cfRanges"

definition validateText :: "string \<Rightarrow> nat \<Rightarrow> bool \<Rightarrow> check" where
  "validateText value maximum allowEmpty =
     (if value = [] \<and> \<not> allowEmpty then Inl ErrorInvalidArgument
      else if length value > maximum then Inl ErrorResourceExhausted
      else case utf8Runes (map of_char value) of
        None \<Rightarrow> Inl ErrorInvalidArgument
      | Some runes \<Rightarrow>
          eachR (\<lambda>r. requireR (\<not> (r = 0 \<or> isControl r \<or> isFormat r)) ErrorInvalidArgument) runes)"

definition validateIdentifier :: "string \<Rightarrow> check" where
  "validateIdentifier value = validateText value MaxIdentifierBytes False"

definition validateOptionalIdentifier :: "string \<Rightarrow> check" where
  "validateOptionalIdentifier value = validateText value MaxIdentifierBytes True"

definition validateNamespace :: "string \<Rightarrow> check" where
  "validateNamespace value =
     bindR (validateText value MaxNamespaceBytes False)
       (\<lambda>_. requireR (CHR ''*'' \<notin> set value) ErrorInvalidArgument)"

text \<open>strings.HasSuffix for the one-byte suffix the patterns use, and strings.TrimSuffix.\<close>

definition hasStarSuffix :: "string \<Rightarrow> bool" where
  "hasStarSuffix s = (s \<noteq> [] \<and> last s = CHR ''*'')"

definition trimStarSuffix :: "string \<Rightarrow> string" where
  "trimStarSuffix s = (if hasStarSuffix s then butlast s else s)"

definition validateNamespacePattern :: "string \<Rightarrow> check" where
  "validateNamespacePattern pattern =
     bindR (validateText pattern MaxNamespacePatternBytes False)
       (\<lambda>_. requireR (\<not> (count_list pattern (CHR ''*'') > 1 \<or>
                        (CHR ''*'' \<in> set pattern \<and> \<not> hasStarSuffix pattern)))
              ErrorInvalidArgument)"

definition validIdentifier :: "string \<Rightarrow> bool" where
  "validIdentifier value = isOk (validateIdentifier value)"

definition validNamespace :: "string \<Rightarrow> bool" where
  "validNamespace value = isOk (validateNamespace value)"

section \<open>Attribute paths and revision identifiers (validation.go)\<close>

definition isDSLIdentifierStart :: "char \<Rightarrow> bool" where
  "isDSLIdentifierStart c =
     (c = CHR ''_'' \<or> (CHR ''A'' \<le> c \<and> c \<le> CHR ''Z'') \<or> (CHR ''a'' \<le> c \<and> c \<le> CHR ''z''))"

fun validDSLIdentifier :: "string \<Rightarrow> bool" where
  "validDSLIdentifier [] = False"
| "validDSLIdentifier (c # cs) =
     (isDSLIdentifierStart c \<and>
      list_all (\<lambda>d. isDSLIdentifierStart d \<or> (CHR ''0'' \<le> d \<and> d \<le> CHR ''9'')) cs)"

definition validateAttributePath :: "string list \<Rightarrow> check" where
  "validateAttributePath path =
     (if path = [] then Inl ErrorInvalidArgument
      else if length path > MaxAggregateWorkItems then Inl ErrorResourceExhausted
      else bindR (addAttributePathCost (newBudget MaxAggregateInputBytes) path)
        (\<lambda>_. eachR (\<lambda>segment. bindR (validateIdentifier segment)
                 (\<lambda>_. requireR (validDSLIdentifier segment) ErrorInvalidArgument)) path))"

definition validRevisionIDString :: "string \<Rightarrow> bool" where
  "validRevisionIDString value =
     (length value = 64 \<and>
      list_all (\<lambda>c. (CHR ''0'' \<le> c \<and> c \<le> CHR ''9'') \<or> (CHR ''a'' \<le> c \<and> c \<le> CHR ''f'')) value)"

section \<open>Canonical identifier lists (validation.go)\<close>

text \<open>The in-place compaction of a sorted slice: the accumulator holds \<open>cloned[:write]\<close> reversed.\<close>

fun compactLoop :: "string list \<Rightarrow> string list \<Rightarrow> string list" where
  "compactLoop kept [] = rev kept"
| "compactLoop kept (v # vs) =
     (case kept of
        k # _ \<Rightarrow> if k = v then compactLoop kept vs else compactLoop (v # kept) vs
      | [] \<Rightarrow> compactLoop [v] vs)"

definition admitIdentifier :: "budgetCounter \<Rightarrow> string \<Rightarrow> budgetCounter result" where
  "admitIdentifier b value =
     bindR (budgetAdd b (int (length value))) (\<lambda>b. bindR (validateIdentifier value) (\<lambda>_. Inr b))"

definition canonicalIdentifiers :: "string list \<Rightarrow> nat \<Rightarrow> nat \<Rightarrow> string list result" where
  "canonicalIdentifiers values maximumItems maximumBytes =
     (if length values > maximumItems then Inl ErrorResourceExhausted
      else bindR (eachB admitIdentifier (newBudget maximumBytes) values)
        (\<lambda>_. Inr (compactLoop [] (sortSlice cmpCompare values))))"

fun validCanonicalLoop :: "budgetCounter \<Rightarrow> string option \<Rightarrow> string list \<Rightarrow> bool" where
  "validCanonicalLoop b prev [] = True"
| "validCanonicalLoop b prev (v # vs) =
     (case budgetAdd b (int (length v)) of
        Inl _ \<Rightarrow> False
      | Inr b' \<Rightarrow>
          isOk (validateIdentifier v) \<and>
          (case prev of None \<Rightarrow> True | Some p \<Rightarrow> \<not> p \<ge> v) \<and>
          validCanonicalLoop b' (Some v) vs)"

definition validCanonicalIdentifiers :: "string list \<Rightarrow> nat \<Rightarrow> nat \<Rightarrow> bool" where
  "validCanonicalIdentifiers values maximumItems maximumBytes =
     (length values \<le> maximumItems \<and> validCanonicalLoop (newBudget maximumBytes) None values)"

section \<open>Budget lemmas\<close>

text \<open>Charging in two steps is charging the sum: the counter accepts exactly what fits.\<close>

named_theorems charge_simps \<open>the total a cost function charges\<close>

lemma budgetAdd_Inr_iff:
  "budgetAdd b n = Inr b' \<longleftrightarrow>
     0 \<le> n \<and> 0 \<le> bc_used b \<and> 0 \<le> bc_max b \<and> bc_used b + n \<le> bc_max b \<and>
     b' = b\<lparr>bc_used := bc_used b + n\<rparr>"
  by (auto simp: budgetAdd_def)

lemma budgetAdd_seq:
  "0 \<le> m \<Longrightarrow> 0 \<le> n \<Longrightarrow> bindR (budgetAdd b m) (\<lambda>b'. budgetAdd b' n) = budgetAdd b (m + n)"
  by (auto simp: budgetAdd_def)

lemma bindR_assoc: "bindR (bindR m f) g = bindR m (\<lambda>x. bindR (f x) g)"
  by (cases m) auto

lemma budgetAdd_bind:
  "0 \<le> m \<Longrightarrow> 0 \<le> n \<Longrightarrow>
     bindR (budgetAdd b m) (\<lambda>b'. bindR (budgetAdd b' n) k) = bindR (budgetAdd b (m + n)) k"
  by (simp add: budgetAdd_seq [symmetric] bindR_assoc)

lemma budgetAdd_eachB:
  assumes "\<And>b x. f b x = budgetAdd b (c x)" and "\<And>x. 0 \<le> c x" and "0 \<le> m"
  shows "bindR (budgetAdd b m) (\<lambda>b'. eachB f b' xs) = budgetAdd b (m + sum_list (map c xs))"
  using assms(3)
proof (induction xs arbitrary: b m)
  case Nil
  then show ?case by (cases "budgetAdd b m") simp_all
next
  case (Cons x xs)
  have "bindR (budgetAdd b m) (\<lambda>b'. eachB f b' (x # xs)) =
      bindR (budgetAdd b (m + c x)) (\<lambda>b'. eachB f b' xs)"
    using Cons.prems assms(2) by (simp add: assms(1) budgetAdd_bind)
  with Cons.IH [of "m + c x" b] Cons.prems assms(2) show ?case
    by (simp add: add.assoc)
qed

lemma div_less_iff_mult:
  assumes "0 < (c::int)"
  shows "m div c < s \<longleftrightarrow> m < c * s"
proof -
  have m: "m = c * (m div c) + m mod c" "0 \<le> m mod c" "m mod c < c"
    using assms by (simp_all add: mult.commute)
  show ?thesis
  proof
    assume "m div c < s"
    then have "c * (m div c + 1) \<le> c * s"
      using assms by (intro mult_left_mono) auto
    then have "c * (m div c) + c \<le> c * s"
      by (simp add: distrib_left)
    with m show "m < c * s" by linarith
  next
    assume less: "m < c * s"
    show "m div c < s"
    proof (rule ccontr)
      assume "\<not> m div c < s"
      then have "c * s \<le> c * (m div c)"
        using assms by (intro mult_left_mono) auto
      with m less show False by linarith
    qed
  qed
qed

lemma budgetAddMany_eq:
  assumes "0 \<le> cnt" and "0 \<le> sz"
  shows "budgetAddMany b cnt sz = budgetAdd b (cnt * sz)"
proof (cases "0 < cnt")
  case True
  then show ?thesis
    using assms by (simp add: budgetAddMany_def budgetAdd_def div_less_iff_mult)
next
  case False
  then show ?thesis
    using assms by (simp add: budgetAddMany_def)  (simp add: budgetAdd_def)
qed

lemma newBudget_simps [simp]: "bc_used (newBudget m) = 0" "bc_max (newBudget m) = int m"
  by (simp_all add: newBudget_def)

lemma sum_list_nonneg_map: "(\<And>x. (0::int) \<le> c x) \<Longrightarrow> 0 \<le> sum_list (map c xs)"
  by (induction xs) (auto intro: add_nonneg_nonneg)

definition textBytes :: "'a list \<Rightarrow> int" where
  "textBytes v = 8 + int (length v)"

definition textsBytes :: "string list \<Rightarrow> int" where
  "textsBytes vs = 8 + sum_list (map textBytes vs)"

lemma textBytes_nonneg [simp]: "0 \<le> textBytes v" "0 \<le> textsBytes vs"
  by (simp_all add: textBytes_def textsBytes_def sum_list_nonneg_map)

lemma addTextCost_eq [charge_simps]: "addTextCost b v = budgetAdd b (textBytes v)"
  by (simp add: addTextCost_def budgetAdd_seq cost_consts textBytes_def)

lemma addBytesCost_eq [charge_simps]: "addBytesCost b v = budgetAdd b (textBytes v)"
  by (simp add: addBytesCost_def budgetAdd_seq cost_consts textBytes_def)

lemma addFixedFieldCost_eq [charge_simps]:
  "0 \<le> n \<Longrightarrow> addFixedFieldCost b n = budgetAdd b (8 + n)"
  by (simp add: addFixedFieldCost_def budgetAdd_seq cost_consts)

lemma addAttributePathCost_eq [charge_simps]: "addAttributePathCost b p = budgetAdd b (textsBytes p)"
  by (simp add: addAttributePathCost_def cost_consts textsBytes_def
      budgetAdd_eachB [of _ textBytes] addTextCost_eq)

lemma addIdentifiersCost_eq [charge_simps]: "addIdentifiersCost b p = budgetAdd b (textsBytes p)"
  by (simp add: addIdentifiersCost_def cost_consts textsBytes_def
      budgetAdd_eachB [of _ textBytes] addTextCost_eq)

section \<open>Text lemmas\<close>

lemma utf8Runes_ascii: "list_all (\<lambda>b. b < 128) bs \<Longrightarrow> utf8Runes bs = Some bs"
  by (induction bs) auto

lemma validateText_Inr_iff:
  "validateText v m e = Inr () \<longleftrightarrow>
     (v \<noteq> [] \<or> e) \<and> length v \<le> m \<and>
     (\<exists>rs. utf8Runes (map of_char v) = Some rs \<and> (\<forall>r \<in> set rs. \<not> isControl r \<and> \<not> isFormat r))"
  by (auto simp: validateText_def isControl_def split: option.splits)

lemma validateIdentifier_length: "validateIdentifier v = Inr () \<Longrightarrow> v \<noteq> [] \<and> length v \<le> 1024"
  by (simp add: validateIdentifier_def validateText_Inr_iff MaxIdentifierBytes_def)

text \<open>Printable ASCII text is safe, so a DSL identifier is an identifier when it is short enough.\<close>

lemma isFormat_ascii: "r < 128 \<Longrightarrow> \<not> isFormat r"
  by (simp add: isFormat_def cfRanges_def)

lemma validateText_ascii:
  assumes "v \<noteq> [] \<or> e" and "length v \<le> m" and "\<forall>c \<in> set v. of_char c \<in> {32..126::nat}"
  shows "validateText v m e = Inr ()"
proof -
  have "utf8Runes (map of_char v) = Some (map of_char v)"
    using assms(3) by (intro utf8Runes_ascii) (auto simp: list_all_iff)
  moreover have "\<not> isControl (of_char c) \<and> \<not> isFormat (of_char c)" if "c \<in> set v" for c
    using assms(3) that isFormat_ascii [of "of_char c"] by (auto simp: isControl_def)
  ultimately show ?thesis
    using assms(1,2) by (auto simp: validateText_Inr_iff)
qed

lemma char_le_of_char: "c \<le> d \<longleftrightarrow> (of_char c :: nat) \<le> of_char d"
  by (simp add: less_eq_char_def)

lemma identifier_chars:
  "isDSLIdentifierStart c \<Longrightarrow> of_char c \<in> {65..122::nat}"
  "CHR ''0'' \<le> c \<Longrightarrow> c \<le> CHR ''9'' \<Longrightarrow> of_char c \<in> {48..57::nat}"
proof -
  have [simp]: "of_char (CHR ''0'') = (48::nat)" "of_char (CHR ''9'') = (57::nat)"
    "of_char (CHR ''A'') = (65::nat)" "of_char (CHR ''Z'') = (90::nat)"
    "of_char (CHR ''a'') = (97::nat)" "of_char (CHR ''z'') = (122::nat)"
    "of_char (CHR ''_'') = (95::nat)"
    by simp_all
  show "isDSLIdentifierStart c \<Longrightarrow> of_char c \<in> {65..122::nat}"
    unfolding isDSLIdentifierStart_def char_le_of_char by (elim disjE conjE) simp_all
  show "CHR ''0'' \<le> c \<Longrightarrow> c \<le> CHR ''9'' \<Longrightarrow> of_char c \<in> {48..57::nat}"
    unfolding char_le_of_char by simp
qed

lemma validDSLIdentifier_chars:
  assumes "validDSLIdentifier v"
  shows "v \<noteq> [] \<and> (\<forall>c \<in> set v. of_char c \<in> {48..122::nat})"
proof (cases v)
  case (Cons d ds)
  have range: "of_char c \<in> {48..122::nat}"
    if "isDSLIdentifierStart c \<or> (CHR ''0'' \<le> c \<and> c \<le> CHR ''9'')" for c
    using that identifier_chars [of c] by fastforce
  have "isDSLIdentifierStart c \<or> (CHR ''0'' \<le> c \<and> c \<le> CHR ''9'')" if "c \<in> set v" for c
    using assms that unfolding Cons validDSLIdentifier.simps list_all_iff by auto
  with range Cons show ?thesis by blast
qed (use assms in simp)

lemma validDSLIdentifier_identifier:
  "validDSLIdentifier v \<Longrightarrow> length v \<le> MaxIdentifierBytes \<Longrightarrow> validateIdentifier v = Inr ()"
  unfolding validateIdentifier_def
  by (rule validateText_ascii) (use validDSLIdentifier_chars [of v] in force)+

lemma validateAttributePath_Inr_iff:
  "validateAttributePath p = Inr () \<longleftrightarrow>
     p \<noteq> [] \<and> length p \<le> MaxAggregateWorkItems \<and> textsBytes p \<le> int MaxAggregateInputBytes \<and>
     (\<forall>s \<in> set p. validDSLIdentifier s \<and> length s \<le> MaxIdentifierBytes)"
  (is "?l \<longleftrightarrow> ?r")
proof -
  have "validateIdentifier s = Inr () \<and> validDSLIdentifier s \<longleftrightarrow>
      validDSLIdentifier s \<and> length s \<le> MaxIdentifierBytes" for s
    using validDSLIdentifier_identifier [of s] validateIdentifier_length [of s]
    by (auto simp: MaxIdentifierBytes_def)
  then show ?thesis
    by (auto simp: validateAttributePath_def addAttributePathCost_eq budgetAdd_Inr_iff)
qed

section \<open>Identifier list lemmas\<close>

lemma compactLoop_spec:
  assumes "sorted_wrt (<) (rev kept)" and "sorted xs" and "\<forall>k \<in> set kept. \<forall>x \<in> set xs. k \<le> x"
  shows "sorted_wrt (<) (compactLoop kept xs) \<and> set (compactLoop kept xs) = set kept \<union> set xs"
  using assms
proof (induction xs arbitrary: kept)
  case (Cons v vs)
  show ?case
  proof (cases kept)
    case Nil
    then show ?thesis using Cons.IH [of "[v]"] Cons.prems by simp
  next
    case kept: (Cons k ks)
    show ?thesis
    proof (cases "k = v")
      case True
      then show ?thesis using kept Cons.IH [of kept] Cons.prems by auto
    next
      case False
      then have "sorted_wrt (<) (rev (v # kept))"
        using kept Cons.prems by (force simp: sorted_wrt_append)
      then show ?thesis
        using kept False Cons.IH [of "v # kept"] Cons.prems by auto
    qed
  qed
qed simp

lemma compactLoop_sorted:
  "compactLoop [] (sortSlice cmpCompare xs) = sorted_list_of_set (set (xs :: string list))"
proof -
  have "sorted (sortSlice cmpCompare xs)"
    using str_cmp.sorted_sortSlice [of xs] by simp
  then have "sorted_wrt (<) (compactLoop [] (sortSlice cmpCompare xs)) \<and>
      set (compactLoop [] (sortSlice cmpCompare xs)) = set xs"
    using compactLoop_spec [of "[]" "sortSlice cmpCompare xs"] by (simp add: str_cmp.set_sortSlice)
  then show ?thesis
    by (metis sorted_list_of_set.idem_if_sorted_distinct strict_sorted_iff)
qed

lemma eachB_Inr_iff:
  assumes f: "\<And>b x b'. f b x = Inr b' \<longleftrightarrow> P x \<and> budgetAdd b (c x) = Inr b'"
    and c: "\<And>x. 0 \<le> c x"
  shows "0 \<le> bc_used b \<Longrightarrow> bc_used b \<le> bc_max b \<Longrightarrow>
    eachB f b xs = Inr b' \<longleftrightarrow>
      (\<forall>x \<in> set xs. P x) \<and> bc_used b + sum_list (map c xs) \<le> bc_max b \<and>
      b' = b\<lparr>bc_used := bc_used b + sum_list (map c xs)\<rparr>"
proof (induction xs arbitrary: b)
  case (Cons x xs)
  define bx where "bx = b\<lparr>bc_used := bc_used b + c x\<rparr>"
  have rest: "0 \<le> sum_list (map c xs)" "0 \<le> c x"
    using c by (simp_all add: sum_list_nonneg_map)
  show ?case
  proof (cases "P x \<and> bc_used b + c x \<le> bc_max b")
    case True
    then have "f b x = Inr bx"
      using Cons.prems c by (simp add: f budgetAdd_Inr_iff bx_def)
    then show ?thesis
      using Cons.IH [of bx] Cons.prems rest True by (simp add: bx_def add.assoc)
  next
    case False
    then have "\<nexists>by. f b x = Inr by"
      by (auto simp: f budgetAdd_Inr_iff)
    with False rest show ?thesis by auto
  qed
qed auto

lemma canonicalIdentifiers_Inr_iff:
  "canonicalIdentifiers vs n m = Inr r \<longleftrightarrow>
     length vs \<le> n \<and> (\<forall>v \<in> set vs. validIdentifier v) \<and> sum_list (map length vs) \<le> m \<and>
     r = sorted_list_of_set (set vs)"
proof -
  have "admitIdentifier b v = Inr b' \<longleftrightarrow> validIdentifier v \<and> budgetAdd b (int (length v)) = Inr b'"
    for b v b'
    by (auto simp: admitIdentifier_def validIdentifier_def isOk_Inr_unit)
  then have "eachB admitIdentifier (newBudget m) vs = Inr b' \<longleftrightarrow>
      (\<forall>v \<in> set vs. validIdentifier v) \<and> sum_list (map (\<lambda>v. int (length v)) vs) \<le> int m \<and>
      b' = (newBudget m)\<lparr>bc_used := sum_list (map (\<lambda>v. int (length v)) vs)\<rparr>" for b'
    by (subst eachB_Inr_iff [where c = "\<lambda>v. int (length v)" and P = validIdentifier]) simp_all
  moreover have "sum_list (map (\<lambda>v. int (length v)) vs) = int (sum_list (map length vs))"
    by (induction vs) auto
  ultimately show ?thesis
    by (auto simp: canonicalIdentifiers_def compactLoop_sorted)
qed

lemma validCanonicalLoop_iff:
  "0 \<le> bc_used b \<Longrightarrow> bc_used b \<le> bc_max b \<Longrightarrow>
   validCanonicalLoop b prev vs \<longleftrightarrow>
     (\<forall>v \<in> set vs. validIdentifier v) \<and> bc_used b + int (sum_list (map length vs)) \<le> bc_max b \<and>
     sorted_wrt (<) (case prev of None \<Rightarrow> vs | Some p \<Rightarrow> p # vs)"
proof (induction vs arbitrary: b prev)
  case Nil
  then show ?case by (simp split: option.split)
next
  case (Cons v vs)
  define bv where "bv = b\<lparr>bc_used := bc_used b + int (length v)\<rparr>"
  have sorted: "sorted_wrt (<) (case prev of None \<Rightarrow> v # vs | Some p \<Rightarrow> p # v # vs) \<longleftrightarrow>
      (case prev of None \<Rightarrow> True | Some p \<Rightarrow> \<not> p \<ge> v) \<and> sorted_wrt (<) (v # vs)"
    by (simp add: sorted_wrt2 transp_on_less not_le del: sorted_wrt.simps split: option.split)
  show ?case
  proof (cases "bc_used b + int (length v) \<le> bc_max b")
    case True
    then have "budgetAdd b (int (length v)) = Inr bv"
      using Cons.prems by (simp add: budgetAdd_def bv_def)
    then show ?thesis
      using Cons.IH [of bv "Some v"] Cons.prems True
      by (simp add: sorted bv_def validIdentifier_def add.assoc conj_ac del: sorted_wrt.simps)
  next
    case False
    then have "budgetAdd b (int (length v)) = Inl ErrorResourceExhausted"
      using Cons.prems by (simp add: budgetAdd_def)
    with False show ?thesis by simp
  qed
qed

lemma validCanonicalIdentifiers_iff:
  "validCanonicalIdentifiers vs n m \<longleftrightarrow>
     length vs \<le> n \<and> (\<forall>v \<in> set vs. validIdentifier v) \<and> sum_list (map length vs) \<le> m \<and>
     sorted_wrt (<) vs"
  by (auto simp: validCanonicalIdentifiers_def validCanonicalLoop_iff)

lemma sum_set_le_sum_list: "sum f (set xs) \<le> sum_list (map (f :: 'a \<Rightarrow> nat) xs)"
proof (induction xs)
  case (Cons x xs)
  then show ?case by (cases "x \<in> set xs") (auto simp: insert_absorb)
qed simp

lemma canonical_subset_sizes:
  fixes vs :: "string list"
  shows "length (sorted_list_of_set (set vs)) \<le> length vs"
    and "sum_list (map length (sorted_list_of_set (set vs))) \<le> sum_list (map length vs)"
proof -
  show "length (sorted_list_of_set (set vs)) \<le> length vs"
    by (simp add: card_length)
  have "sum_list (map length (sorted_list_of_set (set vs))) = sum length (set vs)"
    by (simp add: sum_list_distinct_conv_sum_set)
  then show "sum_list (map length (sorted_list_of_set (set vs))) \<le> sum_list (map length vs)"
    by (simp add: sum_set_le_sum_list)
qed

section \<open>Properties\<close>

text \<open>
  C13: canonicalIdentifiers returns the strictly sorted list of the distinct identifiers it was
  given; the result passes validCanonicalIdentifiers under the same limits and is a fixed point.
\<close>

theorem canonicalIdentifiers_canonical:
  assumes "canonicalIdentifiers vs n m = Inr r"
  shows "r = sorted_list_of_set (set vs) \<and> validCanonicalIdentifiers r n m \<and>
    canonicalIdentifiers r n m = Inr r"
  using assms canonical_subset_sizes [of vs]
  by (auto simp: canonicalIdentifiers_Inr_iff validCanonicalIdentifiers_iff)

theorem canonicalIdentifiers_canonical_witness:
  "canonicalIdentifiers [''b'', ''a'', ''b''] 4 8 = Inr [''a'', ''b''] \<and>
   validCanonicalIdentifiers [''a'', ''b''] 4 8"
proof -
  have "canonicalIdentifiers [''b'', ''a'', ''b''] 4 8 = Inr [''a'', ''b'']"
    by (simp add: canonicalIdentifiers_def admitIdentifier_def budgetAdd_def newBudget_def
        validateIdentifier_def validateText_ascii limit_defs cmpCompare_def less_char_def)
  with canonicalIdentifiers_canonical [OF this] show ?thesis by blast
qed

end
