(* ===== verification/Auth_Data.thy ===== *)
theory Auth_Data
  imports Limits
begin

text \<open>
  data.go with its costs (cost.go) and validators (validation.go): typed values, relationship
  tuples, attributes, contextual data and the atomic write request, the comparison functions, the
  canonicalisation of slices (sort, drop equal neighbours, reject conflicting ones) and the merge
  that looks for an intersection of writes and deletes.

  Strings are byte strings, a time is its instant, an int64 is a 64-bit word read by \<^term>\<open>sint\<close>.
\<close>

section \<open>Data\<close>

record EntityRef =
  er_Type :: string
  er_ID :: string

record SubjectRef =
  sr_Type :: string
  sr_ID :: string
  sr_Relation :: string

record Tuple =
  tu_Resource :: EntityRef
  tu_Relation :: string
  tu_Subject :: SubjectRef

text \<open>ValueKind: 1 to 4; 0 is the kind of the zero Value.\<close>

definition ValueKindString :: nat where "ValueKindString = 1"
definition ValueKindInteger :: nat where "ValueKindInteger = 2"
definition ValueKindBoolean :: nat where "ValueKindBoolean = 3"
definition ValueKindNull :: nat where "ValueKindNull = 4"

lemmas value_kinds = ValueKindString_def ValueKindInteger_def ValueKindBoolean_def
  ValueKindNull_def

record Value =
  va_kind :: nat
  va_text :: string
  va_integer :: "64 word"
  va_boolean :: bool

record RelationshipTuple =
  rt_tuple :: Tuple
  rt_expiresAt :: Time
  rt_hasExpiry :: bool

record Attribute =
  at_entity :: EntityRef
  at_path :: "string list"
  at_value :: Value

record ContextualData =
  cd_tuples :: "RelationshipTuple list"
  cd_attributes :: "Attribute list"

record AttributeKey =
  ak_entity :: EntityRef
  ak_path :: "string list"

record TupleKey =
  tk_tuple :: Tuple

text \<open>WriteDataRequestInput and WriteDataRequest have the same fields.\<close>

record WriteDataRequest =
  wr_namespace :: string
  wr_validationRevisionID :: string
  wr_expectedGeneration :: uint64
  wr_idempotencyKey :: string
  wr_tupleWrites :: "RelationshipTuple list"
  wr_tupleDeletes :: "TupleKey list"
  wr_attributeWrites :: "Attribute list"
  wr_attributeDeletes :: "AttributeKey list"

record WriteDataResponse =
  dr_generation :: uint64
  dr_replayed :: bool

section \<open>Validation of one datum\<close>

definition validateEntityRef :: "EntityRef \<Rightarrow> check" where
  "validateEntityRef e = bindR (validateIdentifier (er_Type e)) (\<lambda>_. validateIdentifier (er_ID e))"

definition validateSubjectRef :: "SubjectRef \<Rightarrow> check" where
  "validateSubjectRef s =
     bindR (validateIdentifier (sr_Type s))
       (\<lambda>_. bindR (validateIdentifier (sr_ID s))
         (\<lambda>_. validateOptionalIdentifier (sr_Relation s)))"

definition validateDSLRelationship :: "Tuple \<Rightarrow> check" where
  "validateDSLRelationship t =
     bindR (validateEntityRef (tu_Resource t))
       (\<lambda>_. bindR (validateIdentifier (tu_Relation t))
         (\<lambda>_. validateSubjectRef (tu_Subject t)))"

definition NewStringValue :: "string \<Rightarrow> Value result" where
  "NewStringValue v =
     bindR (validateText v MaxStringValueBytes True)
       (\<lambda>_. Inr \<lparr>va_kind = ValueKindString, va_text = v, va_integer = 0, va_boolean = False\<rparr>)"

definition NewIntegerValue :: "64 word \<Rightarrow> Value" where
  "NewIntegerValue v = \<lparr>va_kind = ValueKindInteger, va_text = [], va_integer = v, va_boolean = False\<rparr>"

definition NewBooleanValue :: "bool \<Rightarrow> Value" where
  "NewBooleanValue v = \<lparr>va_kind = ValueKindBoolean, va_text = [], va_integer = 0, va_boolean = v\<rparr>"

definition NewNullValue :: Value where
  "NewNullValue = \<lparr>va_kind = ValueKindNull, va_text = [], va_integer = 0, va_boolean = False\<rparr>"

definition validValue :: "Value \<Rightarrow> bool" where
  "validValue v =
     (if va_kind v = ValueKindString then
        va_integer v = 0 \<and> \<not> va_boolean v \<and> isOk (validateText (va_text v) MaxStringValueBytes True)
      else if va_kind v = ValueKindInteger then va_text v = [] \<and> \<not> va_boolean v
      else if va_kind v = ValueKindBoolean then va_text v = [] \<and> va_integer v = 0
      else if va_kind v = ValueKindNull then va_text v = [] \<and> va_integer v = 0 \<and> \<not> va_boolean v
      else False)"

definition validateValue :: "Value \<Rightarrow> check" where
  "validateValue v =
     (if \<not> validValue v then Inl ErrorInvalidArgument
      else if va_kind v = ValueKindString then validateText (va_text v) MaxStringValueBytes True
      else Inr ())"

definition NewRelationshipTuple :: "Tuple \<Rightarrow> Time option \<Rightarrow> RelationshipTuple result" where
  "NewRelationshipTuple t expiresAt =
     bindR (validateDSLRelationship t)
       (\<lambda>_. case expiresAt of
           None \<Rightarrow> Inr \<lparr>rt_tuple = t, rt_expiresAt = 0, rt_hasExpiry = False\<rparr>
         | Some e \<Rightarrow> if isZeroTime e then Inl ErrorInvalidArgument
             else Inr \<lparr>rt_tuple = t, rt_expiresAt = e, rt_hasExpiry = True\<rparr>)"

definition validRelationshipTuple :: "RelationshipTuple \<Rightarrow> bool" where
  "validRelationshipTuple t =
     (isOk (validateDSLRelationship (rt_tuple t)) \<and>
      (\<not> rt_hasExpiry t \<or> \<not> isZeroTime (rt_expiresAt t)) \<and>
      (rt_hasExpiry t \<or> isZeroTime (rt_expiresAt t)))"

definition validAttribute :: "Attribute \<Rightarrow> bool" where
  "validAttribute a =
     (isOk (validateEntityRef (at_entity a)) \<and> isOk (validateAttributePath (at_path a)) \<and>
      isOk (validateValue (at_value a)))"

definition NewTupleKey :: "Tuple \<Rightarrow> TupleKey result" where
  "NewTupleKey t = bindR (validateDSLRelationship t) (\<lambda>_. Inr \<lparr>tk_tuple = t\<rparr>)"

definition validTupleKey :: "TupleKey \<Rightarrow> bool" where
  "validTupleKey k = isOk (validateDSLRelationship (tk_tuple k))"

definition validAttributeKey :: "AttributeKey \<Rightarrow> bool" where
  "validAttributeKey k =
     (isOk (validateEntityRef (ak_entity k)) \<and> isOk (validateAttributePath (ak_path k)))"

section \<open>Costs\<close>

definition addValueCost :: "budgetCounter \<Rightarrow> Value \<Rightarrow> budgetCounter result" where
  "addValueCost b v =
     bindR (budgetAdd b valueMetadataBytes)
       (\<lambda>b. if va_kind v = ValueKindString then budgetAdd b (int (length (va_text v))) else Inr b)"

definition addEntityRefCost :: "budgetCounter \<Rightarrow> EntityRef \<Rightarrow> budgetCounter result" where
  "addEntityRefCost b e = bindR (addTextCost b (er_Type e)) (\<lambda>b. addTextCost b (er_ID e))"

definition addSubjectRefCost :: "budgetCounter \<Rightarrow> SubjectRef \<Rightarrow> budgetCounter result" where
  "addSubjectRefCost b s =
     bindR (addTextCost b (sr_Type s))
       (\<lambda>b. bindR (addTextCost b (sr_ID s)) (\<lambda>b. addTextCost b (sr_Relation s)))"

definition addTupleCost :: "budgetCounter \<Rightarrow> Tuple \<Rightarrow> budgetCounter result" where
  "addTupleCost b t =
     bindR (addEntityRefCost b (tu_Resource t))
       (\<lambda>b. bindR (addTextCost b (tu_Relation t)) (\<lambda>b. addSubjectRefCost b (tu_Subject t)))"

definition addRelationshipTupleCost ::
  "budgetCounter \<Rightarrow> RelationshipTuple \<Rightarrow> budgetCounter result" where
  "addRelationshipTupleCost b t =
     bindR (addTupleCost b (rt_tuple t))
       (\<lambda>b. bindR (addFixedFieldCost b boolBytes)
         (\<lambda>b. if rt_hasExpiry t then addFixedFieldCost b timestampBytes else Inr b))"

definition addAttributeCost :: "budgetCounter \<Rightarrow> Attribute \<Rightarrow> budgetCounter result" where
  "addAttributeCost b a =
     bindR (addEntityRefCost b (at_entity a))
       (\<lambda>b. bindR (addAttributePathCost b (at_path a)) (\<lambda>b. addValueCost b (at_value a)))"

definition addAttributeKeyCost :: "budgetCounter \<Rightarrow> AttributeKey \<Rightarrow> budgetCounter result" where
  "addAttributeKeyCost b k =
     bindR (addEntityRefCost b (ak_entity k)) (\<lambda>b. addAttributePathCost b (ak_path k))"

definition addContextualDataCost :: "budgetCounter \<Rightarrow> ContextualData \<Rightarrow> budgetCounter result" where
  "addContextualDataCost b d =
     bindR (budgetAddMany b 2 collectionMetadataBytes)
       (\<lambda>b. bindR (eachB addRelationshipTupleCost b (cd_tuples d))
         (\<lambda>b. eachB addAttributeCost b (cd_attributes d)))"

definition addWriteDataRequestCost :: "budgetCounter \<Rightarrow> WriteDataRequest \<Rightarrow> budgetCounter result" where
  "addWriteDataRequestCost b r =
     bindR (eachB addTextCost b [wr_namespace r, wr_validationRevisionID r, wr_idempotencyKey r])
       (\<lambda>b. bindR (addFixedFieldCost b uint64Bytes)
       (\<lambda>b. bindR (budgetAddMany b 4 collectionMetadataBytes)
       (\<lambda>b. bindR (eachB addRelationshipTupleCost b (wr_tupleWrites r))
       (\<lambda>b. bindR (eachB (\<lambda>b k. addTupleCost b (tk_tuple k)) b (wr_tupleDeletes r))
       (\<lambda>b. bindR (eachB addAttributeCost b (wr_attributeWrites r))
       (\<lambda>b. eachB addAttributeKeyCost b (wr_attributeDeletes r)))))))"

definition NewAttributePath :: "EntityRef \<Rightarrow> string list \<Rightarrow> Value \<Rightarrow> Attribute result" where
  "NewAttributePath e path v =
     bindR (validateEntityRef e)
       (\<lambda>_. bindR (validateAttributePath path)
       (\<lambda>_. bindR (validateValue v)
       (\<lambda>_. let a = \<lparr>at_entity = e, at_path = path, at_value = v\<rparr>
             in bindR (addAttributeCost (newBudget MaxAggregateInputBytes) a) (\<lambda>_. Inr a))))"

definition NewAttributeKeyPath :: "EntityRef \<Rightarrow> string list \<Rightarrow> AttributeKey result" where
  "NewAttributeKeyPath e path =
     bindR (validateEntityRef e)
       (\<lambda>_. bindR (validateAttributePath path)
       (\<lambda>_. bindR (addEntityRefCost (newBudget MaxAggregateInputBytes) e)
       (\<lambda>b. bindR (addAttributePathCost b path)
       (\<lambda>_. Inr \<lparr>ak_entity = e, ak_path = path\<rparr>))))"

section \<open>Comparison\<close>

definition compareTuple :: "Tuple \<Rightarrow> Tuple \<Rightarrow> int" where
  "compareTuple l r =
     thenCmp (cmpCompare (er_Type (tu_Resource l)) (er_Type (tu_Resource r)))
    (thenCmp (cmpCompare (er_ID (tu_Resource l)) (er_ID (tu_Resource r)))
    (thenCmp (cmpCompare (tu_Relation l) (tu_Relation r))
    (thenCmp (cmpCompare (sr_Type (tu_Subject l)) (sr_Type (tu_Subject r)))
    (thenCmp (cmpCompare (sr_ID (tu_Subject l)) (sr_ID (tu_Subject r)))
             (cmpCompare (sr_Relation (tu_Subject l)) (sr_Relation (tu_Subject r)))))))"

definition compareRelationshipTuple :: "RelationshipTuple \<Rightarrow> RelationshipTuple \<Rightarrow> int" where
  "compareRelationshipTuple l r =
     thenCmp (compareTuple (rt_tuple l) (rt_tuple r))
    (thenCmp (compareBool (rt_hasExpiry l) (rt_hasExpiry r))
             (cmpCompare (rt_expiresAt l) (rt_expiresAt r)))"

fun compareAttributePath :: "string list \<Rightarrow> string list \<Rightarrow> int" where
  "compareAttributePath (x # xs) (y # ys) = thenCmp (cmpCompare x y) (compareAttributePath xs ys)"
| "compareAttributePath xs ys = cmpCompare (length xs) (length ys)"

definition compareAttributeDeleteKey :: "AttributeKey \<Rightarrow> AttributeKey \<Rightarrow> int" where
  "compareAttributeDeleteKey l r =
     thenCmp (cmpCompare (er_Type (ak_entity l)) (er_Type (ak_entity r)))
    (thenCmp (cmpCompare (er_ID (ak_entity l)) (er_ID (ak_entity r)))
             (compareAttributePath (ak_path l) (ak_path r)))"

definition compareAttributeKey :: "Attribute \<Rightarrow> Attribute \<Rightarrow> int" where
  "compareAttributeKey l r =
     thenCmp (cmpCompare (er_Type (at_entity l)) (er_Type (at_entity r)))
    (thenCmp (cmpCompare (er_ID (at_entity l)) (er_ID (at_entity r)))
             (compareAttributePath (at_path l) (at_path r)))"

definition compareValue :: "Value \<Rightarrow> Value \<Rightarrow> int" where
  "compareValue l r =
     thenCmp (cmpCompare (va_kind l) (va_kind r))
    (thenCmp (cmpCompare (va_text l) (va_text r))
    (thenCmp (cmpCompare (sint (va_integer l)) (sint (va_integer r)))
             (compareBool (va_boolean l) (va_boolean r))))"

definition compareAttribute :: "Attribute \<Rightarrow> Attribute \<Rightarrow> int" where
  "compareAttribute l r =
     thenCmp (compareAttributeKey l r) (compareValue (at_value l) (at_value r))"

definition attributePathPrefixConflict ::
  "EntityRef \<Rightarrow> string list \<Rightarrow> EntityRef \<Rightarrow> string list \<Rightarrow> bool" where
  "attributePathPrefixConflict le lp re rp =
     (if le \<noteq> re \<or> length lp = length rp then False
      else let (shorter, longer) = (if length lp > length rp then (rp, lp) else (lp, rp))
           in list_all (\<lambda>i. shorter ! i = longer ! i) [0..<length shorter])"

section \<open>Canonical slices\<close>

text \<open>
  The in-place compaction loops over a sorted slice. What to do with the next element is decided
  by comparing it with the last element kept; the accumulator is the kept part, reversed.
\<close>

datatype CompactStep = CompactSkip | CompactKeep | CompactReject

fun compactSlice :: "('a \<Rightarrow> 'a \<Rightarrow> CompactStep) \<Rightarrow> 'a list \<Rightarrow> 'a list \<Rightarrow> 'a list result" where
  "compactSlice f kept [] = Inr (rev kept)"
| "compactSlice f kept (v # vs) =
     (case kept of
        [] \<Rightarrow> compactSlice f [v] vs
      | k # _ \<Rightarrow>
          (case f k v of
             CompactSkip \<Rightarrow> compactSlice f kept vs
           | CompactReject \<Rightarrow> Inl ErrorInvalidArgument
           | CompactKeep \<Rightarrow> compactSlice f (v # kept) vs))"

definition relationshipTupleStep :: "RelationshipTuple \<Rightarrow> RelationshipTuple \<Rightarrow> CompactStep" where
  "relationshipTupleStep prev v =
     (if compareTuple (rt_tuple prev) (rt_tuple v) = 0
      then if compareRelationshipTuple prev v \<noteq> 0 then CompactReject else CompactSkip
      else CompactKeep)"

definition canonicalRelationshipTuples :: "RelationshipTuple list \<Rightarrow> RelationshipTuple list result" where
  "canonicalRelationshipTuples values =
     compactSlice relationshipTupleStep [] (sortSlice compareRelationshipTuple values)"

definition attributeStep :: "Attribute \<Rightarrow> Attribute \<Rightarrow> CompactStep" where
  "attributeStep prev v =
     (if compareAttributeKey prev v = 0
      then if compareValue (at_value prev) (at_value v) \<noteq> 0 then CompactReject else CompactSkip
      else if attributePathPrefixConflict (at_entity prev) (at_path prev) (at_entity v) (at_path v)
      then CompactReject
      else CompactKeep)"

definition canonicalAttributes :: "Attribute list \<Rightarrow> Attribute list result" where
  "canonicalAttributes values = compactSlice attributeStep [] (sortSlice compareAttribute values)"

definition compareTupleKey :: "TupleKey \<Rightarrow> TupleKey \<Rightarrow> int" where
  "compareTupleKey l r = compareTuple (tk_tuple l) (tk_tuple r)"

definition tupleKeyStep :: "TupleKey \<Rightarrow> TupleKey \<Rightarrow> CompactStep" where
  "tupleKeyStep prev v = (if compareTupleKey prev v = 0 then CompactSkip else CompactKeep)"

text \<open>canonicalTupleKeys has no error result: its step never rejects.\<close>

definition canonicalTupleKeys :: "TupleKey list \<Rightarrow> TupleKey list" where
  "canonicalTupleKeys values =
     (case compactSlice tupleKeyStep [] (sortSlice compareTupleKey values) of
        Inr r \<Rightarrow> r
      | Inl _ \<Rightarrow> [])"

definition attributeKeyStep :: "AttributeKey \<Rightarrow> AttributeKey \<Rightarrow> CompactStep" where
  "attributeKeyStep prev v =
     (if compareAttributeDeleteKey prev v = 0 then CompactSkip
      else if attributePathPrefixConflict (ak_entity prev) (ak_path prev) (ak_entity v) (ak_path v)
      then CompactReject
      else CompactKeep)"

definition canonicalAttributeKeys :: "AttributeKey list \<Rightarrow> AttributeKey list result" where
  "canonicalAttributeKeys values =
     compactSlice attributeKeyStep [] (sortSlice compareAttributeDeleteKey values)"

text \<open>The re-validation loops: every element is valid and extends the one before it.\<close>

fun validNeighbours :: "('a \<Rightarrow> bool) \<Rightarrow> ('a \<Rightarrow> 'a \<Rightarrow> bool) \<Rightarrow> 'a option \<Rightarrow> 'a list \<Rightarrow> bool" where
  "validNeighbours valid ok prev [] = True"
| "validNeighbours valid ok prev (v # vs) =
     (valid v \<and> (case prev of None \<Rightarrow> True | Some p \<Rightarrow> ok p v) \<and> validNeighbours valid ok (Some v) vs)"

definition validCanonicalRelationshipTuples :: "RelationshipTuple list \<Rightarrow> bool" where
  "validCanonicalRelationshipTuples values =
     validNeighbours validRelationshipTuple
       (\<lambda>p v. \<not> (compareTuple (rt_tuple p) (rt_tuple v) = 0 \<or> compareRelationshipTuple p v \<ge> 0))
       None values"

definition validCanonicalTupleKeys :: "TupleKey list \<Rightarrow> bool" where
  "validCanonicalTupleKeys values =
     validNeighbours validTupleKey (\<lambda>p v. \<not> compareTupleKey p v \<ge> 0) None values"

definition validCanonicalAttributes :: "Attribute list \<Rightarrow> bool" where
  "validCanonicalAttributes values =
     validNeighbours validAttribute
       (\<lambda>p v. \<not> (compareAttributeKey p v = 0 \<or> compareAttribute p v \<ge> 0) \<and>
              \<not> attributePathPrefixConflict (at_entity p) (at_path p) (at_entity v) (at_path v))
       None values"

definition validCanonicalAttributeKeys :: "AttributeKey list \<Rightarrow> bool" where
  "validCanonicalAttributeKeys values =
     validNeighbours validAttributeKey
       (\<lambda>p v. \<not> compareAttributeDeleteKey p v \<ge> 0 \<and>
              \<not> attributePathPrefixConflict (ak_entity p) (ak_path p) (ak_entity v) (ak_path v))
       None values"

section \<open>Write/delete intersection\<close>

fun tupleWriteDeleteConflict :: "RelationshipTuple list \<Rightarrow> TupleKey list \<Rightarrow> bool" where
  "tupleWriteDeleteConflict (w # ws) (d # ds) =
     (let order = compareTuple (rt_tuple w) (tk_tuple d)
      in if order = 0 then True
         else if order < 0 then tupleWriteDeleteConflict ws (d # ds)
         else tupleWriteDeleteConflict (w # ws) ds)"
| "tupleWriteDeleteConflict _ _ = False"

definition attributeKeyOf :: "Attribute \<Rightarrow> AttributeKey" where
  "attributeKeyOf a = \<lparr>ak_entity = at_entity a, ak_path = at_path a\<rparr>"

fun attributeWriteDeleteConflict :: "Attribute list \<Rightarrow> AttributeKey list \<Rightarrow> bool" where
  "attributeWriteDeleteConflict (w # ws) (d # ds) =
     (let left = attributeKeyOf w; order = compareAttributeDeleteKey left d
      in if order = 0 \<or>
            attributePathPrefixConflict (ak_entity left) (ak_path left) (ak_entity d) (ak_path d)
         then True
         else if order < 0 then attributeWriteDeleteConflict ws (d # ds)
         else attributeWriteDeleteConflict (w # ws) ds)"
| "attributeWriteDeleteConflict _ _ = False"

section \<open>Constructors of the aggregates\<close>

definition NewContextualData :: "RelationshipTuple list \<Rightarrow> Attribute list \<Rightarrow> ContextualData result" where
  "NewContextualData ts as =
     (if length ts > MaxContextualTuples \<or> length as > MaxContextualAttributes
      then Inl ErrorResourceExhausted
      else bindR (addContextualDataCost (newBudget MaxAggregateInputBytes)
                    \<lparr>cd_tuples = ts, cd_attributes = as\<rparr>)
       (\<lambda>_. bindR (eachR (\<lambda>t. requireR (validRelationshipTuple t) ErrorInvalidArgument) ts)
       (\<lambda>_. bindR (eachR (\<lambda>a. requireR (validAttribute a) ErrorInvalidArgument) as)
       (\<lambda>_. bindR (canonicalRelationshipTuples ts)
       (\<lambda>ts'. bindR (canonicalAttributes as)
       (\<lambda>as'. Inr \<lparr>cd_tuples = ts', cd_attributes = as'\<rparr>))))))"

definition validContextualData :: "ContextualData \<Rightarrow> bool" where
  "validContextualData d =
     (length (cd_tuples d) \<le> MaxContextualTuples \<and>
      length (cd_attributes d) \<le> MaxContextualAttributes \<and>
      isOk (addContextualDataCost (newBudget MaxAggregateInputBytes) d) \<and>
      validNeighbours validRelationshipTuple
        (\<lambda>p v. \<not> (compareTuple (rt_tuple p) (rt_tuple v) = 0 \<or> compareRelationshipTuple p v \<ge> 0))
        None (cd_tuples d) \<and>
      validNeighbours validAttribute
        (\<lambda>p v. \<not> (compareAttributeKey p v = 0 \<or> compareAttribute p v \<ge> 0))
        None (cd_attributes d))"

definition mutationBudget :: "WriteDataRequest \<Rightarrow> budgetCounter result" where
  "mutationBudget r =
     eachB budgetAdd (newBudget MaxMutationItems)
       [int (length (wr_tupleWrites r)), int (length (wr_tupleDeletes r)),
        int (length (wr_attributeWrites r)), int (length (wr_attributeDeletes r))]"

definition NewWriteDataRequest :: "WriteDataRequest \<Rightarrow> WriteDataRequest result" where
  "NewWriteDataRequest r =
     bindR (mutationBudget r)
       (\<lambda>m. bindR (addWriteDataRequestCost (newBudget MaxAggregateInputBytes) r)
       (\<lambda>_. if \<not> validRevisionIDString (wr_validationRevisionID r) \<or> bc_used m = 0
             then Inl ErrorInvalidArgument
             else bindR (validateNamespace (wr_namespace r))
       (\<lambda>_. bindR (validateIdentifier (wr_idempotencyKey r))
       (\<lambda>_. bindR (eachR (\<lambda>v. requireR (validRelationshipTuple v) ErrorInvalidArgument)
                     (wr_tupleWrites r))
       (\<lambda>_. bindR (eachR (\<lambda>v. requireR (validTupleKey v) ErrorInvalidArgument)
                     (wr_tupleDeletes r))
       (\<lambda>_. bindR (eachR (\<lambda>v. requireR (validAttribute v) ErrorInvalidArgument)
                     (wr_attributeWrites r))
       (\<lambda>_. bindR (eachR (\<lambda>v. requireR (validAttributeKey v) ErrorInvalidArgument)
                     (wr_attributeDeletes r))
       (\<lambda>_. bindR (canonicalRelationshipTuples (wr_tupleWrites r))
       (\<lambda>tw. let td = canonicalTupleKeys (wr_tupleDeletes r)
             in bindR (canonicalAttributes (wr_attributeWrites r))
       (\<lambda>aw. bindR (canonicalAttributeKeys (wr_attributeDeletes r))
       (\<lambda>ad. if tupleWriteDeleteConflict tw td \<or> attributeWriteDeleteConflict aw ad
             then Inl ErrorInvalidArgument
             else Inr (r\<lparr>wr_tupleWrites := tw, wr_tupleDeletes := td,
                         wr_attributeWrites := aw, wr_attributeDeletes := ad\<rparr>))))))))))))"

definition validWriteDataRequest :: "WriteDataRequest \<Rightarrow> bool" where
  "validWriteDataRequest r =
     (case mutationBudget r of
        Inl _ \<Rightarrow> False
      | Inr m \<Rightarrow>
          \<not> (bc_used m = 0 \<or> \<not> validNamespace (wr_namespace r) \<or>
             \<not> validRevisionIDString (wr_validationRevisionID r) \<or>
             \<not> validIdentifier (wr_idempotencyKey r)) \<and>
          \<not> (\<not> isOk (addWriteDataRequestCost (newBudget MaxAggregateInputBytes) r) \<or>
             \<not> validCanonicalRelationshipTuples (wr_tupleWrites r) \<or>
             \<not> validCanonicalTupleKeys (wr_tupleDeletes r) \<or>
             \<not> validCanonicalAttributes (wr_attributeWrites r) \<or>
             \<not> validCanonicalAttributeKeys (wr_attributeDeletes r)) \<and>
          \<not> tupleWriteDeleteConflict (wr_tupleWrites r) (wr_tupleDeletes r) \<and>
          \<not> attributeWriteDeleteConflict (wr_attributeWrites r) (wr_attributeDeletes r))"

definition NewWriteDataResponse :: "uint64 \<Rightarrow> bool \<Rightarrow> WriteDataResponse result" where
  "NewWriteDataResponse generation replayed =
     (if generation = 0 then Inl ErrorInvalidArgument
      else Inr \<lparr>dr_generation = generation, dr_replayed = replayed\<rparr>)"

end
