(* ===== verification/Policy.thy ===== *)
theory Policy
  imports Auth_Data
begin

text \<open>
  policy.go and events.go with their costs (cost.go): selectors, content-addressed revision
  identifiers, revision metadata, publication, activation and listing requests and responses,
  state events and component status. A []byte is a list of 8-bit words; a SHA-256 digest is such a
  list of length 32.
\<close>

type_synonym bytes = "8 word list"

section \<open>Selectors and revision identifiers\<close>

record Selector =
  sl_slot :: string
  sl_revisionID :: string

definition NewSelector :: "string \<Rightarrow> string \<Rightarrow> Selector result" where
  "NewSelector slot exactRevision =
     (if (slot = []) = (exactRevision = []) then Inl ErrorInvalidArgument
      else bindR (if slot \<noteq> [] then validateIdentifier slot else Inr ())
        (\<lambda>_. if exactRevision \<noteq> [] \<and> \<not> validRevisionIDString exactRevision
              then Inl ErrorInvalidArgument
              else Inr \<lparr>sl_slot = slot, sl_revisionID = exactRevision\<rparr>))"

definition selectorSlot :: "Selector \<Rightarrow> string option" where
  "selectorSlot s = (if sl_slot s \<noteq> [] \<and> sl_revisionID s = [] then Some (sl_slot s) else None)"

definition selectorExactRevision :: "Selector \<Rightarrow> string option" where
  "selectorExactRevision s =
     (if sl_revisionID s \<noteq> [] \<and> sl_slot s = [] then Some (sl_revisionID s) else None)"

definition validSelector :: "Selector \<Rightarrow> bool" where
  "validSelector s =
     (if (sl_slot s = []) = (sl_revisionID s = []) then False
      else (sl_slot s \<noteq> [] \<and> validIdentifier (sl_slot s)) \<or>
           (sl_revisionID s \<noteq> [] \<and> validRevisionIDString (sl_revisionID s)))"

record RevisionID =
  ri_digest :: bytes
  ri_valid :: bool

text \<open>encoding/hex.\<close>

definition hexDigit :: "nat \<Rightarrow> char" where
  "hexDigit n = ''0123456789abcdef'' ! n"

definition hexEncode :: "bytes \<Rightarrow> string" where
  "hexEncode bs = concat (map (\<lambda>b. [hexDigit (unat b div 16), hexDigit (unat b mod 16)]) bs)"

definition fromHexDigit :: "char \<Rightarrow> nat option" where
  "fromHexDigit c =
     (let n = of_char c
      in if 48 \<le> n \<and> n \<le> 57 then Some (n - 48)
         else if 97 \<le> n \<and> n \<le> 102 then Some (n - 87)
         else if 65 \<le> n \<and> n \<le> 70 then Some (n - 55)
         else None)"

fun hexDecode :: "string \<Rightarrow> bytes option" where
  "hexDecode [] = Some []"
| "hexDecode [c] = None"
| "hexDecode (c # d # cs) =
     (case (fromHexDigit c, fromHexDigit d) of
        (Some h, Some l) \<Rightarrow> map_option (Cons (of_nat (16 * h + l))) (hexDecode cs)
      | _ \<Rightarrow> None)"

text \<open>
  strings.ToLower on ASCII. A string with other bytes is not hexadecimal, so whatever ToLower
  makes of them ParseRevisionID rejects it with the same category.
\<close>

definition lowerChar :: "char \<Rightarrow> char" where
  "lowerChar c = (if 65 \<le> (of_char c :: nat) \<and> (of_char c :: nat) \<le> 90
                  then char_of (of_char c + 32 :: nat) else c)"

definition ParseRevisionID :: "string \<Rightarrow> RevisionID result" where
  "ParseRevisionID value =
     (if length value \<noteq> 64 \<or> value \<noteq> map lowerChar value then Inl ErrorInvalidArgument
      else case hexDecode value of
        None \<Rightarrow> Inl ErrorInvalidArgument
      | Some decoded \<Rightarrow>
          if length decoded \<noteq> 32 then Inl ErrorInvalidArgument
          else Inr \<lparr>ri_digest = decoded, ri_valid = True\<rparr>)"

definition revisionIDString :: "RevisionID \<Rightarrow> string" where
  "revisionIDString i = (if \<not> ri_valid i then [] else hexEncode (ri_digest i))"

text \<open>
  The tagged DSL is a separate module. Of its artifacts the engine uses: decoding of encoded
  bytes, the canonical encoding, the digest, and the largest encoding it accepts.
\<close>

record 'art Dsl =
  dsl_DecodeArtifact :: "bytes \<Rightarrow> 'art option"
  dsl_MarshalBinary :: "'art \<Rightarrow> bytes option"
  dsl_Digest :: "'art \<Rightarrow> bytes"
  dsl_DefaultArtifactMaxBytes :: nat

definition RevisionIDFromArtifact :: "('art, 'm) Dsl_scheme \<Rightarrow> 'art option \<Rightarrow> RevisionID result" where
  "RevisionIDFromArtifact dsl artifact =
     (case artifact of
        None \<Rightarrow> Inl ErrorInvalidArgument
      | Some a \<Rightarrow>
          (case dsl_MarshalBinary dsl a of
             None \<Rightarrow> Inl ErrorInvalidArgument
           | Some _ \<Rightarrow> Inr \<lparr>ri_digest = dsl_Digest dsl a, ri_valid = True\<rparr>))"

section \<open>Revision metadata\<close>

record RevisionMetadata =
  rm_namespace :: string
  rm_id :: RevisionID
  rm_publishedAt :: Time

abbreviation rm_ID :: "RevisionMetadata \<Rightarrow> string" where
  "rm_ID m \<equiv> revisionIDString (rm_id m)"

definition addRevisionMetadataCost :: "budgetCounter \<Rightarrow> RevisionMetadata \<Rightarrow> budgetCounter result" where
  "addRevisionMetadataCost b r =
     bindR (addTextCost b (rm_namespace r))
       (\<lambda>b. bindR (addFixedFieldCost b 64) (\<lambda>b. addFixedFieldCost b timestampBytes))"

definition NewRevisionMetadata :: "string \<Rightarrow> RevisionID \<Rightarrow> Time \<Rightarrow> RevisionMetadata result" where
  "NewRevisionMetadata namespace i publishedAt =
     (let raw = \<lparr>rm_namespace = namespace, rm_id = i, rm_publishedAt = publishedAt\<rparr>
      in bindR (addRevisionMetadataCost (newBudget MaxAggregateOutputBytes) raw)
       (\<lambda>_. bindR (validateNamespace namespace)
       (\<lambda>_. if \<not> ri_valid i \<or> isZeroTime publishedAt then Inl ErrorInvalidArgument else Inr raw)))"

definition validRevisionMetadata :: "RevisionMetadata \<Rightarrow> bool" where
  "validRevisionMetadata r =
     (if \<not> validNamespace (rm_namespace r) \<or> \<not> ri_valid (rm_id r) \<or> isZeroTime (rm_publishedAt r)
      then False
      else isOk (addRevisionMetadataCost (newBudget MaxAggregateOutputBytes) r))"

section \<open>Publication\<close>

record PublishRequest =
  pr_namespace :: string
  pr_sourceName :: string
  pr_source :: bytes

definition addPublishRequestCost ::
  "budgetCounter \<Rightarrow> string \<Rightarrow> string \<Rightarrow> bytes \<Rightarrow> budgetCounter result" where
  "addPublishRequestCost b namespace sourceName source =
     bindR (addTextCost b namespace)
       (\<lambda>b. bindR (addTextCost b sourceName) (\<lambda>b. addBytesCost b source))"

definition NewPublishRequest :: "string \<Rightarrow> string \<Rightarrow> bytes \<Rightarrow> PublishRequest result" where
  "NewPublishRequest namespace sourceName source =
     (if source = [] then Inl ErrorInvalidArgument
      else if length source > MaxPolicySourceBytes then Inl ErrorResourceExhausted
      else bindR (addPublishRequestCost (newBudget MaxAggregateInputBytes) namespace sourceName source)
       (\<lambda>_. bindR (validateNamespace namespace)
       (\<lambda>_. bindR (validateText sourceName MaxSourceNameBytes False)
       (\<lambda>_. Inr \<lparr>pr_namespace = namespace, pr_sourceName = sourceName, pr_source = source\<rparr>))))"

definition validPublishRequest :: "PublishRequest \<Rightarrow> bool" where
  "validPublishRequest r =
     (if \<not> validNamespace (pr_namespace r) \<or>
         \<not> isOk (validateText (pr_sourceName r) MaxSourceNameBytes False) \<or>
         pr_source r = [] \<or> length (pr_source r) > MaxPolicySourceBytes
      then False
      else isOk (addPublishRequestCost (newBudget MaxAggregateInputBytes)
                   (pr_namespace r) (pr_sourceName r) (pr_source r)))"

record PublishResponse =
  ps_revision :: RevisionMetadata
  ps_created :: bool

definition NewPublishResponse :: "RevisionMetadata \<Rightarrow> bool \<Rightarrow> PublishResponse result" where
  "NewPublishResponse revision created =
     (if \<not> validRevisionMetadata revision then Inl ErrorInvalidArgument
      else Inr \<lparr>ps_revision = revision, ps_created = created\<rparr>)"

section \<open>Revision lookup and listing\<close>

record GetRevisionRequest =
  gr_namespace :: string
  gr_revisionID :: string

definition NewGetRevisionRequest :: "string \<Rightarrow> string \<Rightarrow> GetRevisionRequest result" where
  "NewGetRevisionRequest namespace revisionID =
     bindR (validateNamespace namespace)
       (\<lambda>_. if \<not> validRevisionIDString revisionID then Inl ErrorInvalidArgument
             else Inr \<lparr>gr_namespace = namespace, gr_revisionID = revisionID\<rparr>)"

definition NewGetRevisionResponse :: "RevisionMetadata \<Rightarrow> RevisionMetadata result" where
  "NewGetRevisionResponse revision =
     (if \<not> validRevisionMetadata revision then Inl ErrorInvalidArgument else Inr revision)"

record ListRevisionsRequest =
  lr_namespace :: string
  lr_cursor :: string
  lr_limit :: int

definition NewListRevisionsRequest :: "string \<Rightarrow> string \<Rightarrow> int \<Rightarrow> ListRevisionsRequest result" where
  "NewListRevisionsRequest namespace cursor limit =
     (if limit \<le> 0 then Inl ErrorInvalidArgument
      else bindR (validateNamespace namespace)
       (\<lambda>_. bindR (validateOptionalIdentifier cursor)
       (\<lambda>_. if limit > int MaxPageRequestItems then Inl ErrorResourceExhausted
             else Inr \<lparr>lr_namespace = namespace, lr_cursor = cursor, lr_limit = limit\<rparr>)))"

definition validListRevisionsRequest :: "ListRevisionsRequest \<Rightarrow> bool" where
  "validListRevisionsRequest r =
     (validNamespace (lr_namespace r) \<and> isOk (validateOptionalIdentifier (lr_cursor r)) \<and>
      lr_limit r > 0 \<and> lr_limit r \<le> int MaxPageRequestItems)"

definition addRevisionPageCost ::
  "budgetCounter \<Rightarrow> RevisionMetadata list \<Rightarrow> string \<Rightarrow> budgetCounter result" where
  "addRevisionPageCost b revisions nextCursor =
     bindR (budgetAdd b collectionMetadataBytes)
       (\<lambda>b. bindR (addTextCost b nextCursor) (\<lambda>b. eachB addRevisionMetadataCost b revisions))"

text \<open>The loop keeps the set of identifiers seen and the previous revision.\<close>

fun validRevisionPageLoop ::
  "string \<Rightarrow> string set \<Rightarrow> RevisionMetadata option \<Rightarrow> RevisionMetadata list \<Rightarrow> bool" where
  "validRevisionPageLoop namespace seen prev [] = True"
| "validRevisionPageLoop namespace seen prev (r # rs) =
     (validRevisionMetadata r \<and> rm_namespace r = namespace \<and> rm_ID r \<notin> seen \<and>
      (case prev of
         None \<Rightarrow> True
       | Some p \<Rightarrow> \<not> (rm_publishedAt p > rm_publishedAt r \<or>
                      (rm_publishedAt p = rm_publishedAt r \<and> rm_ID p \<ge> rm_ID r))) \<and>
      validRevisionPageLoop namespace (insert (rm_ID r) seen) (Some r) rs)"

definition validRevisionPage :: "ListRevisionsRequest \<Rightarrow> RevisionMetadata list \<Rightarrow> bool" where
  "validRevisionPage request revisions =
     validRevisionPageLoop (lr_namespace request) {} None revisions"

record ListRevisionsResponse =
  lp_request :: ListRevisionsRequest
  lp_revisions :: "RevisionMetadata list"
  lp_nextCursor :: string

definition NewListRevisionsResponse ::
  "ListRevisionsRequest \<Rightarrow> RevisionMetadata list \<Rightarrow> string \<Rightarrow> ListRevisionsResponse result" where
  "NewListRevisionsResponse request revisions nextCursor =
     (if \<not> validListRevisionsRequest request then Inl ErrorInvalidArgument
      else if int (length revisions) > lr_limit request \<or> length revisions > MaxPageResponseItems
      then Inl ErrorResourceExhausted
      else bindR (addRevisionPageCost (newBudget MaxAggregateOutputBytes) revisions nextCursor)
       (\<lambda>_. bindR (validateOptionalIdentifier nextCursor)
       (\<lambda>_. if \<not> validRevisionPage request revisions then Inl ErrorInvalidArgument
             else Inr \<lparr>lp_request = request, lp_revisions = revisions,
                       lp_nextCursor = nextCursor\<rparr>)))"

section \<open>Slot expectations and activations\<close>

definition slotExpectationUnset :: nat where "slotExpectationUnset = 1"
definition slotExpectationActive :: nat where "slotExpectationActive = 2"

record SlotExpectation =
  se_kind :: nat
  se_revisionID :: string
  se_generation :: uint64

definition NewUnsetSlotExpectation :: SlotExpectation where
  "NewUnsetSlotExpectation =
     \<lparr>se_kind = slotExpectationUnset, se_revisionID = [], se_generation = 0\<rparr>"

definition NewActiveSlotExpectation :: "string \<Rightarrow> uint64 \<Rightarrow> SlotExpectation result" where
  "NewActiveSlotExpectation revisionID generation =
     (if \<not> validRevisionIDString revisionID \<or> generation = 0 then Inl ErrorInvalidArgument
      else Inr \<lparr>se_kind = slotExpectationActive, se_revisionID = revisionID,
                se_generation = generation\<rparr>)"

definition expectationIsUnset :: "SlotExpectation \<Rightarrow> bool" where
  "expectationIsUnset e =
     (se_kind e = slotExpectationUnset \<and> se_revisionID e = [] \<and> se_generation e = 0)"

definition expectationActive :: "SlotExpectation \<Rightarrow> (string \<times> uint64) option" where
  "expectationActive e =
     (if se_kind e = slotExpectationActive \<and> se_revisionID e \<noteq> [] \<and> se_generation e > 0
      then Some (se_revisionID e, se_generation e) else None)"

definition validSlotExpectation :: "SlotExpectation \<Rightarrow> bool" where
  "validSlotExpectation e =
     (if expectationIsUnset e then True
      else case expectationActive e of
        None \<Rightarrow> False
      | Some (revisionID, _) \<Rightarrow> validRevisionIDString revisionID)"

record ActivateRequest =
  ar_namespace :: string
  ar_slot :: string
  ar_targetRevisionID :: string
  ar_expectation :: SlotExpectation

definition NewActivateRequest ::
  "string \<Rightarrow> string \<Rightarrow> string \<Rightarrow> SlotExpectation \<Rightarrow> ActivateRequest result" where
  "NewActivateRequest namespace slot target expectation =
     bindR (validateNamespace namespace)
       (\<lambda>_. bindR (validateIdentifier slot)
       (\<lambda>_. if \<not> validRevisionIDString target \<or> \<not> validSlotExpectation expectation
             then Inl ErrorInvalidArgument
             else Inr \<lparr>ar_namespace = namespace, ar_slot = slot, ar_targetRevisionID = target,
                       ar_expectation = expectation\<rparr>))"

record Activation =
  ac_namespace :: string
  ac_slot :: string
  ac_revisionID :: string
  ac_generation :: uint64
  ac_activatedAt :: Time

definition addActivationCost :: "budgetCounter \<Rightarrow> Activation \<Rightarrow> budgetCounter result" where
  "addActivationCost b a =
     bindR (eachB addTextCost b [ac_namespace a, ac_slot a, ac_revisionID a])
       (\<lambda>b. bindR (addFixedFieldCost b uint64Bytes) (\<lambda>b. addFixedFieldCost b timestampBytes))"

definition NewActivation ::
  "string \<Rightarrow> string \<Rightarrow> string \<Rightarrow> uint64 \<Rightarrow> Time \<Rightarrow> Activation result" where
  "NewActivation namespace slot revisionID generation activatedAt =
     (let raw = \<lparr>ac_namespace = namespace, ac_slot = slot, ac_revisionID = revisionID,
                 ac_generation = generation, ac_activatedAt = activatedAt\<rparr>
      in bindR (addActivationCost (newBudget MaxAggregateOutputBytes) raw)
       (\<lambda>_. bindR (validateNamespace namespace)
       (\<lambda>_. bindR (validateIdentifier slot)
       (\<lambda>_. if \<not> validRevisionIDString revisionID \<or> generation = 0 \<or> isZeroTime activatedAt
             then Inl ErrorInvalidArgument else Inr raw))))"

definition validActivation :: "Activation \<Rightarrow> bool" where
  "validActivation a =
     (if \<not> validNamespace (ac_namespace a) \<or> \<not> validIdentifier (ac_slot a) \<or>
         \<not> validRevisionIDString (ac_revisionID a) \<or> ac_generation a = 0 \<or>
         isZeroTime (ac_activatedAt a)
      then False
      else isOk (addActivationCost (newBudget MaxAggregateOutputBytes) a))"

text \<open>ActivateResponse and ResolveResponse wrap one activation.\<close>

definition NewActivateResponse :: "Activation \<Rightarrow> Activation result" where
  "NewActivateResponse activation =
     (if \<not> validActivation activation then Inl ErrorInvalidArgument else Inr activation)"

record ResolveRequest =
  rr_namespace :: string
  rr_slot :: string

definition NewResolveRequest :: "string \<Rightarrow> string \<Rightarrow> ResolveRequest result" where
  "NewResolveRequest namespace slot =
     bindR (validateNamespace namespace)
       (\<lambda>_. bindR (validateIdentifier slot)
       (\<lambda>_. Inr \<lparr>rr_namespace = namespace, rr_slot = slot\<rparr>))"

definition NewResolveResponse :: "Activation \<Rightarrow> Activation result" where
  "NewResolveResponse activation =
     (if \<not> validActivation activation then Inl ErrorInvalidArgument else Inr activation)"

record ListActivationHistoryRequest =
  lh_namespace :: string
  lh_slot :: string
  lh_cursor :: string
  lh_limit :: int

definition NewListActivationHistoryRequest ::
  "string \<Rightarrow> string \<Rightarrow> string \<Rightarrow> int \<Rightarrow> ListActivationHistoryRequest result" where
  "NewListActivationHistoryRequest namespace slot cursor limit =
     (if limit \<le> 0 then Inl ErrorInvalidArgument
      else bindR (validateNamespace namespace)
       (\<lambda>_. bindR (validateIdentifier slot)
       (\<lambda>_. bindR (validateOptionalIdentifier cursor)
       (\<lambda>_. if limit > int MaxPageRequestItems then Inl ErrorResourceExhausted
             else Inr \<lparr>lh_namespace = namespace, lh_slot = slot, lh_cursor = cursor,
                       lh_limit = limit\<rparr>))))"

definition validListActivationHistoryRequest :: "ListActivationHistoryRequest \<Rightarrow> bool" where
  "validListActivationHistoryRequest r =
     (validNamespace (lh_namespace r) \<and> validIdentifier (lh_slot r) \<and>
      isOk (validateOptionalIdentifier (lh_cursor r)) \<and>
      lh_limit r > 0 \<and> lh_limit r \<le> int MaxPageRequestItems)"

definition addActivationHistoryPageCost ::
  "budgetCounter \<Rightarrow> Activation list \<Rightarrow> string \<Rightarrow> budgetCounter result" where
  "addActivationHistoryPageCost b activations nextCursor =
     bindR (budgetAdd b collectionMetadataBytes)
       (\<lambda>b. bindR (addTextCost b nextCursor) (\<lambda>b. eachB addActivationCost b activations))"

fun validActivationHistoryLoop ::
  "ListActivationHistoryRequest \<Rightarrow> uint64 option \<Rightarrow> Activation list \<Rightarrow> bool" where
  "validActivationHistoryLoop request prev [] = True"
| "validActivationHistoryLoop request prev (a # as) =
     (validActivation a \<and> ac_namespace a = lh_namespace request \<and> ac_slot a = lh_slot request \<and>
      (case prev of None \<Rightarrow> True | Some g \<Rightarrow> \<not> ac_generation a \<le> g) \<and>
      validActivationHistoryLoop request (Some (ac_generation a)) as)"

definition validActivationHistoryPage ::
  "ListActivationHistoryRequest \<Rightarrow> Activation list \<Rightarrow> bool" where
  "validActivationHistoryPage request activations =
     validActivationHistoryLoop request None activations"

record ListActivationHistoryResponse =
  lq_request :: ListActivationHistoryRequest
  lq_activations :: "Activation list"
  lq_nextCursor :: string

definition NewListActivationHistoryResponse ::
  "ListActivationHistoryRequest \<Rightarrow> Activation list \<Rightarrow> string \<Rightarrow> ListActivationHistoryResponse result" where
  "NewListActivationHistoryResponse request activations nextCursor =
     (if \<not> validListActivationHistoryRequest request then Inl ErrorInvalidArgument
      else if int (length activations) > lh_limit request \<or>
              length activations > MaxPageResponseItems
      then Inl ErrorResourceExhausted
      else bindR (addActivationHistoryPageCost (newBudget MaxAggregateOutputBytes)
                    activations nextCursor)
       (\<lambda>_. bindR (validateOptionalIdentifier nextCursor)
       (\<lambda>_. if \<not> validActivationHistoryPage request activations then Inl ErrorInvalidArgument
             else Inr \<lparr>lq_request = request, lq_activations = activations,
                       lq_nextCursor = nextCursor\<rparr>)))"

section \<open>State events\<close>

definition StateEventRevisionPublished :: nat where "StateEventRevisionPublished = 1"
definition StateEventSlotActivated :: nat where "StateEventSlotActivated = 2"
definition StateEventDataWritten :: nat where "StateEventDataWritten = 3"

lemmas event_kinds = StateEventRevisionPublished_def StateEventSlotActivated_def
  StateEventDataWritten_def

text \<open>StateEventInput and StateEvent have the same fields.\<close>

record StateEvent =
  ev_namespace :: string
  ev_cursor :: string
  ev_kind :: nat
  ev_revisionID :: string
  ev_slot :: string
  ev_slotGeneration :: uint64
  ev_dataGeneration :: uint64
  ev_occurredAt :: Time

definition addStateEventCost :: "budgetCounter \<Rightarrow> StateEvent \<Rightarrow> budgetCounter result" where
  "addStateEventCost b e =
     bindR (eachB addTextCost b [ev_namespace e, ev_cursor e, ev_revisionID e, ev_slot e])
       (\<lambda>b. bindR (addFixedFieldCost b enumBytes)
       (\<lambda>b. bindR (addFixedFieldCost b uint64Bytes)
       (\<lambda>b. bindR (addFixedFieldCost b uint64Bytes)
       (\<lambda>b. addFixedFieldCost b timestampBytes))))"

definition NewStateEvent :: "StateEvent \<Rightarrow> StateEvent result" where
  "NewStateEvent i =
     bindR (addStateEventCost (newBudget MaxEventPageBytes) i)
       (\<lambda>_. if isZeroTime (ev_occurredAt i) then Inl ErrorInvalidArgument
             else bindR (validateNamespace (ev_namespace i))
       (\<lambda>_. bindR (validateIdentifier (ev_cursor i))
       (\<lambda>_. if ev_kind i = StateEventRevisionPublished then
               (if \<not> validRevisionIDString (ev_revisionID i) \<or> ev_slot i \<noteq> [] \<or>
                   ev_slotGeneration i \<noteq> 0 \<or> ev_dataGeneration i \<noteq> 0
                then Inl ErrorInvalidArgument else Inr i)
             else if ev_kind i = StateEventSlotActivated then
               (if \<not> validRevisionIDString (ev_revisionID i) \<or> \<not> isOk (validateIdentifier (ev_slot i)) \<or>
                   ev_slotGeneration i = 0 \<or> ev_dataGeneration i \<noteq> 0
                then Inl ErrorInvalidArgument else Inr i)
             else if ev_kind i = StateEventDataWritten then
               (if ev_revisionID i \<noteq> [] \<or> ev_slot i \<noteq> [] \<or> ev_slotGeneration i \<noteq> 0 \<or>
                   ev_dataGeneration i = 0
                then Inl ErrorInvalidArgument else Inr i)
             else Inl ErrorInvalidArgument)))"

definition validStateEvent :: "StateEvent \<Rightarrow> bool" where
  "validStateEvent e =
     (if \<not> validNamespace (ev_namespace e) \<or> \<not> validIdentifier (ev_cursor e) \<or>
         isZeroTime (ev_occurredAt e) then False
      else if \<not> isOk (addStateEventCost (newBudget MaxEventPageBytes) e) then False
      else if ev_kind e = StateEventRevisionPublished then
        validRevisionIDString (ev_revisionID e) \<and> ev_slot e = [] \<and> ev_slotGeneration e = 0 \<and>
        ev_dataGeneration e = 0
      else if ev_kind e = StateEventSlotActivated then
        validRevisionIDString (ev_revisionID e) \<and> validIdentifier (ev_slot e) \<and>
        ev_slotGeneration e > 0 \<and> ev_dataGeneration e = 0
      else if ev_kind e = StateEventDataWritten then
        ev_revisionID e = [] \<and> ev_slot e = [] \<and> ev_slotGeneration e = 0 \<and> ev_dataGeneration e > 0
      else False)"

record ListEventsRequest =
  le_namespace :: string
  le_afterCursor :: string
  le_limit :: int

definition NewListEventsRequest :: "string \<Rightarrow> string \<Rightarrow> int \<Rightarrow> ListEventsRequest result" where
  "NewListEventsRequest namespace afterCursor limit =
     (if limit \<le> 0 then Inl ErrorInvalidArgument
      else bindR (validateNamespace namespace)
       (\<lambda>_. bindR (validateOptionalIdentifier afterCursor)
       (\<lambda>_. if limit > int MaxPageRequestItems then Inl ErrorResourceExhausted
             else Inr \<lparr>le_namespace = namespace, le_afterCursor = afterCursor, le_limit = limit\<rparr>)))"

definition validListEventsRequest :: "ListEventsRequest \<Rightarrow> bool" where
  "validListEventsRequest r =
     (validNamespace (le_namespace r) \<and> isOk (validateOptionalIdentifier (le_afterCursor r)) \<and>
      le_limit r > 0 \<and> le_limit r \<le> int MaxPageRequestItems)"

definition addEventPageCost ::
  "budgetCounter \<Rightarrow> StateEvent list \<Rightarrow> string \<Rightarrow> budgetCounter result" where
  "addEventPageCost b events nextCursor =
     bindR (budgetAdd b collectionMetadataBytes)
       (\<lambda>b. bindR (addTextCost b nextCursor) (\<lambda>b. eachB addStateEventCost b events))"

fun validEventPageLoop :: "string \<Rightarrow> string set \<Rightarrow> StateEvent list \<Rightarrow> bool" where
  "validEventPageLoop namespace seen [] = True"
| "validEventPageLoop namespace seen (e # es) =
     (validStateEvent e \<and> ev_namespace e = namespace \<and> ev_cursor e \<notin> seen \<and>
      validEventPageLoop namespace (insert (ev_cursor e) seen) es)"

definition validEventPage :: "ListEventsRequest \<Rightarrow> StateEvent list \<Rightarrow> bool" where
  "validEventPage request events = validEventPageLoop (le_namespace request) {} events"

record ListEventsResponse =
  lv_request :: ListEventsRequest
  lv_events :: "StateEvent list"
  lv_nextCursor :: string

definition NewListEventsResponse ::
  "ListEventsRequest \<Rightarrow> StateEvent list \<Rightarrow> string \<Rightarrow> ListEventsResponse result" where
  "NewListEventsResponse request events nextCursor =
     (if \<not> validListEventsRequest request then Inl ErrorInvalidArgument
      else if int (length events) > le_limit request \<or> length events > MaxEventPageItems \<or>
              length events > MaxPageResponseItems
      then Inl ErrorResourceExhausted
      else bindR (addEventPageCost (newBudget MaxEventPageBytes) events nextCursor)
       (\<lambda>_. bindR (validateOptionalIdentifier nextCursor)
       (\<lambda>_. if \<not> validEventPage request events then Inl ErrorInvalidArgument
             else Inr \<lparr>lv_request = request, lv_events = events, lv_nextCursor = nextCursor\<rparr>)))"

section \<open>Component status\<close>

record ComponentStatus =
  cs_name :: string
  cs_state :: nat
  cs_reasonCode :: string

definition addComponentStatusCost :: "budgetCounter \<Rightarrow> ComponentStatus \<Rightarrow> budgetCounter result" where
  "addComponentStatusCost b c =
     bindR (addTextCost b (cs_name c))
       (\<lambda>b. bindR (addFixedFieldCost b enumBytes) (\<lambda>b. addTextCost b (cs_reasonCode c)))"

text \<open>ComponentReady is 1 and ComponentUnavailable is 3.\<close>

definition NewComponentStatus :: "string \<Rightarrow> nat \<Rightarrow> string \<Rightarrow> ComponentStatus result" where
  "NewComponentStatus name state reasonCode =
     (let raw = \<lparr>cs_name = name, cs_state = state, cs_reasonCode = reasonCode\<rparr>
      in bindR (addComponentStatusCost (newBudget MaxAggregateOutputBytes) raw)
       (\<lambda>_. if state < 1 \<or> state > 3 then Inl ErrorInvalidArgument
             else bindR (validateIdentifier name)
       (\<lambda>_. bindR (validateIdentifier reasonCode) (\<lambda>_. Inr raw))))"

definition validComponentStatus :: "ComponentStatus \<Rightarrow> bool" where
  "validComponentStatus s =
     (if \<not> validIdentifier (cs_name s) \<or> \<not> validIdentifier (cs_reasonCode s) \<or>
         cs_state s < 1 \<or> cs_state s > 3 then False
      else isOk (addComponentStatusCost (newBudget MaxAggregateOutputBytes) s))"

definition addStatusResponseCost ::
  "budgetCounter \<Rightarrow> bool \<Rightarrow> ComponentStatus list \<Rightarrow> budgetCounter result" where
  "addStatusResponseCost b ready components =
     bindR (addFixedFieldCost b boolBytes)
       (\<lambda>b. bindR (budgetAdd b collectionMetadataBytes)
       (\<lambda>b. eachB addComponentStatusCost b components))"

record StatusResponse =
  st_ready :: bool
  st_components :: "ComponentStatus list"

fun duplicateName :: "string set \<Rightarrow> ComponentStatus list \<Rightarrow> bool" where
  "duplicateName names [] = False"
| "duplicateName names (c # cs) =
     (cs_name c \<in> names \<or> duplicateName (insert (cs_name c) names) cs)"

definition NewStatusResponse :: "bool \<Rightarrow> ComponentStatus list \<Rightarrow> StatusResponse result" where
  "NewStatusResponse ready components =
     (if length components > MaxStatusComponents then Inl ErrorResourceExhausted
      else bindR (addStatusResponseCost (newBudget MaxAggregateOutputBytes) ready components)
       (\<lambda>_. bindR (eachR (\<lambda>c. requireR (validComponentStatus c) ErrorInvalidArgument) components)
       (\<lambda>_. if duplicateName {} components then Inl ErrorInvalidArgument
             else Inr \<lparr>st_ready = ready,
                       st_components = sortSlice (\<lambda>x y. cmpCompare (cs_name x) (cs_name y))
                         components\<rparr>)))"

fun validComponentsLoop :: "string option \<Rightarrow> ComponentStatus list \<Rightarrow> bool" where
  "validComponentsLoop prev [] = True"
| "validComponentsLoop prev (c # cs) =
     (validComponentStatus c \<and> (case prev of None \<Rightarrow> True | Some n \<Rightarrow> \<not> n \<ge> cs_name c) \<and>
      validComponentsLoop (Some (cs_name c)) cs)"

definition validStatusResponse :: "StatusResponse \<Rightarrow> bool" where
  "validStatusResponse r =
     (length (st_components r) \<le> MaxStatusComponents \<and>
      isOk (addStatusResponseCost (newBudget MaxAggregateOutputBytes) (st_ready r) (st_components r)) \<and>
      validComponentsLoop None (st_components r))"

section \<open>Hexadecimal round trips\<close>

lemma nibble_cases: "n < 16 \<Longrightarrow> n \<in> {0,1,2,3,4,5,6,7,8,9,10,11,12,13,14,15::nat}"
  by (simp, presburger)

lemma fromHexDigit_hexDigit: "n < 16 \<Longrightarrow> fromHexDigit (hexDigit n) = Some n"
proof -
  assume "n < 16"
  then have "n \<in> {0,1,2,3,4,5,6,7,8,9,10,11,12,13,14,15}"
    by (rule nibble_cases)
  then show ?thesis
    by (elim insertE emptyE) (simp_all add: hexDigit_def fromHexDigit_def)
qed

lemma hexDigit_chars:
  "n < 16 \<Longrightarrow> lowerChar (hexDigit n) = hexDigit n \<and>
     ((CHR ''0'' \<le> hexDigit n \<and> hexDigit n \<le> CHR ''9'') \<or> (CHR ''a'' \<le> hexDigit n \<and> hexDigit n \<le> CHR ''f''))"
proof -
  assume "n < 16"
  then have "n \<in> {0,1,2,3,4,5,6,7,8,9,10,11,12,13,14,15}"
    by (rule nibble_cases)
  then show ?thesis
    by (elim insertE emptyE) (simp_all add: hexDigit_def lowerChar_def less_eq_char_def)
qed

lemma byte_nibbles: "(of_nat (16 * (unat b div 16) + unat b mod 16) :: 8 word) = b"
  "unat (b :: 8 word) div 16 < 16" "unat b mod 16 < 16"
proof -
  show "(of_nat (16 * (unat b div 16) + unat b mod 16) :: 8 word) = b"
    unfolding mult_div_mod_eq by simp
  have "unat b < 2 ^ LENGTH(8)"
    by (rule unsigned_less)
  then show "unat b div 16 < 16" by simp
qed simp

lemma hexDecode_hexEncode: "hexDecode (hexEncode bs) = Some bs"
proof (induction bs)
  case (Cons b bs)
  then show ?case
    by (simp add: hexEncode_def fromHexDigit_hexDigit byte_nibbles del: of_nat_add of_nat_mult)
qed (simp add: hexEncode_def)

lemma length_hexEncode: "length (hexEncode bs) = 2 * length bs"
  by (induction bs) (auto simp: hexEncode_def)

lemma lower_hexEncode: "map lowerChar (hexEncode bs) = hexEncode bs"
  by (induction bs) (auto simp: hexEncode_def hexDigit_chars byte_nibbles)

lemma fromHexDigit_less: "fromHexDigit c = Some n \<Longrightarrow> n < 16"
  by (auto simp: fromHexDigit_def Let_def split: if_splits)

lemma of_char_hexDigit: "n < 16 \<Longrightarrow> of_char (hexDigit n) = (if n < 10 then n + 48 else n + 87)"
proof -
  assume "n < 16"
  then have "n \<in> {0,1,2,3,4,5,6,7,8,9,10,11,12,13,14,15}"
    by (rule nibble_cases)
  then show ?thesis
    by (elim insertE emptyE) (simp_all add: hexDigit_def)
qed

lemma hexDigit_fromHexDigit:
  assumes "fromHexDigit c = Some n" and "lowerChar c = c"
  shows "hexDigit n = c"
proof -
  have "of_char c \<notin> {65..90 :: nat}"
  proof
    assume c: "of_char c \<in> {65..90 :: nat}"
    then have "of_char (lowerChar c) = (of_char c + 32 :: nat)"
      by (simp add: lowerChar_def of_char_mod_256)
    with assms(2) show False by simp
  qed
  then have n: "of_char c = (if n < 10 then n + 48 else n + 87)" "n < 16"
    using assms(1) by (auto simp: fromHexDigit_def Let_def split: if_splits)
  then have "(of_char (hexDigit n) :: nat) = of_char c"
    by (simp add: of_char_hexDigit)
  then show ?thesis by simp
qed

lemma hexEncode_hexDecode:
  "hexDecode s = Some bs \<Longrightarrow> map lowerChar s = s \<Longrightarrow> hexEncode bs = s"
proof (induction s arbitrary: bs rule: hexDecode.induct)
  case (3 c d cs)
  obtain h l cs' where d: "fromHexDigit c = Some h" "fromHexDigit d = Some l"
    "hexDecode cs = Some cs'" "bs = of_nat (16 * h + l) # cs'"
    using "3.prems"(1) by (auto split: option.splits)
  have "h < 16" "l < 16"
    using d fromHexDigit_less by auto
  then have "unat (of_nat (16 * h + l) :: 8 word) = 16 * h + l"
    by (simp add: unat_of_nat del: of_nat_add of_nat_mult)
  moreover have "hexEncode cs' = cs"
    using "3.IH" d "3.prems"(2) by simp
  moreover have "hexDigit h = c" "hexDigit l = d"
    using d "3.prems"(2) by (auto intro: hexDigit_fromHexDigit)
  ultimately show ?case
    using \<open>l < 16\<close> d(4) by (simp add: hexEncode_def del: of_nat_add of_nat_mult)
qed (auto simp: hexEncode_def)

lemma validRevisionIDString_hex: "length bs = 32 \<Longrightarrow> validRevisionIDString (hexEncode bs)"
proof -
  have "list_all (\<lambda>c. (CHR ''0'' \<le> c \<and> c \<le> CHR ''9'') \<or> (CHR ''a'' \<le> c \<and> c \<le> CHR ''f'')) (hexEncode bs)"
    for bs
    by (induction bs) (use hexDigit_chars byte_nibbles in \<open>auto simp: hexEncode_def\<close>)
  then show "length bs = 32 \<Longrightarrow> ?thesis"
    by (simp add: validRevisionIDString_def length_hexEncode)
qed

lemma hexDecode_valid:
  assumes "list_all (\<lambda>c. (CHR ''0'' \<le> c \<and> c \<le> CHR ''9'') \<or> (CHR ''a'' \<le> c \<and> c \<le> CHR ''f'')) s"
    and "even (length s)"
  shows "\<exists>bs. hexDecode s = Some bs \<and> 2 * length bs = length s" and "map lowerChar s = s"
proof -
  have hex: "\<exists>n. fromHexDigit c = Some n" and low: "lowerChar c = c"
    if "(CHR ''0'' \<le> c \<and> c \<le> CHR ''9'') \<or> (CHR ''a'' \<le> c \<and> c \<le> CHR ''f'')" for c
    using that unfolding char_le_of_char by (auto simp: fromHexDigit_def lowerChar_def Let_def)
  show "\<exists>bs. hexDecode s = Some bs \<and> 2 * length bs = length s"
    using assms
  proof (induction s rule: induct_list012)
    case (3 c d cs)
    then obtain h l bs where "fromHexDigit c = Some h" "fromHexDigit d = Some l"
      "hexDecode cs = Some bs" "2 * length bs = length cs"
      using hex [of c] hex [of d] by auto
    then show ?case by simp
  qed auto
  show "map lowerChar s = s"
    using assms(1) low by (intro map_idI) (auto simp: list_all_iff)
qed

section \<open>Constructors and validity\<close>

lemma validNamespace_length: "validNamespace n \<Longrightarrow> n \<noteq> [] \<and> length n \<le> 1024"
  by (auto simp: validNamespace_def isOk_Inr_unit validateNamespace_def validateText_Inr_iff limit_defs)

lemma validIdentifier_length: "validIdentifier v \<Longrightarrow> v \<noteq> [] \<and> length v \<le> 1024"
  using validateIdentifier_length [of v] by (simp add: validIdentifier_def isOk_Inr_unit)

lemma addRevisionMetadataCost_eq [charge_simps]:
  "addRevisionMetadataCost b r = budgetAdd b (textBytes (rm_namespace r) + 120)"
  by (simp add: addRevisionMetadataCost_def charge_simps cost_consts budgetAdd_seq budgetAdd_bind)

lemma addActivationCost_eq [charge_simps]:
  "addActivationCost b a = budgetAdd b (textBytes (ac_namespace a) + textBytes (ac_slot a) +
     textBytes (ac_revisionID a) + 64)"
  by (simp add: addActivationCost_def charge_simps cost_consts budgetAdd_seq budgetAdd_bind
      bindR_assoc add.assoc)

lemma addStateEventCost_eq [charge_simps]:
  "addStateEventCost b e = budgetAdd b (textBytes (ev_namespace e) + textBytes (ev_cursor e) +
     textBytes (ev_revisionID e) + textBytes (ev_slot e) + 89)"
  by (simp add: addStateEventCost_def charge_simps cost_consts budgetAdd_seq budgetAdd_bind
      bindR_assoc add.assoc)

lemma NewRevisionMetadata_Inr_iff:
  "NewRevisionMetadata n i t = Inr m \<longleftrightarrow>
     m = \<lparr>rm_namespace = n, rm_id = i, rm_publishedAt = t\<rparr> \<and> validRevisionMetadata m"
  by (auto simp: NewRevisionMetadata_def validRevisionMetadata_def validNamespace_def isOk_Inr_unit
      isOk_iff charge_simps)

lemma validRevisionMetadata_iff:
  "validRevisionMetadata m \<longleftrightarrow>
     validNamespace (rm_namespace m) \<and> ri_valid (rm_id m) \<and> rm_publishedAt m \<noteq> 0"
  using validNamespace_length [of "rm_namespace m"]
  by (auto simp: validRevisionMetadata_def isOk_iff charge_simps budgetAdd_Inr_iff isZeroTime_def
      textBytes_def limit_defs)

lemma NewActivation_Inr_iff:
  "NewActivation n s r g t = Inr a \<longleftrightarrow>
     a = \<lparr>ac_namespace = n, ac_slot = s, ac_revisionID = r, ac_generation = g, ac_activatedAt = t\<rparr> \<and>
     validActivation a"
  by (auto simp: NewActivation_def validActivation_def validNamespace_def validIdentifier_def
      isOk_Inr_unit isOk_iff charge_simps)

lemma validActivation_iff:
  "validActivation a \<longleftrightarrow>
     validNamespace (ac_namespace a) \<and> validIdentifier (ac_slot a) \<and>
     validRevisionIDString (ac_revisionID a) \<and> ac_generation a \<noteq> 0 \<and> ac_activatedAt a \<noteq> 0"
  using validNamespace_length [of "ac_namespace a"] validIdentifier_length [of "ac_slot a"]
  by (auto simp: validActivation_def isOk_iff charge_simps budgetAdd_Inr_iff isZeroTime_def
      textBytes_def limit_defs validRevisionIDString_def)

lemma word_pos_iff: "0 < (w :: uint64) \<longleftrightarrow> w \<noteq> 0"
  by (simp add: word_neq_0_conv)

lemma NewStateEvent_Inr_iff: "NewStateEvent i = Inr e \<longleftrightarrow> e = i \<and> validStateEvent e"
  by (cases "ev_kind i = StateEventRevisionPublished"; cases "ev_kind i = StateEventSlotActivated";
      cases "ev_kind i = StateEventDataWritten")
    (auto simp: NewStateEvent_def validStateEvent_def validNamespace_def validIdentifier_def
      isOk_Inr_unit isOk_iff charge_simps event_kinds word_pos_iff)

definition eventShape :: "StateEvent \<Rightarrow> bool" where
  "eventShape e =
     (if ev_kind e = StateEventRevisionPublished then
        validRevisionIDString (ev_revisionID e) \<and> ev_slot e = [] \<and> ev_slotGeneration e = 0 \<and>
        ev_dataGeneration e = 0
      else if ev_kind e = StateEventSlotActivated then
        validRevisionIDString (ev_revisionID e) \<and> validIdentifier (ev_slot e) \<and>
        ev_slotGeneration e \<noteq> 0 \<and> ev_dataGeneration e = 0
      else if ev_kind e = StateEventDataWritten then
        ev_revisionID e = [] \<and> ev_slot e = [] \<and> ev_slotGeneration e = 0 \<and> ev_dataGeneration e \<noteq> 0
      else False)"

lemma validStateEvent_iff:
  "validStateEvent e \<longleftrightarrow>
     validNamespace (ev_namespace e) \<and> validIdentifier (ev_cursor e) \<and> ev_occurredAt e \<noteq> 0 \<and>
     eventShape e"
proof -
  have "isOk (addStateEventCost (newBudget MaxEventPageBytes) e)"
    if "validNamespace (ev_namespace e)" "validIdentifier (ev_cursor e)" "eventShape e"
  proof -
    have "length (ev_revisionID e) \<le> 64" "length (ev_slot e) \<le> 1024"
      using that(3) validIdentifier_length [of "ev_slot e"]
      by (auto simp: eventShape_def validRevisionIDString_def split: if_splits)
    then show ?thesis
      using validNamespace_length [OF that(1)] validIdentifier_length [OF that(2)]
      by (simp add: isOk_iff charge_simps budgetAdd_Inr_iff textBytes_def limit_defs)
  qed
  moreover have "validStateEvent e \<longleftrightarrow>
      validNamespace (ev_namespace e) \<and> validIdentifier (ev_cursor e) \<and> ev_occurredAt e \<noteq> 0 \<and>
      isOk (addStateEventCost (newBudget MaxEventPageBytes) e) \<and> eventShape e"
    by (auto simp: validStateEvent_def eventShape_def isZeroTime_def word_pos_iff)
  ultimately show ?thesis by blast
qed

section \<open>Properties\<close>

text \<open>
  C14: Parsing and printing revision identifiers are inverse: exactly the 64-digit lowercase
  hexadecimal strings parse, each to the one valid 32-byte identifier that prints as that string.
\<close>

theorem ParseRevisionID_roundtrip:
  "ParseRevisionID s = Inr i \<longleftrightarrow>
     validRevisionIDString s \<and> ri_valid i \<and> length (ri_digest i) = 32 \<and> revisionIDString i = s"
proof
  assume "ParseRevisionID s = Inr i"
  then have i: "length s = 64" "map lowerChar s = s" "hexDecode s = Some (ri_digest i)"
    "length (ri_digest i) = 32" "ri_valid i"
    by (auto simp: ParseRevisionID_def split: option.splits)
  then have "hexEncode (ri_digest i) = s"
    by (intro hexEncode_hexDecode)
  with i validRevisionIDString_hex [OF i(4)]
  show "validRevisionIDString s \<and> ri_valid i \<and> length (ri_digest i) = 32 \<and> revisionIDString i = s"
    by (simp add: revisionIDString_def)
next
  assume i: "validRevisionIDString s \<and> ri_valid i \<and> length (ri_digest i) = 32 \<and> revisionIDString i = s"
  then have "s = hexEncode (ri_digest i)"
    by (simp add: revisionIDString_def split: if_splits)
  with i show "ParseRevisionID s = Inr i"
    by (simp add: ParseRevisionID_def length_hexEncode lower_hexEncode hexDecode_hexEncode)
qed

end
