(* ===== verification/Auth_Canonical.thy ===== *)
theory Auth_Canonical
  imports Auth_Data
begin

text \<open>
  The correctness of data.go's canonical forms: the comparison functions are total orders, the
  compaction of a sorted slice finds every conflict and otherwise returns the strictly sorted
  slice of the same elements, the merge of writes and deletes finds every intersection, and a
  constructed request is exactly one that re-validates.
\<close>

section \<open>The comparisons are total orders\<close>

definition tupleFields :: "Tuple \<Rightarrow> string list" where
  "tupleFields t = [er_Type (tu_Resource t), er_ID (tu_Resource t), tu_Relation t,
     sr_Type (tu_Subject t), sr_ID (tu_Subject t), sr_Relation (tu_Subject t)]"

definition pathKey :: "EntityRef \<Rightarrow> string list \<Rightarrow> string list" where
  "pathKey e p = er_Type e # er_ID e # p"

abbreviation attributeFields :: "Attribute \<Rightarrow> string list" where
  "attributeFields a \<equiv> pathKey (at_entity a) (at_path a)"

abbreviation keyFields :: "AttributeKey \<Rightarrow> string list" where
  "keyFields k \<equiv> pathKey (ak_entity k) (ak_path k)"

lemma tupleFields_inj [simp]: "tupleFields s = tupleFields t \<longleftrightarrow> s = t"
  by (cases s; cases t) (auto simp: tupleFields_def intro!: EntityRef.equality SubjectRef.equality)

lemma pathKey_inj [simp]: "pathKey e p = pathKey f q \<longleftrightarrow> e = f \<and> p = q"
  by (auto simp: pathKey_def intro: EntityRef.equality)

lemma keyFields_inj: "keyFields k = keyFields l \<longleftrightarrow> k = l"
  by (auto intro: AttributeKey.equality)

lemma keyFields_attributeKeyOf [simp]: "keyFields (attributeKeyOf a) = attributeFields a"
  by (simp add: attributeKeyOf_def)

lemma compareTuple_fields: "compareTuple l r = cmpCompare (tupleFields l) (tupleFields r)"
  by (simp add: compareTuple_def tupleFields_def cmpCompare_Cons)

lemma compareAttributePath_eq: "compareAttributePath l r = cmpCompare l r"
proof (induction l arbitrary: r)
  case Nil
  show ?case by (cases r) (auto simp: cmpCompare_def)
next
  case (Cons x l)
  then show ?case by (cases r) (simp_all add: cmpCompare_Cons, simp add: cmpCompare_def)
qed

lemma compareAttributeDeleteKey_fields:
  "compareAttributeDeleteKey l r = cmpCompare (keyFields l) (keyFields r)"
  by (simp add: compareAttributeDeleteKey_def pathKey_def cmpCompare_Cons compareAttributePath_eq)

lemma compareAttributeKey_fields:
  "compareAttributeKey l r = cmpCompare (attributeFields l) (attributeFields r)"
  by (simp add: compareAttributeKey_def pathKey_def cmpCompare_Cons compareAttributePath_eq)

lemma prefix_loop_iff:
  assumes "length xs \<le> length ys"
  shows "list_all (\<lambda>i. xs ! i = ys ! i) [0..<length xs] \<longleftrightarrow> prefix xs ys"
proof -
  have "list_all (\<lambda>i. xs ! i = ys ! i) [0..<length xs] \<longleftrightarrow> (\<forall>i < length xs. xs ! i = take (length xs) ys ! i)"
    by (auto simp: list_all_iff)
  also have "\<dots> \<longleftrightarrow> xs = take (length xs) ys"
    using assms by (subst list_eq_iff_nth_eq) auto
  also have "\<dots> \<longleftrightarrow> prefix xs ys"
    by (metis append_eq_conv_conj append_take_drop_id prefix_def)
  finally show ?thesis .
qed

lemma pathKey_comparable:
  "comparable (pathKey e p) (pathKey f q) \<longleftrightarrow> e = f \<and> (prefix p q \<or> prefix q p)"
  by (auto simp: comparable_def pathKey_def intro: EntityRef.equality)

lemma prefixConflict_iff:
  "attributePathPrefixConflict e p f q \<longleftrightarrow>
     pathKey e p \<noteq> pathKey f q \<and> comparable (pathKey e p) (pathKey f q)"
proof -
  note loop = prefix_loop_iff
  have same: "comparable p q \<longleftrightarrow> p = q" if "length p = length q"
    using that by (auto simp: comparable_def prefix_def)
  have key: "comparable (pathKey e p) (pathKey f q) \<longleftrightarrow> e = f \<and> comparable p q"
    unfolding pathKey_comparable by (simp add: comparable_def)
  consider "length p = length q" | "length p < length q" | "length q < length p"
    by linarith
  then show ?thesis
  proof cases
    case 2
    then have "comparable p q \<longleftrightarrow> prefix p q" "p \<noteq> q"
      by (auto simp: comparable_def dest: prefix_length_le)
    with 2 show ?thesis
      by (simp add: attributePathPrefixConflict_def key loop)
  next
    case 3
    then have "comparable p q \<longleftrightarrow> prefix q p" "p \<noteq> q"
      by (auto simp: comparable_def dest: prefix_length_le)
    with 3 show ?thesis
      by (simp add: attributePathPrefixConflict_def key loop)
  qed (auto simp: attributePathPrefixConflict_def key same)
qed

lemma comparator_compareTuple: "comparator compareTuple"
  unfolding compareTuple_fields [abs_def]
  by (rule comparator_project [OF comparator_cmpCompare]) (simp add: inj_def)

interpretation rt_cmp: comparator compareRelationshipTuple
proof -
  have "comparator (\<lambda>l r :: RelationshipTuple. thenCmp (compareTuple (rt_tuple l) (rt_tuple r))
      ((\<lambda>x y. thenCmp (compareBool (fst x) (fst y)) (cmpCompare (snd x) (snd y)))
        (rt_hasExpiry l, rt_expiresAt l) (rt_hasExpiry r, rt_expiresAt r)))"
    by (rule comparator_thenCmp [OF comparator_compareTuple
          cmpCompare_prod [OF comparator_compareBool comparator_cmpCompare]])
      (auto intro: RelationshipTuple.equality)
  then show "comparator compareRelationshipTuple"
    by (simp add: compareRelationshipTuple_def [abs_def])
qed

interpretation tk_cmp: comparator compareTupleKey
  unfolding compareTupleKey_def [abs_def]
  by (rule comparator_project [OF comparator_compareTuple])
    (auto simp: inj_def intro: TupleKey.equality)

interpretation ak_cmp: comparator compareAttributeDeleteKey
  unfolding compareAttributeDeleteKey_fields [abs_def]
  by (rule comparator_project [OF comparator_cmpCompare])
    (auto simp: inj_def intro: AttributeKey.equality)

lemma comparator_compareValue: "comparator compareValue"
proof -
  have "comparator (\<lambda>x y :: 64 word. cmpCompare (sint x) (sint y))"
    by (rule comparator_project [OF comparator_cmpCompare]) (metis injI word_eq_iff_signed)
  then have "comparator (\<lambda>x y :: nat \<times> string \<times> 64 word \<times> bool.
      thenCmp (cmpCompare (fst x) (fst y)) ((\<lambda>x y. thenCmp (cmpCompare (fst x) (fst y))
        ((\<lambda>x y. thenCmp (cmpCompare (sint (fst x)) (sint (fst y))) (compareBool (snd x) (snd y)))
          (snd x) (snd y))) (snd x) (snd y)))"
    by (intro cmpCompare_prod comparator_cmpCompare comparator_compareBool)
  moreover have "inj (\<lambda>v :: Value. (va_kind v, va_text v, va_integer v, va_boolean v))"
    by (rule injI) (rule Value.equality, simp_all)
  ultimately show ?thesis
    by (drule_tac comparator_project) (assumption, simp add: compareValue_def [abs_def])
qed

interpretation at_cmp: comparator compareAttribute
proof -
  have "comparator (\<lambda>l r :: Attribute. thenCmp (cmpCompare (attributeFields l) (attributeFields r))
      (compareValue (at_value l) (at_value r)))"
    by (rule comparator_thenCmp [OF comparator_cmpCompare comparator_compareValue])
      (auto intro: Attribute.equality)
  then show "comparator compareAttribute"
    by (simp add: compareAttribute_def [abs_def] compareAttributeKey_fields)
qed

section \<open>Canonical slices\<close>

text \<open>
  The contract of a canonicalised kind of datum: a total order, and a symmetric conflict between
  data such that an element between two conflicting ones conflicts with the smaller. The loop
  compares neighbours only; under this contract that finds every conflict of the slice.
\<close>

definition noClash :: "('a \<Rightarrow> 'a \<Rightarrow> bool) \<Rightarrow> 'a set \<Rightarrow> bool" where
  "noClash clash S = (\<forall>a \<in> S. \<forall>b \<in> S. a \<noteq> b \<longrightarrow> \<not> clash a b)"

locale canonical_slice = comparator cmp for cmp :: "'a \<Rightarrow> 'a \<Rightarrow> int" +
  fixes clash :: "'a \<Rightarrow> 'a \<Rightarrow> bool" and step :: "'a \<Rightarrow> 'a \<Rightarrow> CompactStep"
  assumes step_eq: "step a b =
      (if a = b then CompactSkip else if clash a b then CompactReject else CompactKeep)"
    and clash_convex: "cmp a b < 0 \<Longrightarrow> cmp b c < 0 \<Longrightarrow> clash a c \<Longrightarrow> clash a b"
    and clash_sym: "clash a b \<Longrightarrow> clash b a"
begin

definition loopPost :: "'a set \<Rightarrow> 'a list result \<Rightarrow> bool" where
  "loopPost S res =
     (case res of
        Inl e \<Rightarrow> e = ErrorInvalidArgument \<and> \<not> noClash clash S
      | Inr ys \<Rightarrow> sorted_wrt (\<lambda>a b. cmp a b < 0) ys \<and> set ys = S \<and> noClash clash S)"

lemma noClash_insert:
  assumes kept: "sorted_wrt (\<lambda>a b. cmp a b < 0) (rev (k # ks))" "noClash clash (set (k # ks))"
    and v: "cmp k v < 0" "\<not> clash k v"
  shows "noClash clash (insert v (set (k # ks)))"
proof -
  have "\<not> clash a v" if a: "a \<in> set (k # ks)" for a
  proof (cases "a = k")
    case False
    then have "cmp a k < 0" and "\<not> clash a k"
      using a kept by (auto simp: sorted_wrt_append noClash_def)
    then show ?thesis
      using clash_convex [of a k v] v(1) by blast
  qed (use v in simp)
  then show ?thesis
    using kept(2) clash_sym unfolding noClash_def by blast
qed

lemma compactSlice_loop:
  "sorted_wrt (\<lambda>a b. cmp a b < 0) (rev kept) \<Longrightarrow> noClash clash (set kept) \<Longrightarrow>
   sorted_wrt (\<lambda>a b. cmp a b \<le> 0) vs \<Longrightarrow> \<forall>k \<in> set kept. \<forall>v \<in> set vs. cmp k v \<le> 0 \<Longrightarrow>
   loopPost (set kept \<union> set vs) (compactSlice step kept vs)"
proof (induction vs arbitrary: kept)
  case Nil
  then show ?case by (simp add: loopPost_def)
next
  case (Cons v vs)
  show ?case
  proof (cases kept)
    case Nil
    then show ?thesis
      using Cons.IH [of "[v]"] Cons.prems by (simp add: noClash_def)
  next
    case kept: (Cons k ks)
    have kv: "cmp k v \<le> 0"
      using Cons.prems(4) kept by simp
    consider "k = v" | "k \<noteq> v" "clash k v" | "k \<noteq> v" "\<not> clash k v"
      by blast
    then show ?thesis
    proof cases
      case 1
      then show ?thesis
        using kept Cons.IH [of kept] Cons.prems by (simp add: step_eq [of v v] insert_absorb)
    next
      case 2
      then show ?thesis
        using kept by (auto simp: step_eq [of k v] loopPost_def noClash_def)
    next
      case 3
      then have less: "cmp k v < 0"
        using kv cmp_eq [of k v] by linarith
      have below: "\<forall>a \<in> set kept. cmp a v < 0"
        using kept Cons.prems(1) less by (auto simp: sorted_wrt_append dest: cmp_trans)
      then have "sorted_wrt (\<lambda>a b. cmp a b < 0) (rev (v # kept))"
        using Cons.prems(1) by (simp add: sorted_wrt_append)
      moreover have "noClash clash (set (v # kept))"
        using noClash_insert [of k ks v] Cons.prems(1,2) kept less 3 by simp
      ultimately have "loopPost (set (v # kept) \<union> set vs) (compactSlice step (v # kept) vs)"
        using Cons.prems(3,4) by (intro Cons.IH) auto
      then show ?thesis
        using kept 3 by (simp add: step_eq [of k v])
    qed
  qed
qed

lemma canonical_post: "loopPost (set xs) (compactSlice step [] (sortSlice cmp xs))"
  using compactSlice_loop [of "[]" "sortSlice cmp xs"]
  by (simp add: noClash_def sorted_sortSlice set_sortSlice)

lemma canonical_Inr_iff:
  "compactSlice step [] (sortSlice cmp xs) = Inr ys \<longleftrightarrow>
     sorted_wrt (\<lambda>a b. cmp a b < 0) ys \<and> set ys = set xs \<and> noClash clash (set xs)"
  using canonical_post [of xs] sorted_less_set_unique [of ys]
  by (cases "compactSlice step [] (sortSlice cmp xs)") (auto simp: loopPost_def)

lemma canonical_Inl_iff:
  "compactSlice step [] (sortSlice cmp xs) = Inl e \<longleftrightarrow>
     e = ErrorInvalidArgument \<and> \<not> noClash clash (set xs)"
  using canonical_post [of xs]
  by (cases "compactSlice step [] (sortSlice cmp xs)") (auto simp: loopPost_def)

lemma canonical_set_cong:
  "set xs = set ys \<Longrightarrow>
     compactSlice step [] (sortSlice cmp xs) = compactSlice step [] (sortSlice cmp ys)"
  by (metis canonical_Inl_iff canonical_Inr_iff old.sum.exhaust)

lemma validNeighbours_sorted:
  assumes ok: "\<And>p v. ok p v \<longleftrightarrow> cmp p v < 0 \<and> \<not> clash p v"
  shows "validNeighbours valid ok None vs \<longleftrightarrow>
    (\<forall>v \<in> set vs. valid v) \<and> sorted_wrt (\<lambda>a b. cmp a b < 0) vs \<and> noClash clash (set vs)"
proof -
  have chain: "validNeighbours valid ok (Some p) vs \<longleftrightarrow>
      (\<forall>v \<in> set vs. valid v) \<and> successively (\<lambda>a b. cmp a b < 0 \<and> \<not> clash a b) (p # vs)" for p vs
    by (induction vs arbitrary: p) (auto simp: ok)
  have pairs: "successively (\<lambda>a b. cmp a b < 0 \<and> \<not> clash a b) vs \<longleftrightarrow>
      sorted_wrt (\<lambda>a b. cmp a b < 0) vs \<and> noClash clash (set vs)" for vs
  proof (induction vs rule: rev_induct)
    case Nil
    then show ?case by (simp add: noClash_def)
  next
    case (snoc v vs)
    show ?case
    proof (cases "vs = []")
      case True
      then show ?thesis by (simp add: noClash_def)
    next
      case False
      define u us where "u = last vs" and "us = butlast vs"
      with False have vs: "vs = us @ [u]"
        by simp
      have sorted: "sorted_wrt (\<lambda>a b. cmp a b < 0) (vs @ [v]) \<longleftrightarrow>
          sorted_wrt (\<lambda>a b. cmp a b < 0) vs \<and> cmp u v < 0"
        unfolding vs by (auto simp: sorted_wrt_append dest: cmp_trans)
      have clash: "noClash clash (set (vs @ [v])) \<longleftrightarrow> noClash clash (set vs) \<and> \<not> clash u v"
        if "sorted_wrt (\<lambda>a b. cmp a b < 0) vs" "cmp u v < 0"
      proof
        have "u \<noteq> v"
          using that(2) cmp_irrefl by blast
        then show "noClash clash (set (vs @ [v])) \<Longrightarrow> noClash clash (set vs) \<and> \<not> clash u v"
          unfolding vs by (simp add: noClash_def)
        show "noClash clash (set vs) \<and> \<not> clash u v \<Longrightarrow> noClash clash (set (vs @ [v]))"
          using noClash_insert [of u "rev us" v] that by (simp add: vs insert_commute [of u v])
      qed
      have last: "successively P (vs @ [v]) \<longleftrightarrow> successively P vs \<and> P u v" for P
        using False by (simp add: successively_append_iff u_def)
      show ?thesis
        unfolding last sorted snoc.IH using clash by argo
    qed
  qed
  have "validNeighbours valid ok None vs \<longleftrightarrow>
      (\<forall>v \<in> set vs. valid v) \<and> successively (\<lambda>a b. cmp a b < 0 \<and> \<not> clash a b) vs"
    by (cases vs) (simp_all add: chain)
  then show ?thesis
    by (simp add: pairs)
qed

end

text \<open>The four kinds of slice meet the contract.\<close>

lemma compareRelationshipTuple_tuple_le:
  "compareRelationshipTuple a b < 0 \<Longrightarrow> tupleFields (rt_tuple a) \<le> tupleFields (rt_tuple b)"
  by (auto simp: compareRelationshipTuple_def compareTuple_fields thenCmp_def split: if_splits)

lemma compareAttribute_key_le: "compareAttribute a b < 0 \<Longrightarrow> attributeFields a \<le> attributeFields b"
  by (auto simp: compareAttribute_def compareAttributeKey_fields thenCmp_def split: if_splits)

interpretation rt_slice: canonical_slice compareRelationshipTuple
  "\<lambda>a b. rt_tuple a = rt_tuple b" relationshipTupleStep
proof
  fix a b c :: RelationshipTuple
  show "relationshipTupleStep a b =
      (if a = b then CompactSkip else if rt_tuple a = rt_tuple b then CompactReject else CompactKeep)"
    by (simp add: relationshipTupleStep_def compareTuple_fields rt_cmp.cmp_eq)
  assume "compareRelationshipTuple a b < 0" "compareRelationshipTuple b c < 0" "rt_tuple a = rt_tuple c"
  then have "tupleFields (rt_tuple a) = tupleFields (rt_tuple b)"
    by (intro order_antisym) (auto dest: compareRelationshipTuple_tuple_le)
  then show "rt_tuple a = rt_tuple b" by simp
qed simp

interpretation at_slice: canonical_slice compareAttribute
  "\<lambda>a b. comparable (attributeFields a) (attributeFields b)" attributeStep
proof
  fix a b c :: Attribute
  have "compareValue (at_value a) (at_value b) = 0 \<longleftrightarrow> a = b" if "attributeFields a = attributeFields b"
    using that comparator.cmp_eq [OF comparator_compareValue]
    by (auto intro: Attribute.equality)
  then show "attributeStep a b =
      (if a = b then CompactSkip
       else if comparable (attributeFields a) (attributeFields b) then CompactReject
       else CompactKeep)"
    by (auto simp: attributeStep_def compareAttributeKey_fields prefixConflict_iff)
  show "comparable (attributeFields a) (attributeFields b) \<Longrightarrow>
      comparable (attributeFields b) (attributeFields a)"
    by (simp add: comparable_sym)
  assume "compareAttribute a b < 0" "compareAttribute b c < 0"
    "comparable (attributeFields a) (attributeFields c)"
  then show "comparable (attributeFields a) (attributeFields b)"
    by (meson comparable_contiguous compareAttribute_key_le)
qed

interpretation tk_slice: canonical_slice compareTupleKey "\<lambda>a b. False" tupleKeyStep
  by unfold_locales (simp_all add: tupleKeyStep_def tk_cmp.cmp_eq)

interpretation ak_slice: canonical_slice compareAttributeDeleteKey
  "\<lambda>a b. comparable (keyFields a) (keyFields b)" attributeKeyStep
proof
  fix a b c :: AttributeKey
  show "attributeKeyStep a b =
      (if a = b then CompactSkip
       else if comparable (keyFields a) (keyFields b) then CompactReject else CompactKeep)"
    by (simp add: attributeKeyStep_def ak_cmp.cmp_eq prefixConflict_iff keyFields_inj del: pathKey_inj)
  show "comparable (keyFields a) (keyFields b) \<Longrightarrow> comparable (keyFields b) (keyFields a)"
    by (simp add: comparable_sym)
  assume "compareAttributeDeleteKey a b < 0" "compareAttributeDeleteKey b c < 0"
    "comparable (keyFields a) (keyFields c)"
  then show "comparable (keyFields a) (keyFields b)"
    by (metis cmpCompare_simps(2) comparable_contiguous compareAttributeDeleteKey_fields less_imp_le)
qed

lemmas canonical_defs = canonicalRelationshipTuples_def canonicalAttributes_def
  canonicalAttributeKeys_def

lemma canonicalTupleKeys_iff:
  "canonicalTupleKeys xs = ys \<longleftrightarrow> sorted_wrt (\<lambda>a b. compareTupleKey a b < 0) ys \<and> set ys = set xs"
proof -
  have "noClash (\<lambda>a b. False) (set xs)"
    by (simp add: noClash_def)
  then obtain zs where "compactSlice tupleKeyStep [] (sortSlice compareTupleKey xs) = Inr zs"
    by (metis old.sum.exhaust tk_slice.canonical_Inl_iff)
  with tk_slice.canonical_Inr_iff [of xs] show ?thesis
    by (simp add: canonicalTupleKeys_def) (metis sum.inject(2))
qed

lemma canonicalTupleKeys_spec:
  "sorted_wrt (\<lambda>a b. compareTupleKey a b < 0) (canonicalTupleKeys xs)"
  "set (canonicalTupleKeys xs) = set xs"
  using canonicalTupleKeys_iff [of xs "canonicalTupleKeys xs"] by simp_all

lemma validCanonicalRelationshipTuples_iff:
  "validCanonicalRelationshipTuples vs \<longleftrightarrow>
     (\<forall>v \<in> set vs. validRelationshipTuple v) \<and>
     sorted_wrt (\<lambda>a b. compareRelationshipTuple a b < 0) vs \<and>
     noClash (\<lambda>a b. rt_tuple a = rt_tuple b) (set vs)"
  unfolding validCanonicalRelationshipTuples_def
  by (rule rt_slice.validNeighbours_sorted) (auto simp: compareTuple_fields)

lemma validCanonicalTupleKeys_iff:
  "validCanonicalTupleKeys vs \<longleftrightarrow>
     (\<forall>v \<in> set vs. validTupleKey v) \<and> sorted_wrt (\<lambda>a b. compareTupleKey a b < 0) vs"
  unfolding validCanonicalTupleKeys_def
  by (subst tk_slice.validNeighbours_sorted) (auto simp: noClash_def)

lemma validCanonicalAttributes_iff:
  "validCanonicalAttributes vs \<longleftrightarrow>
     (\<forall>v \<in> set vs. validAttribute v) \<and> sorted_wrt (\<lambda>a b. compareAttribute a b < 0) vs \<and>
     noClash (\<lambda>a b. comparable (attributeFields a) (attributeFields b)) (set vs)"
  unfolding validCanonicalAttributes_def
  by (rule at_slice.validNeighbours_sorted)
    (auto simp: compareAttributeKey_fields prefixConflict_iff)

lemma validCanonicalAttributeKeys_iff:
  "validCanonicalAttributeKeys vs \<longleftrightarrow>
     (\<forall>v \<in> set vs. validAttributeKey v) \<and>
     sorted_wrt (\<lambda>a b. compareAttributeDeleteKey a b < 0) vs \<and>
     noClash (\<lambda>a b. comparable (keyFields a) (keyFields b)) (set vs)"
  unfolding validCanonicalAttributeKeys_def
  by (rule ak_slice.validNeighbours_sorted)
    (auto simp: compareAttributeDeleteKey_fields prefixConflict_iff)

section \<open>Write/delete intersection\<close>

lemma tupleWriteDeleteConflict_iff:
  "sorted_wrt (\<lambda>a b. compareRelationshipTuple a b < 0) ws \<Longrightarrow>
   sorted_wrt (\<lambda>a b. compareTupleKey a b < 0) ds \<Longrightarrow>
   tupleWriteDeleteConflict ws ds \<longleftrightarrow> (\<exists>w \<in> set ws. \<exists>d \<in> set ds. rt_tuple w = tk_tuple d)"
proof (induction ws ds rule: tupleWriteDeleteConflict.induct)
  case (1 w ws d ds)
  let ?w = "tupleFields (rt_tuple w)" and ?d = "tupleFields (tk_tuple d)"
  have le: "\<forall>x \<in> set ws. ?w \<le> tupleFields (rt_tuple x)" "\<forall>x \<in> set ds. ?d < tupleFields (tk_tuple x)"
    using "1.prems" compareRelationshipTuple_tuple_le
    by (auto simp: compareTupleKey_def compareTuple_fields)
  consider "?w = ?d" | "?w < ?d" | "?d < ?w"
    by fastforce
  then show ?case
  proof cases
    case 2
    then have "\<forall>x \<in> set (d # ds). rt_tuple w \<noteq> tk_tuple x"
      using le(2) by fastforce
    with 2 "1.IH"(1) "1.prems" show ?thesis
      by (simp add: compareTuple_fields)
  next
    case 3
    then have "\<forall>x \<in> set (w # ws). rt_tuple x \<noteq> tk_tuple d"
      using le(1) by fastforce
    with 3 "1.IH"(2) "1.prems" show ?thesis
      by (auto simp: compareTuple_fields)
  qed (simp add: compareTuple_fields)
qed auto

lemma attributeWriteDeleteConflict_step:
  "attributeWriteDeleteConflict (w # ws) (d # ds) \<longleftrightarrow>
     (if comparable (attributeFields w) (keyFields d) then True
      else if attributeFields w < keyFields d then attributeWriteDeleteConflict ws (d # ds)
      else attributeWriteDeleteConflict (w # ws) ds)"
  by (auto simp: compareAttributeDeleteKey_fields prefixConflict_iff attributeKeyOf_def Let_def
      simp del: pathKey_inj)

lemma attributeWriteDeleteConflict_iff:
  "sorted_wrt (\<lambda>a b. compareAttribute a b < 0) ws \<Longrightarrow>
   sorted_wrt (\<lambda>a b. compareAttributeDeleteKey a b < 0) ds \<Longrightarrow>
   attributeWriteDeleteConflict ws ds \<longleftrightarrow>
     (\<exists>w \<in> set ws. \<exists>d \<in> set ds. comparable (attributeFields w) (keyFields d))"
proof (induction "length ws + length ds" arbitrary: ws ds rule: less_induct)
  case less
  show ?case
  proof (cases "ws = [] \<or> ds = []")
    case True
    then show ?thesis by (cases ws) auto
  next
    case False
    then obtain w ws' d ds' where ws: "ws = w # ws'" and ds: "ds = d # ds'"
      by (meson neq_Nil_conv)
    let ?w = "attributeFields w" and ?d = "keyFields d"
    have le: "\<forall>x \<in> set ws. ?w \<le> attributeFields x" "\<forall>x \<in> set ds. ?d \<le> keyFields x"
      using less.prems compareAttribute_key_le
      by (auto simp: ws ds compareAttributeDeleteKey_fields)
    consider "comparable ?w ?d" | "?w < ?d" "\<not> comparable ?w ?d" | "?d < ?w" "\<not> comparable ?w ?d"
      by (metis comparable_refl neqE)
    then show ?thesis
    proof cases
      case 1
      then show ?thesis
        by (auto simp: ws ds attributeWriteDeleteConflict_step simp del: attributeWriteDeleteConflict.simps)
    next
      case 2
      then have "\<forall>x \<in> set ds. \<not> comparable ?w (keyFields x)"
        using le(2) comparable_contiguous [of ?w ?d, OF less_imp_le] by blast
      with 2 less.hyps [of ws' ds] less.prems show ?thesis
        by (simp add: ws ds attributeWriteDeleteConflict_step del: attributeWriteDeleteConflict.simps)
    next
      case 3
      then have "\<forall>x \<in> set ws. \<not> comparable (attributeFields x) ?d"
        using le(1) comparable_contiguous [of ?d ?w, OF less_imp_le] comparable_sym by blast
      with 3 less.hyps [of ws ds'] less.prems less_not_sym [OF 3(1)] show ?thesis
        by (simp add: ws ds attributeWriteDeleteConflict_step del: attributeWriteDeleteConflict.simps)
    qed
  qed
qed

section \<open>Costs\<close>

definition valueBytes :: "Value \<Rightarrow> int" where
  "valueBytes v = 9 + (if va_kind v = ValueKindString then int (length (va_text v)) else 0)"

definition entityBytes :: "EntityRef \<Rightarrow> int" where
  "entityBytes e = textBytes (er_Type e) + textBytes (er_ID e)"

definition tupleBytes :: "Tuple \<Rightarrow> int" where
  "tupleBytes t = entityBytes (tu_Resource t) + textBytes (tu_Relation t) +
     textBytes (sr_Type (tu_Subject t)) + textBytes (sr_ID (tu_Subject t)) +
     textBytes (sr_Relation (tu_Subject t))"

definition relationshipBytes :: "RelationshipTuple \<Rightarrow> int" where
  "relationshipBytes t = tupleBytes (rt_tuple t) + 9 + (if rt_hasExpiry t then 48 else 0)"

definition attributeBytes :: "Attribute \<Rightarrow> int" where
  "attributeBytes a = entityBytes (at_entity a) + textsBytes (at_path a) + valueBytes (at_value a)"

definition attributeKeyBytes :: "AttributeKey \<Rightarrow> int" where
  "attributeKeyBytes k = entityBytes (ak_entity k) + textsBytes (ak_path k)"

definition contextualBytes :: "ContextualData \<Rightarrow> int" where
  "contextualBytes d = 16 + sum_list (map relationshipBytes (cd_tuples d)) +
     sum_list (map attributeBytes (cd_attributes d))"

definition writeBytes :: "WriteDataRequest \<Rightarrow> int" where
  "writeBytes r = textBytes (wr_namespace r) + textBytes (wr_validationRevisionID r) +
     textBytes (wr_idempotencyKey r) + 48 + sum_list (map relationshipBytes (wr_tupleWrites r)) +
     sum_list (map (\<lambda>k. tupleBytes (tk_tuple k)) (wr_tupleDeletes r)) +
     sum_list (map attributeBytes (wr_attributeWrites r)) +
     sum_list (map attributeKeyBytes (wr_attributeDeletes r))"

lemma bytes_nonneg [simp]: "0 \<le> valueBytes v" "0 \<le> entityBytes e" "0 \<le> tupleBytes t"
    "0 \<le> relationshipBytes rt" "0 \<le> attributeBytes a" "0 \<le> attributeKeyBytes k"
proof -
  show "0 \<le> valueBytes v"
    by (simp add: valueBytes_def)
  show e: "0 \<le> entityBytes e" for e
    by (simp add: entityBytes_def)
  then show t: "0 \<le> tupleBytes t" for t
    by (simp add: tupleBytes_def)
  then show "0 \<le> relationshipBytes rt"
    by (simp add: relationshipBytes_def add_nonneg_nonneg)
  show "0 \<le> attributeBytes a"
    using e [of "at_entity a"] by (simp add: attributeBytes_def valueBytes_def add_nonneg_nonneg)
  show "0 \<le> attributeKeyBytes k"
    using e [of "ak_entity k"] by (simp add: attributeKeyBytes_def)
qed

lemma budgetAdd_eachB_bind:
  assumes "\<And>b x. f b x = budgetAdd b (c x)" and "\<And>x. 0 \<le> c x" and "0 \<le> m"
  shows "bindR (budgetAdd b m) (\<lambda>b'. bindR (eachB f b' xs) k) =
    bindR (budgetAdd b (m + sum_list (map c xs))) k"
  using budgetAdd_eachB [of f c m b xs] assms by (simp flip: bindR_assoc)

lemma addValueCost_eq [charge_simps]: "addValueCost b v = budgetAdd b (valueBytes v)"
  by (cases "va_kind v = ValueKindString")
    (simp_all add: addValueCost_def valueBytes_def cost_consts budgetAdd_seq)

lemma addEntityRefCost_eq [charge_simps]: "addEntityRefCost b e = budgetAdd b (entityBytes e)"
  by (simp add: addEntityRefCost_def entityBytes_def charge_simps budgetAdd_seq)

lemma addTupleCost_eq [charge_simps]: "addTupleCost b t = budgetAdd b (tupleBytes t)"
  by (simp add: addTupleCost_def addSubjectRefCost_def tupleBytes_def charge_simps budgetAdd_seq
      budgetAdd_bind add.assoc)

lemma addRelationshipTupleCost_eq [charge_simps]:
  "addRelationshipTupleCost b t = budgetAdd b (relationshipBytes t)"
  by (cases "rt_hasExpiry t")
    (simp_all add: addRelationshipTupleCost_def relationshipBytes_def charge_simps cost_consts
      budgetAdd_seq budgetAdd_bind add.commute)

lemma addAttributeCost_eq [charge_simps]: "addAttributeCost b a = budgetAdd b (attributeBytes a)"
  by (simp add: addAttributeCost_def attributeBytes_def charge_simps budgetAdd_seq budgetAdd_bind
      add.assoc)

lemma addAttributeKeyCost_eq [charge_simps]:
  "addAttributeKeyCost b k = budgetAdd b (attributeKeyBytes k)"
  by (simp add: addAttributeKeyCost_def attributeKeyBytes_def charge_simps budgetAdd_seq)

lemma addContextualDataCost_eq [charge_simps]:
  "addContextualDataCost b d = budgetAdd b (contextualBytes d)"
  by (simp add: addContextualDataCost_def contextualBytes_def budgetAddMany_eq cost_consts
      budgetAdd_eachB_bind [OF addRelationshipTupleCost_eq] budgetAdd_eachB [OF addAttributeCost_eq]
      sum_list_nonneg_map)

lemma addWriteDataRequestCost_eq [charge_simps]:
  "addWriteDataRequestCost b r = budgetAdd b (writeBytes r)"
proof -
  let ?texts = "textBytes (wr_namespace r) + (textBytes (wr_validationRevisionID r) +
    textBytes (wr_idempotencyKey r))"
  have "eachB addTextCost b [wr_namespace r, wr_validationRevisionID r, wr_idempotencyKey r] =
      budgetAdd b ?texts"
    by (simp add: charge_simps budgetAdd_seq budgetAdd_bind add.assoc)
  then show ?thesis
    by (simp add: addWriteDataRequestCost_def writeBytes_def budgetAddMany_eq cost_consts
        addFixedFieldCost_eq budgetAdd_bind budgetAdd_seq
        budgetAdd_eachB_bind [OF addRelationshipTupleCost_eq]
        budgetAdd_eachB_bind [where f = "\<lambda>b k. addTupleCost b (tk_tuple k)", OF addTupleCost_eq]
        budgetAdd_eachB_bind [OF addAttributeCost_eq] budgetAdd_eachB [OF addAttributeKeyCost_eq]
        sum_list_nonneg_map add.assoc)
qed

section \<open>Write requests\<close>

definition mutationItems :: "WriteDataRequest \<Rightarrow> nat" where
  "mutationItems r = length (wr_tupleWrites r) + length (wr_tupleDeletes r) +
     length (wr_attributeWrites r) + length (wr_attributeDeletes r)"

lemma mutationBudget_Inr_iff:
  "mutationBudget r = Inr m \<longleftrightarrow>
     mutationItems r \<le> MaxMutationItems \<and>
     m = (newBudget MaxMutationItems)\<lparr>bc_used := int (mutationItems r)\<rparr>"
proof -
  have "mutationBudget r = budgetAdd (newBudget MaxMutationItems) (int (mutationItems r))"
    by (simp add: mutationBudget_def mutationItems_def budgetAdd_bind budgetAdd_seq add.assoc)
  then show ?thesis
    by (simp add: budgetAdd_Inr_iff)
qed

text \<open>What a write request carries: its four lists as sets of data, free of conflicts.\<close>

definition coherentMutations :: "WriteDataRequest \<Rightarrow> bool" where
  "coherentMutations r =
     (noClash (\<lambda>a b. rt_tuple a = rt_tuple b) (set (wr_tupleWrites r)) \<and>
      noClash (\<lambda>a b. comparable (attributeFields a) (attributeFields b)) (set (wr_attributeWrites r)) \<and>
      noClash (\<lambda>a b. comparable (keyFields a) (keyFields b)) (set (wr_attributeDeletes r)) \<and>
      (\<forall>w \<in> set (wr_tupleWrites r). \<forall>d \<in> set (wr_tupleDeletes r). rt_tuple w \<noteq> tk_tuple d) \<and>
      (\<forall>w \<in> set (wr_attributeWrites r). \<forall>d \<in> set (wr_attributeDeletes r).
         \<not> comparable (attributeFields w) (keyFields d)))"

definition validMutations :: "WriteDataRequest \<Rightarrow> bool" where
  "validMutations r =
     (0 < mutationItems r \<and> validRevisionIDString (wr_validationRevisionID r) \<and>
      validNamespace (wr_namespace r) \<and> validIdentifier (wr_idempotencyKey r) \<and>
      (\<forall>v \<in> set (wr_tupleWrites r). validRelationshipTuple v) \<and>
      (\<forall>v \<in> set (wr_tupleDeletes r). validTupleKey v) \<and>
      (\<forall>v \<in> set (wr_attributeWrites r). validAttribute v) \<and>
      (\<forall>v \<in> set (wr_attributeDeletes r). validAttributeKey v))"

definition sortedMutations :: "WriteDataRequest \<Rightarrow> bool" where
  "sortedMutations r =
     (sorted_wrt (\<lambda>a b. compareRelationshipTuple a b < 0) (wr_tupleWrites r) \<and>
      sorted_wrt (\<lambda>a b. compareTupleKey a b < 0) (wr_tupleDeletes r) \<and>
      sorted_wrt (\<lambda>a b. compareAttribute a b < 0) (wr_attributeWrites r) \<and>
      sorted_wrt (\<lambda>a b. compareAttributeDeleteKey a b < 0) (wr_attributeDeletes r))"

definition fitsMutations :: "WriteDataRequest \<Rightarrow> bool" where
  "fitsMutations r =
     (mutationItems r \<le> MaxMutationItems \<and> writeBytes r \<le> int MaxAggregateInputBytes)"

text \<open>\<open>s\<close> is \<open>r\<close> with the same mutations, listed in any order and multiplicity.\<close>

definition sameMutations :: "WriteDataRequest \<Rightarrow> WriteDataRequest \<Rightarrow> bool" where
  "sameMutations r s =
     (wr_namespace s = wr_namespace r \<and> wr_validationRevisionID s = wr_validationRevisionID r \<and>
      wr_expectedGeneration s = wr_expectedGeneration r \<and>
      wr_idempotencyKey s = wr_idempotencyKey r \<and>
      set (wr_tupleWrites s) = set (wr_tupleWrites r) \<and>
      set (wr_tupleDeletes s) = set (wr_tupleDeletes r) \<and>
      set (wr_attributeWrites s) = set (wr_attributeWrites r) \<and>
      set (wr_attributeDeletes s) = set (wr_attributeDeletes r))"

lemma writeBytes_nonneg [simp]: "0 \<le> writeBytes r"
  by (simp add: writeBytes_def sum_list_nonneg_map add_nonneg_nonneg)

lemma validWriteDataRequest_iff:
  "validWriteDataRequest r \<longleftrightarrow>
     fitsMutations r \<and> validMutations r \<and> sortedMutations r \<and> coherentMutations r"
proof (cases "mutationItems r \<le> MaxMutationItems")
  case False
  then show ?thesis
    by (auto simp: validWriteDataRequest_def mutationBudget_Inr_iff fitsMutations_def
        split: sum.splits)
next
  case True
  then have m: "mutationBudget r = Inr ((newBudget MaxMutationItems)\<lparr>bc_used := int (mutationItems r)\<rparr>)"
    by (simp add: mutationBudget_Inr_iff)
  have cost: "isOk (addWriteDataRequestCost (newBudget MaxAggregateInputBytes) r) \<longleftrightarrow>
      writeBytes r \<le> int MaxAggregateInputBytes"
    by (simp add: isOk_iff charge_simps budgetAdd_Inr_iff)
  show ?thesis
    using True tupleWriteDeleteConflict_iff [of "wr_tupleWrites r" "wr_tupleDeletes r"]
      attributeWriteDeleteConflict_iff [of "wr_attributeWrites r" "wr_attributeDeletes r"]
    unfolding validWriteDataRequest_def m cost fitsMutations_def validMutations_def
      sortedMutations_def coherentMutations_def validCanonicalRelationshipTuples_iff
      validCanonicalTupleKeys_iff validCanonicalAttributes_iff validCanonicalAttributeKeys_iff
    by simp blast
qed

lemma NewWriteDataRequest_Inr_iff:
  "NewWriteDataRequest r = Inr s \<longleftrightarrow>
     fitsMutations r \<and> validMutations r \<and> coherentMutations r \<and>
     sameMutations r s \<and> sortedMutations s"
proof -
  have upd: "r\<lparr>wr_tupleWrites := tw, wr_tupleDeletes := td, wr_attributeWrites := aw,
        wr_attributeDeletes := ad\<rparr> = s \<longleftrightarrow>
      wr_namespace s = wr_namespace r \<and> wr_validationRevisionID s = wr_validationRevisionID r \<and>
      wr_expectedGeneration s = wr_expectedGeneration r \<and>
      wr_idempotencyKey s = wr_idempotencyKey r \<and> tw = wr_tupleWrites s \<and> td = wr_tupleDeletes s \<and>
      aw = wr_attributeWrites s \<and> ad = wr_attributeDeletes s" for tw td aw ad
    by (auto intro: WriteDataRequest.equality)
  have canon: "canonicalRelationshipTuples xs = Inr ys \<longleftrightarrow>
      sorted_wrt (\<lambda>a b. compareRelationshipTuple a b < 0) ys \<and> set ys = set xs \<and>
      noClash (\<lambda>a b. rt_tuple a = rt_tuple b) (set xs)"
    "canonicalAttributes as = Inr bs \<longleftrightarrow>
      sorted_wrt (\<lambda>a b. compareAttribute a b < 0) bs \<and> set bs = set as \<and>
      noClash (\<lambda>a b. comparable (attributeFields a) (attributeFields b)) (set as)"
    "canonicalAttributeKeys ks = Inr ls \<longleftrightarrow>
      sorted_wrt (\<lambda>a b. compareAttributeDeleteKey a b < 0) ls \<and> set ls = set ks \<and>
      noClash (\<lambda>a b. comparable (keyFields a) (keyFields b)) (set ks)" for xs ys as bs ks ls
    by (simp_all add: canonical_defs rt_slice.canonical_Inr_iff at_slice.canonical_Inr_iff
        ak_slice.canonical_Inr_iff)
  have "NewWriteDataRequest r = Inr s \<longleftrightarrow>
      fitsMutations r \<and> validMutations r \<and>
      (\<exists>tw aw ad. canonicalRelationshipTuples (wr_tupleWrites r) = Inr tw \<and>
         canonicalAttributes (wr_attributeWrites r) = Inr aw \<and>
         canonicalAttributeKeys (wr_attributeDeletes r) = Inr ad \<and>
         \<not> tupleWriteDeleteConflict tw (canonicalTupleKeys (wr_tupleDeletes r)) \<and>
         \<not> attributeWriteDeleteConflict aw ad \<and>
         r\<lparr>wr_tupleWrites := tw, wr_tupleDeletes := canonicalTupleKeys (wr_tupleDeletes r),
           wr_attributeWrites := aw, wr_attributeDeletes := ad\<rparr> = s)"
    unfolding NewWriteDataRequest_def
    by (simp add: mutationBudget_Inr_iff charge_simps budgetAdd_Inr_iff fitsMutations_def
        validMutations_def validNamespace_def validIdentifier_def isOk_Inr_unit Let_def) blast
  also have "\<dots> \<longleftrightarrow> fitsMutations r \<and> validMutations r \<and> coherentMutations r \<and>
     sameMutations r s \<and> sortedMutations s"
  proof (cases "sortedMutations s \<and> sameMutations r s")
    case True
    then have "canonicalTupleKeys (wr_tupleDeletes r) = wr_tupleDeletes s"
      by (simp add: canonicalTupleKeys_iff sortedMutations_def sameMutations_def)
    then show ?thesis
      using True tupleWriteDeleteConflict_iff [of "wr_tupleWrites s" "wr_tupleDeletes s"]
        attributeWriteDeleteConflict_iff [of "wr_attributeWrites s" "wr_attributeDeletes s"]
      unfolding upd canon coherentMutations_def sameMutations_def sortedMutations_def
      by auto
  next
    case False
    then show ?thesis
      unfolding upd canon canonicalTupleKeys_iff sameMutations_def sortedMutations_def by blast
  qed
  finally show ?thesis .
qed

lemma sum_list_distinct_le:
  fixes c :: "'a \<Rightarrow> int"
  assumes "distinct ys" and "set ys = set xs" and "\<And>x. 0 \<le> c x"
  shows "sum_list (map c ys) \<le> sum_list (map c xs)"
proof -
  have "sum c (set xs) \<le> sum_list (map c xs)" for xs
    by (induction xs) (auto simp: assms(3) insert_absorb sum.insert_if intro: add_increasing)
  then show ?thesis
    using assms(1,2) by (simp add: sum_list_distinct_conv_sum_set)
qed

lemma sum_list_mset_cong:
  fixes c :: "'a \<Rightarrow> int"
  shows "mset xs = mset ys \<Longrightarrow> sum_list (map c xs) = sum_list (map c ys)"
  by (metis mset_map sum_mset_sum_list)

lemma sortedMutations_distinct:
  assumes "sortedMutations s"
  shows "distinct (wr_tupleWrites s)" "distinct (wr_tupleDeletes s)"
    "distinct (wr_attributeWrites s)" "distinct (wr_attributeDeletes s)"
  using assms rt_cmp.sorted_less_distinct tk_cmp.sorted_less_distinct at_cmp.sorted_less_distinct
    ak_cmp.sorted_less_distinct by (auto simp: sortedMutations_def)

lemma fitsMutations_canonical:
  assumes "sameMutations r s" and "sortedMutations s" and "fitsMutations r"
  shows "fitsMutations s"
proof -
  note d = sortedMutations_distinct [OF assms(2)]
  have "length (wr_tupleWrites s) \<le> length (wr_tupleWrites r)"
    "length (wr_tupleDeletes s) \<le> length (wr_tupleDeletes r)"
    "length (wr_attributeWrites s) \<le> length (wr_attributeWrites r)"
    "length (wr_attributeDeletes s) \<le> length (wr_attributeDeletes r)"
    using assms(1) d by (auto simp: sameMutations_def card_length simp flip: distinct_card)
  moreover have "writeBytes s \<le> writeBytes r"
    using assms(1) sum_list_distinct_le [OF d(1), of _ relationshipBytes]
      sum_list_distinct_le [OF d(2), of _ "\<lambda>k. tupleBytes (tk_tuple k)"]
      sum_list_distinct_le [OF d(3), of _ attributeBytes]
      sum_list_distinct_le [OF d(4), of _ attributeKeyBytes]
    unfolding writeBytes_def sameMutations_def by (simp add: add_mono)
  ultimately show ?thesis
    using assms(3) by (simp add: fitsMutations_def mutationItems_def)
qed

lemma sameMutations_transfer:
  assumes "sameMutations r s"
  shows "validMutations s \<longleftrightarrow> validMutations r" and "coherentMutations s \<longleftrightarrow> coherentMutations r"
proof -
  have "0 < mutationItems s \<longleftrightarrow> 0 < mutationItems r"
    using assms by (simp add: mutationItems_def sameMutations_def flip: set_empty)
  then show "validMutations s \<longleftrightarrow> validMutations r"
    using assms by (simp add: validMutations_def sameMutations_def)
  show "coherentMutations s \<longleftrightarrow> coherentMutations r"
    using assms by (simp add: coherentMutations_def sameMutations_def)
qed

lemma canonicalMutations_exist:
  assumes "coherentMutations r"
  obtains s where "sameMutations r s" and "sortedMutations s"
proof -
  obtain tw where tw: "canonicalRelationshipTuples (wr_tupleWrites r) = Inr tw"
    using assms rt_slice.canonical_Inl_iff [of "wr_tupleWrites r"]
    by (cases "canonicalRelationshipTuples (wr_tupleWrites r)")
      (auto simp: coherentMutations_def canonical_defs)
  obtain aw where aw: "canonicalAttributes (wr_attributeWrites r) = Inr aw"
    using assms at_slice.canonical_Inl_iff [of "wr_attributeWrites r"]
    by (cases "canonicalAttributes (wr_attributeWrites r)")
      (auto simp: coherentMutations_def canonical_defs)
  obtain ad where ad: "canonicalAttributeKeys (wr_attributeDeletes r) = Inr ad"
    using assms ak_slice.canonical_Inl_iff [of "wr_attributeDeletes r"]
    by (cases "canonicalAttributeKeys (wr_attributeDeletes r)")
      (auto simp: coherentMutations_def canonical_defs)
  from tw aw ad have "sameMutations r (r\<lparr>wr_tupleWrites := tw,
        wr_tupleDeletes := canonicalTupleKeys (wr_tupleDeletes r),
        wr_attributeWrites := aw, wr_attributeDeletes := ad\<rparr>)"
    "sortedMutations (r\<lparr>wr_tupleWrites := tw,
        wr_tupleDeletes := canonicalTupleKeys (wr_tupleDeletes r),
        wr_attributeWrites := aw, wr_attributeDeletes := ad\<rparr>)"
    by (simp_all add: canonicalTupleKeys_spec canonical_defs rt_slice.canonical_Inr_iff at_slice.canonical_Inr_iff
        ak_slice.canonical_Inr_iff sameMutations_def sortedMutations_def)
  then show ?thesis by (rule that)
qed

section \<open>A sample request\<close>

definition sampleTuple :: "string \<Rightarrow> RelationshipTuple" where
  "sampleTuple user =
     \<lparr>rt_tuple = \<lparr>tu_Resource = \<lparr>er_Type = ''doc'', er_ID = ''d1''\<rparr>, tu_Relation = ''viewer'',
        tu_Subject = \<lparr>sr_Type = ''user'', sr_ID = user, sr_Relation = []\<rparr>\<rparr>,
      rt_expiresAt = 0, rt_hasExpiry = False\<rparr>"

definition sampleAttribute :: "string \<Rightarrow> Attribute" where
  "sampleAttribute field =
     \<lparr>at_entity = \<lparr>er_Type = ''doc'', er_ID = ''d1''\<rparr>, at_path = [''meta'', field],
      at_value = NewBooleanValue True\<rparr>"

definition sampleRequest :: WriteDataRequest where
  "sampleRequest =
     \<lparr>wr_namespace = ''acme'', wr_validationRevisionID = replicate 64 (CHR ''a''),
      wr_expectedGeneration = 0, wr_idempotencyKey = ''k1'',
      wr_tupleWrites = [sampleTuple ''bob'', sampleTuple ''ann'', sampleTuple ''bob''],
      wr_tupleDeletes = [], wr_attributeWrites = [sampleAttribute ''b'', sampleAttribute ''a''],
      wr_attributeDeletes = []\<rparr>"

definition sampleCanonical :: WriteDataRequest where
  "sampleCanonical =
     sampleRequest\<lparr>wr_tupleWrites := [sampleTuple ''ann'', sampleTuple ''bob''],
       wr_attributeWrites := [sampleAttribute ''a'', sampleAttribute ''b'']\<rparr>"

lemmas sample_defs = sampleRequest_def sampleCanonical_def sampleTuple_def sampleAttribute_def

lemma sample_texts:
  "validateIdentifier ''doc'' = Inr ()" "validateIdentifier ''d1'' = Inr ()"
  "validateIdentifier ''viewer'' = Inr ()" "validateIdentifier ''user'' = Inr ()"
  "validateIdentifier ''ann'' = Inr ()" "validateIdentifier ''bob'' = Inr ()"
  "validateIdentifier ''k1'' = Inr ()" "validateOptionalIdentifier [] = Inr ()"
  "validateNamespace ''acme'' = Inr ()"
  by (simp_all add: validateIdentifier_def validateOptionalIdentifier_def validateNamespace_def
      validateText_ascii limit_defs)

lemma sample_paths:
  "validateAttributePath [''meta'', ''a''] = Inr ()" "validateAttributePath [''meta'', ''b''] = Inr ()"
  by (simp_all add: validateAttributePath_Inr_iff limit_defs textsBytes_def textBytes_def
      isDSLIdentifierStart_def char_le_of_char)

lemma sample_fits: "fitsMutations sampleRequest"
  by (simp add: fitsMutations_def mutationItems_def writeBytes_def relationshipBytes_def
      attributeBytes_def entityBytes_def valueBytes_def tupleBytes_def textsBytes_def textBytes_def
      sample_defs NewBooleanValue_def value_kinds limit_defs)

lemma sample_valid: "validMutations sampleRequest"
  by (simp add: validMutations_def mutationItems_def sample_defs validRelationshipTuple_def
      validateDSLRelationship_def validateEntityRef_def validateSubjectRef_def sample_texts
      isZeroTime_def validAttribute_def sample_paths validateValue_def validValue_def
      NewBooleanValue_def value_kinds validNamespace_def validIdentifier_def
      validRevisionIDString_def list_all_iff char_le_of_char)

lemma sample_coherent: "coherentMutations sampleRequest"
  by (simp add: coherentMutations_def noClash_def sample_defs comparable_def pathKey_def)

lemma sample_canonical: "sameMutations sampleRequest sampleCanonical" "sortedMutations sampleCanonical"
  by (simp_all add: sameMutations_def sortedMutations_def sample_defs insert_commute
      compareRelationshipTuple_def compareTuple_def compareAttribute_def compareAttributeKey_def
      less_char_def)

lemma sample_accepted: "NewWriteDataRequest sampleRequest = Inr sampleCanonical"
  by (simp add: NewWriteDataRequest_Inr_iff sample_fits sample_valid sample_coherent sample_canonical)

section \<open>Properties\<close>

text \<open>
  C2: A write request is accepted exactly when its total mutation count and byte cost fit, every
  datum and field is valid, and no two mutations conflict: no tuple with two expiries, no two
  attributes at the same or at prefix-related paths, no deletion that meets a write.
\<close>

theorem NewWriteDataRequest_accepts_iff:
  "(\<exists>s. NewWriteDataRequest r = Inr s) \<longleftrightarrow>
     fitsMutations r \<and> validMutations r \<and> coherentMutations r"
  using canonicalMutations_exist [of r] by (metis NewWriteDataRequest_Inr_iff)

text \<open>
  C1: An accepted write request is the canonical form of its input: the same mutations, each slice
  strictly sorted; it passes the re-validation a store performs, and constructing it again returns
  it unchanged.
\<close>

theorem NewWriteDataRequest_canonical:
  assumes "NewWriteDataRequest r = Inr s"
  shows "sameMutations r s \<and> sortedMutations s \<and> validWriteDataRequest s \<and>
    NewWriteDataRequest s = Inr s"
proof -
  have s: "fitsMutations r" "validMutations r" "coherentMutations r" "sameMutations r s"
    "sortedMutations s"
    using assms by (simp_all add: NewWriteDataRequest_Inr_iff)
  then have "fitsMutations s" "validMutations s" "coherentMutations s" "sameMutations s s"
    by (simp_all add: fitsMutations_canonical sameMutations_transfer)
       (simp add: sameMutations_def)
  with s show ?thesis
    by (simp add: NewWriteDataRequest_Inr_iff validWriteDataRequest_iff)
qed

theorem NewWriteDataRequest_canonical_witness:
  "NewWriteDataRequest sampleRequest = Inr sampleCanonical \<and>
   validWriteDataRequest sampleCanonical \<and> NewWriteDataRequest sampleCanonical = Inr sampleCanonical"
  using NewWriteDataRequest_canonical [OF sample_accepted] sample_accepted by simp

text \<open>
  C3: The outcome of constructing a write request, its error category included, does not depend on
  the order in which the caller lists the mutations.
\<close>

theorem NewWriteDataRequest_order_independent:
  assumes "mset tw' = mset (wr_tupleWrites r)" and "mset td' = mset (wr_tupleDeletes r)"
    and "mset aw' = mset (wr_attributeWrites r)" and "mset ad' = mset (wr_attributeDeletes r)"
  shows "NewWriteDataRequest (r\<lparr>wr_tupleWrites := tw', wr_tupleDeletes := td',
      wr_attributeWrites := aw', wr_attributeDeletes := ad'\<rparr>) = NewWriteDataRequest r"
proof -
  let ?s = "r\<lparr>wr_tupleWrites := tw', wr_tupleDeletes := td', wr_attributeWrites := aw',
    wr_attributeDeletes := ad'\<rparr>"
  have sets: "set tw' = set (wr_tupleWrites r)" "set td' = set (wr_tupleDeletes r)"
    "set aw' = set (wr_attributeWrites r)" "set ad' = set (wr_attributeDeletes r)"
    using assms [THEN mset_eq_setD] by blast+
  have lens: "length tw' = length (wr_tupleWrites r)" "length td' = length (wr_tupleDeletes r)"
    "length aw' = length (wr_attributeWrites r)" "length ad' = length (wr_attributeDeletes r)"
    using assms [THEN mset_eq_length] by blast+
  have budget: "mutationBudget ?s = mutationBudget r"
    by (simp add: mutationBudget_def lens)
  have bytes: "writeBytes ?s = writeBytes r"
    by (simp add: writeBytes_def sum_list_mset_cong [OF assms(1)] sum_list_mset_cong [OF assms(2)]
        sum_list_mset_cong [OF assms(3)] sum_list_mset_cong [OF assms(4)])
  have canon: "canonicalTupleKeys td' = canonicalTupleKeys (wr_tupleDeletes r)"
    "canonicalRelationshipTuples tw' = canonicalRelationshipTuples (wr_tupleWrites r)"
    "canonicalAttributes aw' = canonicalAttributes (wr_attributeWrites r)"
    "canonicalAttributeKeys ad' = canonicalAttributeKeys (wr_attributeDeletes r)"
    using rt_slice.canonical_set_cong [OF sets(1)] at_slice.canonical_set_cong [OF sets(3)]
      ak_slice.canonical_set_cong [OF sets(4)]
    by (simp_all add: canonicalTupleKeys_iff canonicalTupleKeys_spec sets canonical_defs)
  show ?thesis
    unfolding NewWriteDataRequest_def eachR_require addWriteDataRequestCost_eq budget bytes
    by (simp add: canon sets cong: if_cong split del: if_split)
qed

theorem NewWriteDataRequest_order_independent_witness:
  "NewWriteDataRequest (sampleRequest\<lparr>wr_tupleWrites := rev (wr_tupleWrites sampleRequest),
      wr_tupleDeletes := [], wr_attributeWrites := rev (wr_attributeWrites sampleRequest),
      wr_attributeDeletes := []\<rparr>) = NewWriteDataRequest sampleRequest"
  by (rule NewWriteDataRequest_order_independent) (simp_all add: sampleRequest_def)

text \<open>
  C10: The merge that compares writes with deletes pairwise in order reports a conflict exactly when
  some written attribute lies at, above or below some deleted path of the same entity.
\<close>

theorem attributeWriteDeleteConflict_complete:
  assumes "sorted_wrt (\<lambda>a b. compareAttribute a b < 0) ws"
    and "sorted_wrt (\<lambda>a b. compareAttributeDeleteKey a b < 0) ds"
  shows "attributeWriteDeleteConflict ws ds \<longleftrightarrow>
    (\<exists>w \<in> set ws. \<exists>d \<in> set ds. at_entity w = ak_entity d \<and>
       (prefix (at_path w) (ak_path d) \<or> prefix (ak_path d) (at_path w)))"
  unfolding attributeWriteDeleteConflict_iff [OF assms] pathKey_comparable ..

theorem attributeWriteDeleteConflict_complete_witness:
  "attributeWriteDeleteConflict [sampleAttribute ''a'', sampleAttribute ''b'']
     [\<lparr>ak_entity = \<lparr>er_Type = ''doc'', er_ID = ''d1''\<rparr>, ak_path = [''meta'', ''b'', ''c'']\<rparr>]"
  by (subst attributeWriteDeleteConflict_complete)
    (simp_all add: sampleAttribute_def compareAttribute_def compareAttributeKey_def less_char_def)

text \<open>
  C11: Sorting and comparing neighbours rejects a slice of attributes exactly when two different
  attributes of it share an entity and a path, or the path of one is a prefix of the other's.
\<close>

theorem canonicalAttributes_rejects_iff:
  "(\<exists>e. canonicalAttributes xs = Inl e) \<longleftrightarrow>
     (\<exists>a \<in> set xs. \<exists>b \<in> set xs. a \<noteq> b \<and> at_entity a = at_entity b \<and> prefix (at_path a) (at_path b))"
  unfolding canonicalAttributes_def at_slice.canonical_Inl_iff noClash_def pathKey_comparable
  by (simp, metis)


end
