(* ===== verification/Store_Types.thy ===== *)
theory Store_Types
  imports Policy Auth_Canonical
begin

text \<open>
  The adapter-independent storage contracts of store/: revision candidates and verified records
  (store/revisions.go), snapshot requests, tuple queries and results, attribute results
  (store/data.go) and the mapping of contexts to errors (store/store.go). The DSL module and
  SHA-256 are parameters.
\<close>

section \<open>Contexts (store/store.go)\<close>

text \<open>What an operation sees of its context at one observation.\<close>

datatype ContextState = CtxNil | CtxLive | CtxDeadlineExceeded | CtxCanceled | CtxPanics

definition ContextError :: "ContextState \<Rightarrow> check" where
  "ContextError c =
     (case c of
        CtxNil \<Rightarrow> Inl ErrorInvalidArgument
      | CtxDeadlineExceeded \<Rightarrow> Inl ErrorDeadlineExceeded
      | CtxCanceled \<Rightarrow> Inl ErrorCanceled
      | CtxPanics \<Rightarrow> Inl ErrorInternal
      | CtxLive \<Rightarrow> Inr ())"

section \<open>Revisions (store/revisions.go)\<close>

definition zeroDigest :: bytes where
  "zeroDigest = replicate 32 0"

record RevisionProvenance =
  rp_sourceName :: string
  rp_originalSource :: bytes
  rp_originalSourceDigest :: bytes
  rp_valid :: bool

definition zeroProvenance :: RevisionProvenance where
  "zeroProvenance =
     \<lparr>rp_sourceName = [], rp_originalSource = [], rp_originalSourceDigest = zeroDigest,
      rp_valid = False\<rparr>"

definition NewRevisionProvenance ::
  "(bytes \<Rightarrow> bytes) \<Rightarrow> PublishRequest \<Rightarrow> RevisionProvenance result" where
  "NewRevisionProvenance sha256 request =
     bindR (NewPublishRequest (pr_namespace request) (pr_sourceName request) (pr_source request))
       (\<lambda>_. Inr \<lparr>rp_sourceName = pr_sourceName request, rp_originalSource = pr_source request,
                 rp_originalSourceDigest = sha256 (pr_source request), rp_valid = True\<rparr>)"

definition validProvenance :: "(bytes \<Rightarrow> bytes) \<Rightarrow> RevisionProvenance \<Rightarrow> bool" where
  "validProvenance sha256 p =
     (if \<not> rp_valid p \<or> rp_originalSource p = [] \<or>
         sha256 (rp_originalSource p) \<noteq> rp_originalSourceDigest p then False
      else isOk (NewPublishRequest ''provenance'' (rp_sourceName p) (rp_originalSource p)))"

definition provenanceZero :: "RevisionProvenance \<Rightarrow> bool" where
  "provenanceZero p =
     (\<not> rp_valid p \<and> rp_sourceName p = [] \<and> rp_originalSource p = [] \<and>
      rp_originalSourceDigest p = zeroDigest)"

text \<open>RevisionWrite and RevisionRecord have the same fields; Go converts one to the other.\<close>

record RevisionRecord =
  rc_metadata :: RevisionMetadata
  rc_artifact :: bytes
  rc_provenance :: RevisionProvenance

definition validateRevisionMetadata :: "RevisionMetadata \<Rightarrow> check" where
  "validateRevisionMetadata m =
     (if rm_namespace m = [] \<or> rm_ID m = [] \<or> isZeroTime (rm_publishedAt m)
      then Inl ErrorInvalidArgument
      else bindR (NewGetRevisionRequest (rm_namespace m) (rm_ID m))
       (\<lambda>_. bindR (ParseRevisionID (rm_ID m))
       (\<lambda>i. bindR (NewRevisionMetadata (rm_namespace m) i (rm_publishedAt m)) (\<lambda>_. Inr ()))))"

definition NewRevisionWrite ::
  "('art, 'm) Dsl_scheme \<Rightarrow> RevisionMetadata \<Rightarrow> bytes \<Rightarrow> RevisionRecord result" where
  "NewRevisionWrite dsl metadata artifact =
     bindR (validateRevisionMetadata metadata)
       (\<lambda>_. if artifact = [] then Inl ErrorInvalidArgument
             else if length artifact > dsl_DefaultArtifactMaxBytes dsl
             then Inl ErrorResourceExhausted
             else Inr \<lparr>rc_metadata = metadata, rc_artifact = artifact,
                       rc_provenance = zeroProvenance\<rparr>)"

definition NewRevisionWriteWithProvenance ::
  "(bytes \<Rightarrow> bytes) \<Rightarrow> ('art, 'm) Dsl_scheme \<Rightarrow> RevisionMetadata \<Rightarrow> bytes \<Rightarrow> RevisionProvenance
     \<Rightarrow> RevisionRecord result" where
  "NewRevisionWriteWithProvenance sha256 dsl metadata artifact provenance =
     bindR (NewRevisionWrite dsl metadata artifact)
       (\<lambda>write. if \<not> validProvenance sha256 provenance then Inl ErrorInvalidArgument
                else Inr (write\<lparr>rc_provenance := provenance\<rparr>))"

definition validRevisionWrite ::
  "(bytes \<Rightarrow> bytes) \<Rightarrow> ('art, 'm) Dsl_scheme \<Rightarrow> RevisionRecord \<Rightarrow> bool" where
  "validRevisionWrite sha256 dsl w =
     (isOk (validateRevisionMetadata (rc_metadata w)) \<and> rc_artifact w \<noteq> [] \<and>
      length (rc_artifact w) \<le> dsl_DefaultArtifactMaxBytes dsl \<and>
      (provenanceZero (rc_provenance w) \<or> validProvenance sha256 (rc_provenance w)))"

definition verifyRevisionContent :: "('art, 'm) Dsl_scheme \<Rightarrow> RevisionRecord \<Rightarrow> check" where
  "verifyRevisionContent dsl w =
     (case dsl_DecodeArtifact dsl (rc_artifact w) of
        None \<Rightarrow> Inl ErrorIntegrity
      | Some artifact \<Rightarrow>
          (case RevisionIDFromArtifact dsl (Some artifact) of
             Inl _ \<Rightarrow> Inl ErrorIntegrity
           | Inr i \<Rightarrow>
               if revisionIDString i \<noteq> rm_ID (rc_metadata w) then Inl ErrorIntegrity
               else case dsl_MarshalBinary dsl artifact of
                   None \<Rightarrow> Inl ErrorIntegrity
                 | Some canonical \<Rightarrow>
                     if canonical \<noteq> rc_artifact w then Inl ErrorIntegrity else Inr ()))"

definition NewRevisionRecordFromWrite ::
  "(bytes \<Rightarrow> bytes) \<Rightarrow> ('art, 'm) Dsl_scheme \<Rightarrow> RevisionRecord \<Rightarrow> RevisionRecord result" where
  "NewRevisionRecordFromWrite sha256 dsl w =
     (if \<not> validRevisionWrite sha256 dsl w then Inl ErrorInvalidArgument
      else bindR (verifyRevisionContent dsl w) (\<lambda>_. Inr w))"

definition NewRevisionRecord ::
  "(bytes \<Rightarrow> bytes) \<Rightarrow> ('art, 'm) Dsl_scheme \<Rightarrow> RevisionMetadata \<Rightarrow> bytes \<Rightarrow> RevisionRecord result" where
  "NewRevisionRecord sha256 dsl metadata artifact =
     bindR (NewRevisionWrite dsl metadata artifact) (NewRevisionRecordFromWrite sha256 dsl)"

definition validRevisionRecord ::
  "(bytes \<Rightarrow> bytes) \<Rightarrow> ('art, 'm) Dsl_scheme \<Rightarrow> RevisionRecord \<Rightarrow> bool" where
  "validRevisionRecord sha256 dsl r =
     (validRevisionWrite sha256 dsl r \<and> isOk (verifyRevisionContent dsl r))"

record PutRevisionResult =
  pp_record :: RevisionRecord
  pp_created :: bool

definition NewPutRevisionResult ::
  "(bytes \<Rightarrow> bytes) \<Rightarrow> ('art, 'm) Dsl_scheme \<Rightarrow> RevisionRecord \<Rightarrow> bool \<Rightarrow> PutRevisionResult result" where
  "NewPutRevisionResult sha256 dsl record created =
     (if \<not> validRevisionRecord sha256 dsl record then Inl ErrorInvalidArgument
      else Inr \<lparr>pp_record = record, pp_created = created\<rparr>)"

section \<open>Data (store/data.go)\<close>

record SnapshotRequest =
  sq_namespace :: string
  sq_minimumGeneration :: uint64
  sq_readAt :: Time

definition NewSnapshotRequest :: "string \<Rightarrow> uint64 \<Rightarrow> Time \<Rightarrow> SnapshotRequest result" where
  "NewSnapshotRequest namespace minimumGeneration readAt =
     bindR (validateNamespace namespace)
       (\<lambda>_. if isZeroTime readAt then Inl ErrorInvalidArgument
             else Inr \<lparr>sq_namespace = namespace, sq_minimumGeneration = minimumGeneration,
                       sq_readAt = readAt\<rparr>)"

definition validSnapshotRequest :: "SnapshotRequest \<Rightarrow> bool" where
  "validSnapshotRequest r =
     (case NewSnapshotRequest (sq_namespace r) (sq_minimumGeneration r) (sq_readAt r) of
        Inl _ \<Rightarrow> False
      | Inr candidate \<Rightarrow> candidate = r)"

record TupleQuery =
  tq_resource :: EntityRef
  tq_relation :: string
  tq_limit :: int

definition NewTupleQuery :: "EntityRef \<Rightarrow> string \<Rightarrow> int \<Rightarrow> TupleQuery result" where
  "NewTupleQuery resource relation limit =
     (if limit \<le> 0 then Inl ErrorInvalidArgument
      else if limit > int MaxAggregateWorkItems then Inl ErrorResourceExhausted
      else bindR (NewTupleKey \<lparr>tu_Resource = resource, tu_Relation = relation,
                    tu_Subject = \<lparr>sr_Type = ''query'', sr_ID = ''validation'', sr_Relation = []\<rparr>\<rparr>)
        (\<lambda>_. Inr \<lparr>tq_resource = resource, tq_relation = relation, tq_limit = limit\<rparr>))"

definition validTupleQuery :: "TupleQuery \<Rightarrow> bool" where
  "validTupleQuery q =
     (case NewTupleQuery (tq_resource q) (tq_relation q) (tq_limit q) of
        Inl _ \<Rightarrow> False
      | Inr candidate \<Rightarrow> candidate = q)"

text \<open>
  The byte accounting of the results. The closure add refuses a size above the remaining maximum,
  which is what a budget counter with that maximum does.
\<close>

definition addTextBytes :: "budgetCounter \<Rightarrow> string \<Rightarrow> budgetCounter result" where
  "addTextBytes b text = bindR (budgetAdd b 8) (\<lambda>b. budgetAdd b (int (length text)))"

definition validateTupleResultBytes :: "TupleQuery \<Rightarrow> SubjectRef list \<Rightarrow> check" where
  "validateTupleResultBytes q subjects =
     bindR (eachB addTextBytes (newBudget MaxAggregateOutputBytes)
              [er_Type (tq_resource q), er_ID (tq_resource q), tq_relation q])
       (\<lambda>b. bindR (budgetAdd b 8)
       (\<lambda>b. bindR (budgetAdd b 8)
       (\<lambda>b. bindR (budgetAdd b 8)
       (\<lambda>b. bindR (eachB (\<lambda>b s. eachB addTextBytes b [sr_Type s, sr_ID s, sr_Relation s]) b subjects)
       (\<lambda>_. Inr ())))))"

definition compareSubjectRef :: "SubjectRef \<Rightarrow> SubjectRef \<Rightarrow> int" where
  "compareSubjectRef l r =
     thenCmp (cmpCompare (sr_Type l) (sr_Type r))
    (thenCmp (cmpCompare (sr_ID l) (sr_ID r)) (cmpCompare (sr_Relation l) (sr_Relation r)))"

record TupleResult =
  tr_query :: TupleQuery
  tr_subjects :: "SubjectRef list"

definition subjectStep :: "SubjectRef \<Rightarrow> SubjectRef \<Rightarrow> CompactStep" where
  "subjectStep prev s = (if compareSubjectRef prev s = 0 then CompactSkip else CompactKeep)"

text \<open>The compaction never rejects here, so it is total like the loop of the source.\<close>

definition canonicalSubjectRefs :: "SubjectRef list \<Rightarrow> SubjectRef list" where
  "canonicalSubjectRefs subjects =
     (case compactSlice subjectStep [] (sortSlice compareSubjectRef subjects) of
        Inr r \<Rightarrow> r
      | Inl _ \<Rightarrow> [])"

definition NewTupleResult :: "TupleQuery \<Rightarrow> SubjectRef list \<Rightarrow> TupleResult result" where
  "NewTupleResult q subjects =
     (if \<not> validTupleQuery q then Inl ErrorInvalidArgument
      else if int (length subjects) > tq_limit q \<or> length subjects > MaxAggregateWorkItems
      then Inl ErrorResourceExhausted
      else bindR (validateTupleResultBytes q subjects)
       (\<lambda>_. bindR (eachR (\<lambda>s. requireR (isOk (NewRelationshipTuple
                \<lparr>tu_Resource = tq_resource q, tu_Relation = tq_relation q, tu_Subject = s\<rparr> None))
                ErrorIntegrity) subjects)
       (\<lambda>_. Inr \<lparr>tr_query = q, tr_subjects = canonicalSubjectRefs subjects\<rparr>)))"

definition validTupleResult :: "TupleResult \<Rightarrow> bool" where
  "validTupleResult r =
     (case NewTupleResult (tr_query r) (tr_subjects r) of
        Inl _ \<Rightarrow> False
      | Inr candidate \<Rightarrow> tr_query candidate = tr_query r \<and> tr_subjects candidate = tr_subjects r)"

definition validateAttributeResultBytes :: "AttributeKey \<Rightarrow> Value \<Rightarrow> check" where
  "validateAttributeResultBytes key v =
     bindR (addTextBytes (newBudget MaxAggregateOutputBytes) (er_Type (ak_entity key)))
       (\<lambda>b. bindR (addTextBytes b (er_ID (ak_entity key)))
       (\<lambda>b. bindR (budgetAdd b 8)
       (\<lambda>b. bindR (eachB addTextBytes b (ak_path key))
       (\<lambda>b. bindR (budgetAdd b 8)
       (\<lambda>b. bindR (budgetAdd b 1)
       (\<lambda>b. bindR (budgetAdd b 9)
       (\<lambda>b. if va_kind v = ValueKindString
             then bindR (budgetAdd b (int (length (va_text v)))) (\<lambda>_. Inr ()) else Inr ())))))))"

definition zeroValue :: Value where
  "zeroValue = \<lparr>va_kind = 0, va_text = [], va_integer = 0, va_boolean = False\<rparr>"

record AttributeResult =
  as_key :: AttributeKey
  as_value :: Value
  as_found :: bool

definition NewAttributeResult :: "AttributeKey \<Rightarrow> Value \<Rightarrow> bool \<Rightarrow> AttributeResult result" where
  "NewAttributeResult key v found =
     (case NewAttributeKeyPath (ak_entity key) (ak_path key) of
        Inl _ \<Rightarrow> Inl ErrorInvalidArgument
      | Inr canonicalKey \<Rightarrow>
          if \<not> found then
            (if va_kind v \<noteq> 0 then Inl ErrorIntegrity
             else bindR (validateAttributeResultBytes canonicalKey v)
               (\<lambda>_. Inr \<lparr>as_key = canonicalKey, as_value = zeroValue, as_found = False\<rparr>))
          else if \<not> isOk (NewAttributePath (ak_entity canonicalKey) (ak_path canonicalKey) v)
          then Inl ErrorIntegrity
          else bindR (validateAttributeResultBytes canonicalKey v)
            (\<lambda>_. Inr \<lparr>as_key = canonicalKey, as_value = v, as_found = True\<rparr>))"

section \<open>Lemmas\<close>

lemma verifyRevisionContent_Inr_iff:
  "verifyRevisionContent dsl w = Inr () \<longleftrightarrow>
     (\<exists>a. dsl_DecodeArtifact dsl (rc_artifact w) = Some a \<and>
        dsl_MarshalBinary dsl a = Some (rc_artifact w) \<and>
        hexEncode (dsl_Digest dsl a) = rm_ID (rc_metadata w))"
  by (auto simp: verifyRevisionContent_def RevisionIDFromArtifact_def revisionIDString_def
      split: option.splits)

lemma NewRevisionRecordFromWrite_Inr_iff:
  "NewRevisionRecordFromWrite sha256 dsl w = Inr r \<longleftrightarrow> r = w \<and> validRevisionRecord sha256 dsl w"
  by (auto simp: NewRevisionRecordFromWrite_def validRevisionRecord_def isOk_Inr_unit)

lemma validateRevisionMetadata_Inr_iff:
  "validateRevisionMetadata m = Inr () \<longleftrightarrow>
     validRevisionMetadata m \<and> validRevisionIDString (rm_ID m)"
proof -
  have "(\<exists>i. ParseRevisionID s = Inr i \<and> ri_valid i) \<longleftrightarrow> validRevisionIDString s" for s
  proof
    assume "validRevisionIDString s"
    then have s: "length s = 64" "map lowerChar s = s" "\<exists>bs. hexDecode s = Some bs \<and> 2 * length bs = 64"
      using hexDecode_valid [of s] by (auto simp: validRevisionIDString_def)
    then show "\<exists>i. ParseRevisionID s = Inr i \<and> ri_valid i"
      by (auto simp: ParseRevisionID_def)
  next
    assume "\<exists>i. ParseRevisionID s = Inr i \<and> ri_valid i"
    then obtain bs where "hexDecode s = Some bs" "length bs = 32" "map lowerChar s = s"
      by (auto simp: ParseRevisionID_def split: option.splits)
    then show "validRevisionIDString s"
      using hexEncode_hexDecode [of s bs] validRevisionIDString_hex [of bs] by simp
  qed
  note parse = this
  have valid: "ParseRevisionID s = Inr i \<Longrightarrow> ri_valid i" for s i
    by (auto simp: ParseRevisionID_def split: option.splits if_splits)
  have id: "ri_valid (rm_id m)" if "rm_ID m \<noteq> []"
    using that by (auto simp: revisionIDString_def split: if_splits)
  have nonempty: "validRevisionIDString s \<Longrightarrow> s \<noteq> []" for s
    by (auto simp: validRevisionIDString_def)
  show ?thesis
    using parse [of "rm_ID m"] valid [of "rm_ID m"] id nonempty [of "rm_ID m"]
      validNamespace_length [of "rm_namespace m"]
    by (auto simp: validateRevisionMetadata_def NewGetRevisionRequest_def NewRevisionMetadata_Inr_iff
        validRevisionMetadata_iff isZeroTime_def validNamespace_def isOk_Inr_unit)
qed

interpretation sr_cmp: comparator compareSubjectRef
proof -
  have "comparator (\<lambda>l r :: SubjectRef. cmpCompare [sr_Type l, sr_ID l, sr_Relation l]
      [sr_Type r, sr_ID r, sr_Relation r])"
    by (rule comparator_project [OF comparator_cmpCompare])
      (auto simp: inj_def intro: SubjectRef.equality)
  then show "comparator compareSubjectRef"
    by (simp add: compareSubjectRef_def [abs_def] cmpCompare_Cons)
qed

interpretation sr_slice: canonical_slice compareSubjectRef "\<lambda>a b. False" subjectStep
  by unfold_locales (simp_all add: subjectStep_def sr_cmp.cmp_eq)

lemma canonicalSubjectRefs_iff:
  "canonicalSubjectRefs xs = ys \<longleftrightarrow>
     sorted_wrt (\<lambda>a b. compareSubjectRef a b < 0) ys \<and> set ys = set xs"
proof -
  have "noClash (\<lambda>a b. False) (set xs)"
    by (simp add: noClash_def)
  then obtain zs where "compactSlice subjectStep [] (sortSlice compareSubjectRef xs) = Inr zs"
    by (metis old.sum.exhaust sr_slice.canonical_Inl_iff)
  with sr_slice.canonical_Inr_iff [of xs] show ?thesis
    by (simp add: canonicalSubjectRefs_def) (metis sum.inject(2))
qed

lemma canonicalSubjectRefs_spec:
  "sorted_wrt (\<lambda>a b. compareSubjectRef a b < 0) (canonicalSubjectRefs xs)"
  "set (canonicalSubjectRefs xs) = set xs"
  "length (canonicalSubjectRefs xs) \<le> length xs"
proof -
  show s: "sorted_wrt (\<lambda>a b. compareSubjectRef a b < 0) (canonicalSubjectRefs xs)"
    "set (canonicalSubjectRefs xs) = set xs"
    using canonicalSubjectRefs_iff [of xs "canonicalSubjectRefs xs"] by simp_all
  show "length (canonicalSubjectRefs xs) \<le> length xs"
    using sr_cmp.sorted_less_distinct [OF s(1)] s(2) by (metis card_length distinct_card)
qed

definition subjectBytes :: "SubjectRef \<Rightarrow> int" where
  "subjectBytes s = textBytes (sr_Type s) + textBytes (sr_ID s) + textBytes (sr_Relation s)"

definition tupleResultBytes :: "TupleQuery \<Rightarrow> SubjectRef list \<Rightarrow> int" where
  "tupleResultBytes q ss = entityBytes (tq_resource q) + textBytes (tq_relation q) + 24 +
     sum_list (map subjectBytes ss)"

lemma addTextBytes_eq [charge_simps]: "addTextBytes b t = budgetAdd b (textBytes t)"
  by (simp add: addTextBytes_def budgetAdd_seq textBytes_def)

lemma validateTupleResultBytes_Inr_iff:
  "validateTupleResultBytes q ss = Inr () \<longleftrightarrow> tupleResultBytes q ss \<le> int MaxAggregateOutputBytes"
proof -
  have subj: "eachB addTextBytes b [sr_Type s, sr_ID s, sr_Relation s] = budgetAdd b (subjectBytes s)" for b s
    by (simp add: charge_simps budgetAdd_seq budgetAdd_bind subjectBytes_def add.assoc)
  have nonneg: "0 \<le> subjectBytes s" for s
    by (simp add: subjectBytes_def)
  have "validateTupleResultBytes q ss =
      bindR (budgetAdd (newBudget MaxAggregateOutputBytes) (tupleResultBytes q ss)) (\<lambda>_. Inr ())"
    unfolding validateTupleResultBytes_def subj
    by (simp add: charge_simps budgetAdd_seq budgetAdd_bind bindR_assoc tupleResultBytes_def
        entityBytes_def add.assoc budgetAdd_eachB_bind [OF refl nonneg] sum_list_nonneg_map nonneg)
  moreover have "0 \<le> tupleResultBytes q ss"
    by (simp add: tupleResultBytes_def sum_list_nonneg_map nonneg add_nonneg_nonneg)
  ultimately show ?thesis
    by (simp add: budgetAdd_Inr_iff)
qed

section \<open>A sample DSL and revision\<close>

definition sampleDsl :: "bytes Dsl" where
  "sampleDsl =
     \<lparr>dsl_DecodeArtifact = Some, dsl_MarshalBinary = Some, dsl_Digest = (\<lambda>a. take 32 (a @ zeroDigest)),
      dsl_DefaultArtifactMaxBytes = 1024\<rparr>"

definition sampleSha256 :: "bytes \<Rightarrow> bytes" where
  "sampleSha256 bs = take 32 (bs @ zeroDigest)"

definition sampleRevision :: "8 word \<Rightarrow> RevisionRecord" where
  "sampleRevision b =
     \<lparr>rc_metadata = \<lparr>rm_namespace = ''acme'',
        rm_id = \<lparr>ri_digest = b # replicate 31 0, ri_valid = True\<rparr>, rm_publishedAt = 5\<rparr>,
      rc_artifact = [b], rc_provenance = zeroProvenance\<rparr>"

lemma sampleRevision_valid: "validRevisionRecord sampleSha256 sampleDsl (sampleRevision b)"
proof -
  have digest: "take 32 ([b] @ zeroDigest) = b # replicate 31 0"
    by (simp add: zeroDigest_def)
  have "validRevisionIDString (hexEncode (b # replicate 31 0))"
    by (rule validRevisionIDString_hex) simp
  then have "validateRevisionMetadata (rc_metadata (sampleRevision b)) = Inr ()"
    by (simp add: validateRevisionMetadata_Inr_iff validRevisionMetadata_iff sampleRevision_def
        validNamespace_def sample_texts revisionIDString_def)
  moreover have "verifyRevisionContent sampleDsl (sampleRevision b) = Inr ()"
    using digest
    by (simp add: verifyRevisionContent_Inr_iff sampleDsl_def sampleRevision_def revisionIDString_def)
  ultimately show ?thesis
    by (simp add: validRevisionRecord_def validRevisionWrite_def sampleDsl_def sampleRevision_def
        provenanceZero_def zeroProvenance_def)
qed

section \<open>Properties\<close>

text \<open>
  C15: A tuple result carries exactly the subjects the adapter supplied, strictly ordered and without
  duplicates, for the query it answers, and it passes its own validation again.
\<close>

theorem NewTupleResult_canonical:
  assumes "NewTupleResult q ss = Inr r"
  shows "tr_query r = q \<and> set (tr_subjects r) = set ss \<and>
    sorted_wrt (\<lambda>a b. compareSubjectRef a b < 0) (tr_subjects r) \<and> validTupleResult r"
proof -
  let ?c = "canonicalSubjectRefs ss"
  have r: "r = \<lparr>tr_query = q, tr_subjects = ?c\<rparr>" "validTupleQuery q"
    "int (length ss) \<le> tq_limit q" "length ss \<le> MaxAggregateWorkItems"
    "tupleResultBytes q ss \<le> int MaxAggregateOutputBytes"
    "\<forall>s \<in> set ss. isOk (NewRelationshipTuple
       \<lparr>tu_Resource = tq_resource q, tu_Relation = tq_relation q, tu_Subject = s\<rparr> None)"
    using assms by (auto simp: NewTupleResult_def validateTupleResultBytes_Inr_iff not_less)
  note spec = canonicalSubjectRefs_spec [of ss]
  have "canonicalSubjectRefs ?c = ?c"
    by (simp add: canonicalSubjectRefs_iff spec)
  moreover have "tupleResultBytes q ?c \<le> tupleResultBytes q ss"
    using sum_list_distinct_le [OF sr_cmp.sorted_less_distinct [OF spec(1)] spec(2), of subjectBytes]
    by (simp add: tupleResultBytes_def subjectBytes_def)
  ultimately have "NewTupleResult q ?c = Inr r"
    using r spec(2,3)
    by (simp add: NewTupleResult_def validateTupleResultBytes_Inr_iff not_less)
  with r(1) spec show ?thesis
    by (simp add: validTupleResult_def)
qed

theorem NewTupleResult_canonical_witness:
  "\<exists>r. NewTupleResult \<lparr>tq_resource = \<lparr>er_Type = ''doc'', er_ID = ''d1''\<rparr>, tq_relation = ''viewer'',
       tq_limit = 2\<rparr>
     [\<lparr>sr_Type = ''user'', sr_ID = ''bob'', sr_Relation = []\<rparr>,
      \<lparr>sr_Type = ''user'', sr_ID = ''ann'', sr_Relation = []\<rparr>] = Inr r \<and> validTupleResult r"
proof -
  let ?q = "\<lparr>tq_resource = \<lparr>er_Type = ''doc'', er_ID = ''d1''\<rparr>, tq_relation = ''viewer'', tq_limit = 2\<rparr>"
  let ?ss = "[\<lparr>sr_Type = ''user'', sr_ID = ''bob'', sr_Relation = []\<rparr>,
      \<lparr>sr_Type = ''user'', sr_ID = ''ann'', sr_Relation = []\<rparr>]"
  have texts: "validateIdentifier ''query'' = Inr ()" "validateIdentifier ''validation'' = Inr ()"
    by (simp_all add: validateIdentifier_def validateText_ascii limit_defs)
  have "validTupleQuery ?q"
    by (simp add: validTupleQuery_def NewTupleQuery_def NewTupleKey_def validateDSLRelationship_def
        validateEntityRef_def validateSubjectRef_def sample_texts texts limit_defs)
  moreover have "tupleResultBytes ?q ?ss \<le> int MaxAggregateOutputBytes"
    by (simp add: tupleResultBytes_def subjectBytes_def entityBytes_def textBytes_def limit_defs)
  ultimately have "NewTupleResult ?q ?ss = Inr \<lparr>tr_query = ?q, tr_subjects = canonicalSubjectRefs ?ss\<rparr>"
    by (simp add: NewTupleResult_def validateTupleResultBytes_Inr_iff NewRelationshipTuple_def
        validateDSLRelationship_def validateEntityRef_def validateSubjectRef_def sample_texts limit_defs)
  then show ?thesis
    using NewTupleResult_canonical by blast
qed

text \<open>
  C16: A stored revision record is content addressed: its artifact bytes decode to an artifact whose
  canonical encoding is those bytes and whose digest, in hexadecimal, is the declared identifier.
\<close>

theorem RevisionRecord_content_addressed:
  assumes "NewRevisionRecordFromWrite sha256 dsl w = Inr r"
  shows "r = w \<and> (\<exists>a. dsl_DecodeArtifact dsl (rc_artifact r) = Some a \<and>
    dsl_MarshalBinary dsl a = Some (rc_artifact r) \<and>
    rm_ID (rc_metadata r) = hexEncode (dsl_Digest dsl a))"
  using assms
  by (auto simp: NewRevisionRecordFromWrite_Inr_iff validRevisionRecord_def isOk_Inr_unit
      verifyRevisionContent_Inr_iff)

theorem RevisionRecord_content_addressed_witness:
  "\<exists>a. dsl_DecodeArtifact sampleDsl (rc_artifact (sampleRevision 7)) = Some a \<and>
     rm_ID (rc_metadata (sampleRevision 7)) = hexEncode (dsl_Digest sampleDsl a)"
proof -
  have "NewRevisionRecordFromWrite sampleSha256 sampleDsl (sampleRevision 7) = Inr (sampleRevision 7)"
    by (simp add: NewRevisionRecordFromWrite_Inr_iff sampleRevision_valid)
  from RevisionRecord_content_addressed [OF this] show ?thesis by blast
qed

end
