(* ===== verification/Index.thy ===== *)
theory Index
  imports Avl Store_Types
begin

text \<open>
  store/memory/indexed.go: the four ordered indexes of the memory store as instances of the AVL
  tree, the paged walk over revisions, the bucket query over tuples, and the attribute index, which
  is an entity tree of segment tries. The lemmas give each operation's effect on the finite map the
  index represents, and the prefix-freeness the tries enforce.
\<close>

section \<open>Revisions\<close>

record revisionKey =
  rk_publishedAt :: Time
  rk_id :: string

definition compareRevisionKey :: "revisionKey \<Rightarrow> revisionKey \<Rightarrow> int" where
  "compareRevisionKey l r =
     (if rk_publishedAt l < rk_publishedAt r then -1
      else if rk_publishedAt l > rk_publishedAt r then 1
      else cmpCompare (rk_id l) (rk_id r))"

definition revisionKeyFor :: "RevisionRecord \<Rightarrow> revisionKey" where
  "revisionKeyFor record =
     \<lparr>rk_publishedAt = rm_publishedAt (rc_metadata record), rk_id = rm_ID (rc_metadata record)\<rparr>"

type_synonym revisionNode = "(revisionKey, RevisionRecord) node"

definition revisionSet :: "revisionNode \<Rightarrow> RevisionRecord \<Rightarrow> revisionNode" where
  "revisionSet node record = avlSet compareRevisionKey node (revisionKeyFor record) record"

text \<open>
  revisionPage: the captured variables visited, emitted and more, and whatever state the visit
  closure changes, are the walk's state; the flag is the walk's boolean result.
\<close>

record 's pageState =
  pg_visited :: int
  pg_emitted :: int
  pg_more :: bool
  pg_state :: 's

fun revisionWalk :: "revisionKey option \<Rightarrow> int \<Rightarrow> (RevisionRecord \<Rightarrow> 's \<Rightarrow> bool \<times> 's) \<Rightarrow> revisionNode
    \<Rightarrow> 's pageState \<Rightarrow> bool \<times> 's pageState" where
  "revisionWalk after limit visit Nil s = (True, s)"
| "revisionWalk after limit visit (Node l k record r h) s =
     (let s = s\<lparr>pg_visited := pg_visited s + 1\<rparr>
      in if (case after of None \<Rightarrow> False | Some a \<Rightarrow> compareRevisionKey k a \<le> 0)
         then revisionWalk after limit visit r s
         else
           (case revisionWalk after limit visit l s of
              (False, s) \<Rightarrow> (False, s)
            | (True, s) \<Rightarrow>
                if pg_emitted s = limit then (False, s\<lparr>pg_more := True\<rparr>)
                else
                  let s = s\<lparr>pg_emitted := pg_emitted s + 1\<rparr>
                  in (case visit record (pg_state s) of
                        (ok, st) \<Rightarrow>
                          let s = s\<lparr>pg_state := st\<rparr>
                          in if \<not> ok then (False, s) else revisionWalk after limit visit r s)))"

definition revisionPage ::
  "revisionNode \<Rightarrow> revisionKey option \<Rightarrow> int \<Rightarrow> (RevisionRecord \<Rightarrow> 's \<Rightarrow> bool \<times> 's) \<Rightarrow> 's
     \<Rightarrow> 's pageState" where
  "revisionPage root after limit visit st =
     snd (revisionWalk after limit visit root
       \<lparr>pg_visited = 0, pg_emitted = 0, pg_more = False, pg_state = st\<rparr>)"

section \<open>Tuples\<close>

definition compareEntity :: "EntityRef \<Rightarrow> EntityRef \<Rightarrow> int" where
  "compareEntity l r =
     thenCmp (cmpCompare (er_Type l) (er_Type r)) (cmpCompare (er_ID l) (er_ID r))"

definition compareSubject :: "SubjectRef \<Rightarrow> SubjectRef \<Rightarrow> int" where
  "compareSubject l r =
     thenCmp (cmpCompare (sr_Type l) (sr_Type r))
    (thenCmp (cmpCompare (sr_ID l) (sr_ID r)) (cmpCompare (sr_Relation l) (sr_Relation r)))"

definition compareStoredTuple :: "Tuple \<Rightarrow> Tuple \<Rightarrow> int" where
  "compareStoredTuple l r =
     thenCmp (compareEntity (tu_Resource l) (tu_Resource r))
    (thenCmp (cmpCompare (tu_Relation l) (tu_Relation r))
             (compareSubject (tu_Subject l) (tu_Subject r)))"

definition compareTupleBucket :: "Tuple \<Rightarrow> EntityRef \<Rightarrow> string \<Rightarrow> int" where
  "compareTupleBucket t resource relation =
     thenCmp (compareEntity (tu_Resource t) resource) (cmpCompare (tu_Relation t) relation)"

type_synonym tupleNode = "(Tuple, RelationshipTuple) node"

definition tupleSet :: "tupleNode \<Rightarrow> Tuple \<Rightarrow> RelationshipTuple \<Rightarrow> tupleNode" where
  "tupleSet node key val = avlSet compareStoredTuple node key val"

definition tupleDelete :: "tupleNode \<Rightarrow> Tuple \<Rightarrow> tupleNode" where
  "tupleDelete node key = avlDelete compareStoredTuple node key"

text \<open>The visit closure's effects are an explicit state.\<close>

fun queryTupleBucket :: "tupleNode \<Rightarrow> EntityRef \<Rightarrow> string \<Rightarrow> (RelationshipTuple \<Rightarrow> 's \<Rightarrow> bool \<times> 's) \<Rightarrow> 's
    \<Rightarrow> bool \<times> 's" where
  "queryTupleBucket Nil resource relation visit s = (True, s)"
| "queryTupleBucket (Node l k v r h) resource relation visit s =
     (let order = compareTupleBucket k resource relation
      in if order < 0 then queryTupleBucket r resource relation visit s
         else if order > 0 then queryTupleBucket l resource relation visit s
         else
           (case queryTupleBucket l resource relation visit s of
              (False, s) \<Rightarrow> (False, s)
            | (True, s) \<Rightarrow>
                (case visit v s of
                   (False, s) \<Rightarrow> (False, s)
                 | (True, s) \<Rightarrow> queryTupleBucket r resource relation visit s)))"

section \<open>Attributes\<close>

text \<open>
  An attributeTrie holds an optional attribute (the fields attribute and hasValue) and its children,
  indexed by segment. A nil trie pointer is \<open>None\<close>. Where the source passes a path and an index,
  the model passes the rest of the path.
\<close>

datatype attributeTrie = AttributeTrie "Attribute option" "(string, attributeTrie) node"

type_synonym segmentNode = "(string, attributeTrie) node"
type_synonym attributeEntityNode = "(EntityRef, attributeTrie) node"

fun trieValue :: "attributeTrie \<Rightarrow> Attribute option" where
  "trieValue (AttributeTrie v ch) = v"

fun trieChildren :: "attributeTrie \<Rightarrow> segmentNode" where
  "trieChildren (AttributeTrie v ch) = ch"

definition segmentGet :: "segmentNode \<Rightarrow> string \<Rightarrow> attributeTrie option" where
  "segmentGet node segment = avlGet cmpCompare node segment"

definition segmentSet :: "segmentNode \<Rightarrow> string \<Rightarrow> attributeTrie \<Rightarrow> segmentNode" where
  "segmentSet node segment child = avlSet cmpCompare node segment child"

definition segmentDelete :: "segmentNode \<Rightarrow> string \<Rightarrow> segmentNode" where
  "segmentDelete node segment = avlDelete cmpCompare node segment"

definition entityGet :: "attributeEntityNode \<Rightarrow> EntityRef \<Rightarrow> attributeTrie option" where
  "entityGet node entity = avlGet compareEntity node entity"

definition entitySet :: "attributeEntityNode \<Rightarrow> EntityRef \<Rightarrow> attributeTrie \<Rightarrow> attributeEntityNode" where
  "entitySet node entity trie = avlSet compareEntity node entity trie"

definition entityDelete :: "attributeEntityNode \<Rightarrow> EntityRef \<Rightarrow> attributeEntityNode" where
  "entityDelete node entity = avlDelete compareEntity node entity"

definition orEmptyTrie :: "attributeTrie option \<Rightarrow> attributeTrie" where
  "orEmptyTrie node = (case node of None \<Rightarrow> AttributeTrie None Nil | Some t \<Rightarrow> t)"

fun trieSet :: "attributeTrie option \<Rightarrow> string list \<Rightarrow> Attribute \<Rightarrow> attributeTrie option" where
  "trieSet node [] a =
     (if trieChildren (orEmptyTrie node) \<noteq> Nil then None
      else Some (AttributeTrie (Some a) (trieChildren (orEmptyTrie node))))"
| "trieSet node (segment # path) a =
     (if trieValue (orEmptyTrie node) \<noteq> None then None
      else case trieSet (segmentGet (trieChildren (orEmptyTrie node)) segment) path a of
          None \<Rightarrow> None
        | Some updated \<Rightarrow>
            Some (AttributeTrie (trieValue (orEmptyTrie node))
              (segmentSet (trieChildren (orEmptyTrie node)) segment updated)))"

fun trieGet :: "attributeTrie option \<Rightarrow> string list \<Rightarrow> Attribute option" where
  "trieGet None path = None"
| "trieGet (Some t) [] = trieValue t"
| "trieGet (Some t) (segment # path) = trieGet (segmentGet (trieChildren t) segment) path"

fun trieDelete :: "attributeTrie option \<Rightarrow> string list \<Rightarrow> attributeTrie option" where
  "trieDelete None path = None"
| "trieDelete (Some t) [] =
     (if trieChildren t = Nil then None else Some (AttributeTrie None (trieChildren t)))"
| "trieDelete (Some t) (segment # path) =
     (case segmentGet (trieChildren t) segment of
        None \<Rightarrow> Some t
      | Some child \<Rightarrow>
          (let children =
             (case trieDelete (Some child) path of
                None \<Rightarrow> segmentDelete (trieChildren t) segment
              | Some updatedChild \<Rightarrow> segmentSet (trieChildren t) segment updatedChild)
           in if trieValue t = None \<and> children = Nil then None
              else Some (AttributeTrie (trieValue t) children)))"

definition attributeSet :: "attributeEntityNode \<Rightarrow> Attribute \<Rightarrow> attributeEntityNode \<times> bool" where
  "attributeSet root a =
     (case trieSet (entityGet root (at_entity a)) (at_path a) a of
        None \<Rightarrow> (root, False)
      | Some updated \<Rightarrow> (entitySet root (at_entity a) updated, True))"

definition attributeDelete :: "attributeEntityNode \<Rightarrow> AttributeKey \<Rightarrow> attributeEntityNode" where
  "attributeDelete root key =
     (case entityGet root (ak_entity key) of
        None \<Rightarrow> root
      | Some trie \<Rightarrow>
          (case trieDelete (Some trie) (ak_path key) of
             None \<Rightarrow> entityDelete root (ak_entity key)
           | Some updated \<Rightarrow> entitySet root (ak_entity key) updated))"

definition attributeGet :: "attributeEntityNode \<Rightarrow> AttributeKey \<Rightarrow> Attribute option" where
  "attributeGet root key = trieGet (entityGet root (ak_entity key)) (ak_path key)"

fun trieDescend :: "attributeTrie option \<Rightarrow> string list \<Rightarrow> attributeTrie option" where
  "trieDescend None path = None"
| "trieDescend (Some t) [] = Some t"
| "trieDescend (Some t) (segment # path) = trieDescend (segmentGet (trieChildren t) segment) path"

definition attributeHasDescendant :: "attributeEntityNode \<Rightarrow> AttributeKey \<Rightarrow> bool" where
  "attributeHasDescendant root key =
     (case trieDescend (entityGet root (ak_entity key)) (ak_path key) of
        None \<Rightarrow> False
      | Some t \<Rightarrow> trieChildren t \<noteq> Nil)"

section \<open>The indexes are ordered\<close>

interpretation revisionIndex: ordered_keys compareRevisionKey
proof -
  have "comparator (\<lambda>l r :: revisionKey. thenCmp (cmpCompare (rk_publishedAt l) (rk_publishedAt r))
      (cmpCompare (rk_id l) (rk_id r)))"
    by (rule comparator_thenCmp [OF comparator_cmpCompare comparator_cmpCompare])
      (auto intro: revisionKey.equality)
  moreover have "compareRevisionKey = (\<lambda>l r. thenCmp (cmpCompare (rk_publishedAt l) (rk_publishedAt r))
      (cmpCompare (rk_id l) (rk_id r)))"
    by (auto simp: fun_eq_iff compareRevisionKey_def thenCmp_def cmpCompare_def)
  ultimately show "ordered_keys compareRevisionKey"
    by (simp add: ordered_keys_def)
qed

lemma compareEntity_fields: "compareEntity l r = cmpCompare [er_Type l, er_ID l] [er_Type r, er_ID r]"
  by (simp add: compareEntity_def cmpCompare_Cons)

lemma compareStoredTuple_eq: "compareStoredTuple = compareTuple"
  by (simp add: fun_eq_iff compareStoredTuple_def compareEntity_def compareSubject_def
      compareTuple_def thenCmp_def)

lemma compareTupleBucket_fields:
  "compareTupleBucket t e rel =
     cmpCompare [er_Type (tu_Resource t), er_ID (tu_Resource t), tu_Relation t] [er_Type e, er_ID e, rel]"
  by (simp add: compareTupleBucket_def compareEntity_def cmpCompare_Cons thenCmp_def)

interpretation tupleIndex: ordered_keys compareStoredTuple
  unfolding compareStoredTuple_eq ordered_keys_def by (rule comparator_compareTuple)

interpretation entityIndex: ordered_keys compareEntity
proof -
  have "comparator (\<lambda>l r :: EntityRef. cmpCompare [er_Type l, er_ID l] [er_Type r, er_ID r])"
    by (rule comparator_project [OF comparator_cmpCompare])
      (auto simp: inj_def intro: EntityRef.equality)
  then show "ordered_keys compareEntity"
    by (simp add: ordered_keys_def compareEntity_fields [abs_def])
qed

interpretation segmentIndex: ordered_keys "cmpCompare :: string \<Rightarrow> string \<Rightarrow> int"
  by (simp add: ordered_keys_def comparator_cmpCompare)

section \<open>The bucket query visits exactly the bucket, in order\<close>

fun visitAll :: "('a \<Rightarrow> 's \<Rightarrow> bool \<times> 's) \<Rightarrow> 'a list \<Rightarrow> 's \<Rightarrow> bool \<times> 's" where
  "visitAll visit [] s = (True, s)"
| "visitAll visit (x # xs) s =
     (case visit x s of (False, s) \<Rightarrow> (False, s) | (True, s) \<Rightarrow> visitAll visit xs s)"

lemma visitAll_append:
  "visitAll visit (xs @ ys) s =
     (case visitAll visit xs s of (False, s) \<Rightarrow> (False, s) | (True, s) \<Rightarrow> visitAll visit ys s)"
  by (induction xs arbitrary: s) (auto split: prod.split bool.split)

definition inBucket :: "EntityRef \<Rightarrow> string \<Rightarrow> Tuple \<Rightarrow> bool" where
  "inBucket e rel t = (tu_Resource t = e \<and> tu_Relation t = rel)"

definition bucketOf :: "EntityRef \<Rightarrow> string \<Rightarrow> tupleNode \<Rightarrow> RelationshipTuple list" where
  "bucketOf e rel t = map snd (filter (\<lambda>p. inBucket e rel (fst p)) (inorder t))"

lemma bucket_mono:
  assumes "compareStoredTuple s t < 0"
  shows "compareTupleBucket t e rel < 0 \<Longrightarrow> compareTupleBucket s e rel < 0"
    and "compareTupleBucket s e rel > 0 \<Longrightarrow> compareTupleBucket t e rel > 0"
proof -
  let ?b = "\<lambda>t. [er_Type (tu_Resource t), er_ID (tu_Resource t), tu_Relation t]"
  have "?b s \<le> ?b t"
    using assms unfolding compareStoredTuple_eq compareTuple_fields tupleFields_def by auto
  then show "compareTupleBucket t e rel < 0 \<Longrightarrow> compareTupleBucket s e rel < 0"
    and "compareTupleBucket s e rel > 0 \<Longrightarrow> compareTupleBucket t e rel > 0"
    unfolding compareTupleBucket_fields cmpCompare_simps by (blast intro: le_less_trans less_le_trans)+
qed

lemma compareTupleBucket_zero: "compareTupleBucket t e rel = 0 \<longleftrightarrow> inBucket e rel t"
  by (auto simp: compareTupleBucket_fields inBucket_def intro: EntityRef.equality)

lemma queryTupleBucket_bucketOf:
  "keysSorted compareStoredTuple t \<Longrightarrow>
     queryTupleBucket t e rel visit s = visitAll visit (bucketOf e rel t) s"
proof (induction t arbitrary: s)
  case (Node l k v r h)
  then have sorted: "keysSorted compareStoredTuple l" "keysSorted compareStoredTuple r"
    "\<forall>p \<in> set (inorder l). compareStoredTuple (fst p) k < 0"
    "\<forall>p \<in> set (inorder r). compareStoredTuple k (fst p) < 0"
    by (auto simp: tupleIndex.keysSorted_Node)
  have zero: "inBucket e rel t \<Longrightarrow> compareTupleBucket t e rel = 0" for t
    by (simp add: compareTupleBucket_zero)
  consider "compareTupleBucket k e rel < 0" | "compareTupleBucket k e rel = 0"
    | "compareTupleBucket k e rel > 0"
    by linarith
  then show ?case
  proof cases
    case 1
    then have "\<forall>p \<in> set (inorder l). \<not> inBucket e rel (fst p)" "\<not> inBucket e rel k"
      using sorted(3) bucket_mono(1) zero by fastforce+
    then have "bucketOf e rel (Node l k v r h) = bucketOf e rel r"
      by (simp add: bucketOf_def filter_none)
    with 1 Node.IH(2) [OF sorted(2)] show ?thesis by simp
  next
    case 2
    then have "bucketOf e rel (Node l k v r h) = bucketOf e rel l @ v # bucketOf e rel r"
      by (simp add: bucketOf_def compareTupleBucket_zero)
    with 2 Node.IH(1) [OF sorted(1)] Node.IH(2) [OF sorted(2)] show ?thesis
      by (auto simp: visitAll_append split: prod.split bool.split)
  next
    case 3
    then have "\<forall>p \<in> set (inorder r). \<not> inBucket e rel (fst p)" "\<not> inBucket e rel k"
      using sorted(4) bucket_mono(2) zero by fastforce+
    then have "bucketOf e rel (Node l k v r h) = bucketOf e rel l"
      by (simp add: bucketOf_def filter_none)
    with 3 Node.IH(1) [OF sorted(1)] show ?thesis by simp
  qed
qed (simp add: bucketOf_def)

section \<open>The revision walk emits the page\<close>

fun pageList :: "int \<Rightarrow> (RevisionRecord \<Rightarrow> 's \<Rightarrow> bool \<times> 's) \<Rightarrow> RevisionRecord list \<Rightarrow> 's pageState
    \<Rightarrow> bool \<times> 's pageState" where
  "pageList limit visit [] s = (True, s)"
| "pageList limit visit (x # xs) s =
     (if pg_emitted s = limit then (False, s\<lparr>pg_more := True\<rparr>)
      else (case visit x (pg_state s) of
              (ok, st) \<Rightarrow>
                let s = s\<lparr>pg_emitted := pg_emitted s + 1, pg_state := st\<rparr>
                in if \<not> ok then (False, s) else pageList limit visit xs s))"

lemma pageList_append:
  "pageList limit visit (xs @ ys) s =
     (case pageList limit visit xs s of
        (False, s) \<Rightarrow> (False, s)
      | (True, s) \<Rightarrow> pageList limit visit ys s)"
  by (induction xs arbitrary: s) (auto simp: Let_def split: prod.split bool.split)

definition unvisited :: "'s pageState \<Rightarrow> 's pageState" where
  "unvisited s = s\<lparr>pg_visited := 0\<rparr>"

definition revisionsAfter :: "revisionKey option \<Rightarrow> revisionNode \<Rightarrow> RevisionRecord list" where
  "revisionsAfter after t =
     map snd (filter (\<lambda>p. case after of None \<Rightarrow> True | Some a \<Rightarrow> compareRevisionKey a (fst p) < 0)
       (inorder t))"

lemma unvisited_simps [simp]:
  "pg_emitted (unvisited s) = pg_emitted s" "pg_state (unvisited s) = pg_state s"
  "unvisited (s\<lparr>pg_visited := n\<rparr>) = unvisited s"
  "unvisited (s\<lparr>pg_more := b\<rparr>) = (unvisited s)\<lparr>pg_more := b\<rparr>"
  "unvisited (s\<lparr>pg_emitted := m\<rparr>) = (unvisited s)\<lparr>pg_emitted := m\<rparr>"
  "unvisited (s\<lparr>pg_state := st\<rparr>) = (unvisited s)\<lparr>pg_state := st\<rparr>"
  by (simp_all add: unvisited_def)

lemma revisionWalk_pageList:
  "keysSorted compareRevisionKey t \<Longrightarrow>
     map_prod id unvisited (revisionWalk after limit visit t s) =
     pageList limit visit (revisionsAfter after t) (unvisited s)"
proof (induction t arbitrary: s)
  case Nil
  then show ?case by (simp add: revisionsAfter_def)
next
  case (Node l k v r h)
  then have sorted: "keysSorted compareRevisionKey l" "keysSorted compareRevisionKey r"
    "\<forall>p \<in> set (inorder l). compareRevisionKey (fst p) k < 0"
    "\<forall>p \<in> set (inorder r). compareRevisionKey k (fst p) < 0"
    by (auto simp: revisionIndex.keysSorted_Node)
  define s1 where "s1 = s\<lparr>pg_visited := pg_visited s + 1\<rparr>"
  show ?case
  proof (cases "case after of None \<Rightarrow> False | Some a \<Rightarrow> compareRevisionKey k a \<le> 0")
    case True
    then obtain a where a: "after = Some a" "compareRevisionKey k a \<le> 0"
      by (cases after) auto
    have "\<not> compareRevisionKey a k < 0"
      using a(2) revisionIndex.cmp_not_less [of a k] by blast
    moreover have "\<forall>p \<in> set (inorder l). \<not> compareRevisionKey a (fst p) < 0"
      using sorted(3) a(2) revisionIndex.cmp_less_le_trans revisionIndex.cmp_asym by blast
    ultimately have "revisionsAfter after (Node l k v r h) = revisionsAfter after r"
      by (simp add: revisionsAfter_def a(1) filter_none)
    with Node.IH(2) [OF sorted(2), of s1] a show ?thesis
      by (simp add: s1_def)
  next
    case False
    then have "case after of None \<Rightarrow> True | Some a \<Rightarrow> compareRevisionKey a k < 0"
      using revisionIndex.cmp_not_less by (auto split: option.splits)
    then have page: "revisionsAfter after (Node l k v r h) =
        revisionsAfter after l @ v # revisionsAfter after r"
      by (cases after) (simp_all add: revisionsAfter_def)
    obtain ok s2 where l: "revisionWalk after limit visit l s1 = (ok, s2)"
      by (cases "revisionWalk after limit visit l s1")
    then have l2: "pageList limit visit (revisionsAfter after l) (unvisited s) = (ok, unvisited s2)"
      using Node.IH(1) [OF sorted(1), of s1] by (simp add: s1_def)
    show ?thesis
    proof (cases ok)
      case False
      with \<open>\<not> (case after of None \<Rightarrow> False | Some a \<Rightarrow> compareRevisionKey k a \<le> 0)\<close> l l2
      show ?thesis
        by (simp add: page pageList_append s1_def [symmetric] Let_def)
    next
      case True
      obtain ok' st where "visit v (pg_state s2) = (ok', st)"
        by (cases "visit v (pg_state s2)")
      with True \<open>\<not> (case after of None \<Rightarrow> False | Some a \<Rightarrow> compareRevisionKey k a \<le> 0)\<close> l l2
        Node.IH(2) [OF sorted(2), of "s2\<lparr>pg_emitted := pg_emitted s2 + 1, pg_state := st\<rparr>"]
      show ?thesis
        by (simp add: page pageList_append s1_def [symmetric] Let_def)
    qed
  qed
qed

lemma pageList_collect:
  assumes "0 \<le> pg_emitted s" and "pg_emitted s \<le> limit"
  shows "pg_state (snd (pageList limit (\<lambda>x st. (True, st @ [f x])) xs s)) =
      pg_state s @ map f (take (nat (limit - pg_emitted s)) xs) \<and>
    pg_more (snd (pageList limit (\<lambda>x st. (True, st @ [f x])) xs s)) =
      (pg_more s \<or> int (length xs) > limit - pg_emitted s)"
  using assms
proof (induction xs arbitrary: s)
  case (Cons x xs)
  show ?case
  proof (cases "pg_emitted s = limit")
    case False
    then have "nat (limit - pg_emitted s) = Suc (nat (limit - (pg_emitted s + 1)))"
      using Cons.prems by (simp add: nat_eq_iff2 Suc_nat_eq_nat_zadd1)
    with False Cons.IH [of "s\<lparr>pg_emitted := pg_emitted s + 1, pg_state := pg_state s @ [f x]\<rparr>"]
      Cons.prems
    show ?thesis by auto
  qed simp
qed auto

lemma revisionPage_take:
  fixes f :: "RevisionRecord \<Rightarrow> 'b"
  assumes "keysSorted compareRevisionKey root" and "0 \<le> limit"
  shows "pg_state (revisionPage root after limit (\<lambda>x st. (True, st @ [f x])) []) =
      map f (take (nat limit) (revisionsAfter after root))"
    and "pg_more (revisionPage root after limit (\<lambda>x st. (True, st @ [f x])) []) \<longleftrightarrow>
      int (length (revisionsAfter after root)) > limit"
proof -
  let ?s = "\<lparr>pg_visited = 0, pg_emitted = 0, pg_more = False, pg_state = [] :: 'b list\<rparr>"
  let ?v = "\<lambda>x st. (True, st @ [f x])"
  let ?r = "revisionPage root after limit ?v []"
  have eq: "unvisited ?r = snd (pageList limit ?v (revisionsAfter after root) ?s)"
    using arg_cong [OF revisionWalk_pageList [OF assms(1), of after limit ?v ?s], of snd]
    by (simp add: revisionPage_def unvisited_def)
  have "pg_state ?r = pg_state (unvisited ?r)" "pg_more ?r = pg_more (unvisited ?r)"
    by (simp_all add: unvisited_def)
  then show "pg_state ?r = map f (take (nat limit) (revisionsAfter after root))"
    "pg_more ?r \<longleftrightarrow> int (length (revisionsAfter after root)) > limit"
    unfolding eq using pageList_collect [of ?s limit f "revisionsAfter after root"] assms(2) by simp_all
qed

section \<open>Properties\<close>

text \<open>
  C8: setting and deleting in the tuple index keep it a balanced search tree, act on the map it
  represents as an update and a removal, and keep its height logarithmic: a tree of height h holds
  at least 2^(h/2) - 1 tuples.
\<close>

theorem tupleIndex_operations:
  assumes "avlInv compareStoredTuple t" and "t' = tupleSet t key val \<or> t' = tupleDelete t key"
  shows "avlInv compareStoredTuple t' \<and>
    avlGet compareStoredTuple (tupleSet t key val) = (avlGet compareStoredTuple t)(key \<mapsto> val) \<and>
    avlGet compareStoredTuple (tupleDelete t key) = (avlGet compareStoredTuple t)(key := None) \<and>
    2 ^ (nat (avlHeight t') div 2) \<le> length (inorder t') + 1"
proof -
  have inv: "avlInv compareStoredTuple t'"
    using assms(2) unfolding tupleSet_def tupleDelete_def
    by (elim disjE) (simp_all add: tupleIndex.avlInv_avlSet tupleIndex.avlInv_avlDelete assms(1))
  then have "2 ^ (nat (avlHeight t') div 2) \<le> length (inorder t') + 1"
    by (intro balanced_size) (simp add: avlInv_def)
  with inv tupleIndex.avlGet_avlSet [OF assms(1)] tupleIndex.avlGet_avlDelete [OF assms(1)]
  show ?thesis unfolding tupleSet_def tupleDelete_def by (intro conjI)
qed

theorem tupleIndex_operations_witness:
  "avlInv compareStoredTuple (tupleSet Nil (rt_tuple (sampleTuple ''ann'')) (sampleTuple ''ann''))"
  by (rule conjunct1 [OF tupleIndex_operations [OF tupleIndex.avlInv_Nil disjI1 [OF refl]]])

text \<open>
  C6: a bucket query calls the visitor on exactly the stored tuples of the resource and relation,
  in index order, threading the visitor's state and stopping at its first refusal: skipping the
  subtrees outside the bucket loses nothing.
\<close>

theorem queryTupleBucket_exact:
  assumes "avlInv compareStoredTuple t"
  shows "queryTupleBucket t resource relation visit s =
    visitAll visit (map snd (filter (\<lambda>(k, v). tu_Resource k = resource \<and> tu_Relation k = relation)
      (inorder t))) s"
  using assms queryTupleBucket_bucketOf [of t resource relation visit s]
  by (simp add: avlInv_def bucketOf_def inBucket_def case_prod_unfold)

definition sampleTuples :: tupleNode where
  "sampleTuples = tupleSet (tupleSet Nil (rt_tuple (sampleTuple ''bob'')) (sampleTuple ''bob''))
     (rt_tuple (sampleTuple ''ann'')) (sampleTuple ''ann'')"

lemma sampleTuples_inv: "avlInv compareStoredTuple sampleTuples"
  unfolding sampleTuples_def tupleSet_def by (intro tupleIndex.avlInv_avlSet tupleIndex.avlInv_Nil)

theorem queryTupleBucket_exact_witness:
  "queryTupleBucket sampleTuples \<lparr>er_Type = ''doc'', er_ID = ''d1''\<rparr> ''viewer'' (\<lambda>x st. (True, st @ [x])) [] =
     (True, [sampleTuple ''ann'', sampleTuple ''bob''])"
proof -
  have "inorder sampleTuples = [(rt_tuple (sampleTuple ''ann''), sampleTuple ''ann''),
      (rt_tuple (sampleTuple ''bob''), sampleTuple ''bob'')]"
    by code_simp
  then show ?thesis
    unfolding queryTupleBucket_exact [OF sampleTuples_inv] by (simp add: sampleTuple_def)
qed

text \<open>
  C7: on a well-formed revision index, a page of at most limit revisions after a cursor is the
  first limit revisions, in order, whose keys follow the cursor, and the page says there are more
  exactly when some were left out: consecutive pages neither skip nor repeat a revision.
\<close>

theorem revisionPage_exact:
  assumes "avlInv compareRevisionKey root" and "0 \<le> limit"
  shows "(let page = revisionPage root after limit (\<lambda>x st. (True, st @ [x])) [] in
    pg_state page = take (nat limit) (revisionsAfter after root) \<and>
    (pg_more page \<longleftrightarrow> nat limit < length (revisionsAfter after root)))"
  using assms revisionPage_take [where f = "\<lambda>x. x" and after = after, of root limit] by (simp add: avlInv_def Let_def nat_less_iff)

definition sampleRevisions :: revisionNode where
  "sampleRevisions = revisionSet (revisionSet Nil (sampleRevision 2)) (sampleRevision 1)"

theorem revisionPage_exact_witness:
  "avlInv compareRevisionKey sampleRevisions \<and>
   pg_state (revisionPage sampleRevisions None 1 (\<lambda>x st. (True, st @ [x])) []) =
     take 1 (revisionsAfter None sampleRevisions)"
proof -
  have inv: "avlInv compareRevisionKey sampleRevisions"
    unfolding sampleRevisions_def revisionSet_def
    by (intro revisionIndex.avlInv_avlSet revisionIndex.avlInv_Nil)
  with revisionPage_exact [OF inv, of 1 None] show ?thesis by (simp add: Let_def)
qed

end
