(* ===== verification/Attribute_Index.thy ===== *)
theory Attribute_Index
  imports Index
begin

text \<open>
  The attribute index of store/memory/indexed.go refines a finite map from an entity and a path to
  an attribute whose paths are prefix free: a trie node holds either a value or children, never
  both and never neither, so a set fails exactly when the path runs into, or stops above, another
  stored path.
\<close>

section \<open>Segment tries\<close>

inductive trieInv :: "attributeTrie \<Rightarrow> bool" where
  "avlInv cmpCompare ch \<Longrightarrow> (\<forall>s c. segmentGet ch s = Some c \<longrightarrow> trieInv c) \<Longrightarrow>
   (v = None \<longleftrightarrow> ch \<noteq> Nil) \<Longrightarrow> trieInv (AttributeTrie v ch)"

inductive_simps trieInv_simp: "trieInv (AttributeTrie v ch)"

abbreviation optTrieInv :: "attributeTrie option \<Rightarrow> bool" where
  "optTrieInv node \<equiv> (\<forall>t. node = Some t \<longrightarrow> trieInv t)"

lemma segmentGet_Nil [simp]: "segmentGet Nil s = None"
  by (simp add: segmentGet_def)

lemma segmentGet_segmentSet:
  "avlInv cmpCompare ch \<Longrightarrow> segmentGet (segmentSet ch s c) = (segmentGet ch)(s \<mapsto> c)"
  by (simp add: segmentGet_def [abs_def] segmentSet_def segmentIndex.avlGet_avlSet)

lemma segmentGet_segmentDelete:
  "avlInv cmpCompare ch \<Longrightarrow> segmentGet (segmentDelete ch s) = (segmentGet ch)(s := None)"
  by (simp add: segmentGet_def [abs_def] segmentDelete_def segmentIndex.avlGet_avlDelete)

lemma segment_inv:
  "avlInv cmpCompare ch \<Longrightarrow> avlInv cmpCompare (segmentSet ch s c)"
  "avlInv cmpCompare ch \<Longrightarrow> avlInv cmpCompare (segmentDelete ch s)"
  "segmentSet ch s c \<noteq> Nil"
  by (simp_all add: segmentSet_def segmentDelete_def segmentIndex.avlInv_avlSet
      segmentIndex.avlInv_avlDelete segmentIndex.avlSet_not_Nil)

lemma segment_nonempty: "avlInv cmpCompare ch \<Longrightarrow> ch \<noteq> Nil \<Longrightarrow> \<exists>s c. segmentGet ch s = Some c"
  using segmentIndex.avlGet_nonempty by (auto simp: segmentGet_def avlInv_def)

lemma orEmptyTrie_simps [simp]: "orEmptyTrie None = AttributeTrie None Nil" "orEmptyTrie (Some t) = t"
  by (simp_all add: orEmptyTrie_def)

lemma trieGet_None [simp]: "trieGet None q = None"
  by (cases q) simp_all

lemma trieInv_empty: "avlInv cmpCompare (Nil :: segmentNode)"
  by (rule segmentIndex.avlInv_Nil)

lemma trie_occupied: "trieInv t \<Longrightarrow> \<exists>q. trieGet (Some t) q \<noteq> None"
proof (induction t rule: trieInv.induct)
  case (1 ch v)
  show ?case
  proof (cases v)
    case None
    then obtain s c where "segmentGet ch s = Some c"
      using 1 segment_nonempty by blast
    moreover from this 1 obtain q where "trieGet (Some c) q \<noteq> None"
      by blast
    ultimately have "trieGet (Some (AttributeTrie v ch)) (s # q) \<noteq> None"
      by simp
    then show ?thesis by blast
  next
    case (Some a)
    then have "trieGet (Some (AttributeTrie v ch)) [] \<noteq> None"
      by simp
    then show ?thesis by blast
  qed
qed

lemma trie_children_occupied:
  assumes "trieInv t"
  shows "trieChildren t \<noteq> Nil \<longleftrightarrow> (\<exists>q. q \<noteq> [] \<and> trieGet (Some t) q \<noteq> None)"
proof (cases t)
  case t: (AttributeTrie v ch)
  have inv: "avlInv cmpCompare ch" "\<forall>s c. segmentGet ch s = Some c \<longrightarrow> trieInv c"
    using assms t by (auto simp: trieInv_simp)
  show ?thesis
  proof (cases "ch = Nil")
    case True
    then have "q = [] \<or> trieGet (Some t) q = None" for q
      using t by (cases q) auto
    moreover have "trieChildren t = Nil"
      using True t by simp
    ultimately show ?thesis by simp
  next
    case False
    then obtain s c where sc: "segmentGet ch s = Some c"
      using inv(1) segment_nonempty by blast
    then have "trieInv c"
      using inv(2) by blast
    then obtain q where "trieGet (Some c) q \<noteq> None"
      using trie_occupied by blast
    then have "trieGet (Some t) (s # q) \<noteq> None"
      using sc t by simp
    moreover have "trieChildren t \<noteq> Nil"
      using False t by simp
    ultimately show ?thesis by blast
  qed
qed

definition trieConflict :: "attributeTrie option \<Rightarrow> string list \<Rightarrow> bool" where
  "trieConflict node p = (\<exists>q. q \<noteq> p \<and> comparable p q \<and> trieGet node q \<noteq> None)"

lemma comparable_Cons [simp]:
  "comparable [] q" "comparable q []" "comparable (s # p) (s' # q) \<longleftrightarrow> s = s' \<and> comparable p q"
  by (auto simp: comparable_def)

lemma trieGet_orEmpty:
  "trieGet node [] = trieValue (orEmptyTrie node)"
  "trieGet node (s # q) = trieGet (segmentGet (trieChildren (orEmptyTrie node)) s) q"
  by (cases node; simp add: orEmptyTrie_def)+

lemma trieConflict_Cons:
  "trieConflict node (s # p) \<longleftrightarrow>
     trieValue (orEmptyTrie node) \<noteq> None \<or>
     trieConflict (segmentGet (trieChildren (orEmptyTrie node)) s) p"
proof
  assume "trieConflict node (s # p)"
  then obtain q where q: "q \<noteq> s # p" "comparable (s # p) q" "trieGet node q \<noteq> None"
    by (auto simp: trieConflict_def)
  then show "trieValue (orEmptyTrie node) \<noteq> None \<or>
      trieConflict (segmentGet (trieChildren (orEmptyTrie node)) s) p"
    by (cases q) (auto simp: trieGet_orEmpty trieConflict_def)
next
  assume "trieValue (orEmptyTrie node) \<noteq> None \<or>
      trieConflict (segmentGet (trieChildren (orEmptyTrie node)) s) p"
  then show "trieConflict node (s # p)"
  proof
    assume "trieValue (orEmptyTrie node) \<noteq> None"
    then have "trieGet node [] \<noteq> None"
      by (simp add: trieGet_orEmpty)
    then show ?thesis
      unfolding trieConflict_def by (intro exI [of _ "[]"]) simp
  next
    assume "trieConflict (segmentGet (trieChildren (orEmptyTrie node)) s) p"
    then obtain q where "q \<noteq> p" "comparable p q" "trieGet node (s # q) \<noteq> None"
      by (auto simp: trieConflict_def trieGet_orEmpty)
    then show ?thesis
      unfolding trieConflict_def by (intro exI [of _ "s # q"]) simp
  qed
qed

lemma orEmptyTrie_inv:
  assumes "optTrieInv node"
  shows "avlInv cmpCompare (trieChildren (orEmptyTrie node))"
    and "optTrieInv (segmentGet (trieChildren (orEmptyTrie node)) s)"
    and "trieValue (orEmptyTrie node) \<noteq> None \<Longrightarrow> trieChildren (orEmptyTrie node) = Nil"
  using assms trieInv_empty
  by (cases node; auto simp: orEmptyTrie_def elim: trieInv.cases)+

lemma trieSet_None_iff: "optTrieInv node \<Longrightarrow> trieSet node p a = None \<longleftrightarrow> trieConflict node p"
proof (induction p arbitrary: node)
  case Nil
  have "trieConflict node [] \<longleftrightarrow> trieChildren (orEmptyTrie node) \<noteq> Nil"
  proof (cases node)
    case None
    then show ?thesis by (simp add: trieConflict_def orEmptyTrie_def)
  next
    case (Some t)
    with Nil trie_children_occupied [of t] show ?thesis
      by (simp add: trieConflict_def orEmptyTrie_def)
  qed
  then show ?case by simp
next
  case (Cons s p)
  have "trieSet (segmentGet (trieChildren (orEmptyTrie node)) s) p a = None \<longleftrightarrow>
      trieConflict (segmentGet (trieChildren (orEmptyTrie node)) s) p"
    by (rule Cons.IH) (rule orEmptyTrie_inv(2) [OF Cons.prems])
  then show ?case
    by (auto simp: trieConflict_Cons split: option.split)
qed

lemma trieSet_Some:
  "optTrieInv node \<Longrightarrow> trieSet node p a = Some u \<Longrightarrow>
     trieInv u \<and> trieGet (Some u) = (trieGet node)(p \<mapsto> a)"
proof (induction p arbitrary: node u)
  case Nil
  then have u: "u = AttributeTrie (Some a) Nil" "trieChildren (orEmptyTrie node) = Nil"
    by (auto split: if_splits)
  have "trieGet (Some u) q = ((trieGet node)([] \<mapsto> a)) q" for q
    using u by (cases q) (simp_all add: trieGet_orEmpty)
  then show ?case
    using u(1) trieInv_empty by (auto simp: trieInv_simp fun_eq_iff)
next
  case (Cons s p)
  let ?n = "orEmptyTrie node"
  note inv = orEmptyTrie_inv [OF Cons.prems(1)]
  obtain u' where u': "trieValue ?n = None" "trieSet (segmentGet (trieChildren ?n) s) p a = Some u'"
    "u = AttributeTrie None (segmentSet (trieChildren ?n) s u')"
    using Cons.prems(2) by (auto split: if_splits option.splits)
  have IH: "trieInv u'" "trieGet (Some u') = (trieGet (segmentGet (trieChildren ?n) s))(p \<mapsto> a)"
    using Cons.IH [OF inv(2) u'(2)] by blast+
  have "trieGet (Some u) q = ((trieGet node)(s # p \<mapsto> a)) q" for q
    using u' IH(2) by (cases q) (auto simp: trieGet_orEmpty segmentGet_segmentSet [OF inv(1)])
  moreover have "trieInv u"
    using u'(3) IH(1) inv(1,2) segment_inv
    by (auto simp: trieInv_simp segmentGet_segmentSet [OF inv(1)])
  ultimately show ?case by (auto simp: fun_eq_iff)
qed

lemma trieGet_leaf:
  "trieInv t \<Longrightarrow> trieChildren t = Nil \<Longrightarrow> q \<noteq> [] \<Longrightarrow> trieGet (Some t) q = None"
  using trie_children_occupied [of t] by blast

lemma trieDelete_spec:
  "optTrieInv node \<Longrightarrow>
     optTrieInv (trieDelete node p) \<and> trieGet (trieDelete node p) = (trieGet node)(p := None)"
proof (induction node p rule: trieDelete.induct)
  case (1 p)
  then show ?case by auto
next
  case (2 t)
  then have t: "trieInv t" by simp
  show ?case
  proof (cases "trieChildren t = Nil")
    case True
    then have "((trieGet (Some t))([] := None)) q = None" for q
      using trieGet_leaf [OF t] by simp
    with True show ?thesis by (auto simp: fun_eq_iff)
  next
    case False
    with t have v: "t = AttributeTrie None (trieChildren t)"
      by (auto elim: trieInv.cases)
    then have "trieGet (Some t) [] = None"
      by (metis trieGet.simps(2) trieValue.simps)
    then have up: "(trieGet (Some t))([] := None) = trieGet (Some t)"
      by (rule fun_upd_idem)
    have del: "trieDelete (Some t) [] = Some t"
      using False v by simp
    show ?thesis unfolding up del using t by simp
  qed
next
  case (3 t s p)
  then have t: "trieInv t" by simp
  let ?ch = "trieChildren t"
  have "optTrieInv (Some t)" using t by simp
  note inv = orEmptyTrie_inv [OF this, unfolded orEmptyTrie_simps]
  show ?case
  proof (cases "segmentGet ?ch s")
    case None
    then have "trieGet (Some t) (s # p) = None" by simp
    then have up: "(trieGet (Some t))(s # p := None) = trieGet (Some t)"
      by (rule fun_upd_idem)
    have del: "trieDelete (Some t) (s # p) = Some t"
      using None by simp
    show ?thesis unfolding up del using t by simp
  next
    case (Some c)
    define d where "d = trieDelete (Some c) p"
    define ch' where "ch' = (case d of None \<Rightarrow> segmentDelete ?ch s | Some u \<Rightarrow> segmentSet ?ch s u)"
    have c: "trieInv c"
      using inv(2) [of s] Some by blast
    then have "optTrieInv (Some c)" by simp
    from "3.IH" [OF Some this]
    have IH: "optTrieInv d" "trieGet d = (trieGet (Some c))(p := None)"
      unfolding d_def by blast+
    have get: "segmentGet ch' = (segmentGet ?ch)(s := d)"
      by (cases d) (simp_all add: ch'_def segmentGet_segmentDelete segmentGet_segmentSet inv(1))
    have inv': "avlInv cmpCompare ch'"
      by (cases d) (simp_all add: ch'_def segment_inv inv(1))
    have "?ch \<noteq> Nil"
      using Some by auto
    then have v: "trieValue t = None"
      using inv(3) by metis
    have lookup: "((trieGet (Some t))(s # p := None)) q =
        (case q of [] \<Rightarrow> None | s' # q' \<Rightarrow> trieGet (segmentGet ch' s') q')" for q
      using v Some IH(2) by (cases q) (auto simp: get)
    have del: "trieDelete (Some t) (s # p) = (if ch' = Nil then None else Some (AttributeTrie None ch'))"
      using Some v by (simp add: d_def ch'_def)
    show ?thesis
    proof (cases "ch' = Nil")
      case True
      then have "((trieGet (Some t))(s # p := None)) q = None" for q
        unfolding lookup by (cases q) auto
      with True show ?thesis unfolding del by (auto simp: fun_eq_iff)
    next
      case False
      have "trieInv (AttributeTrie None ch')"
        using False inv' IH(1) inv(2) by (auto simp: trieInv_simp get)
      moreover have "trieGet (Some (AttributeTrie None ch')) q = ((trieGet (Some t))(s # p := None)) q" for q
        unfolding lookup by (cases q) auto
      ultimately show ?thesis
        using False unfolding del by (auto simp: fun_eq_iff)
    qed
  qed
qed

lemma trieDescend_get: "trieGet node (p @ q) = trieGet (trieDescend node p) q"
  by (induction node p rule: trieDescend.induct) auto

lemma trieDescend_inv: "optTrieInv node \<Longrightarrow> optTrieInv (trieDescend node p)"
proof (induction node p rule: trieDescend.induct)
  case (3 t s p)
  note child = orEmptyTrie_inv(2) [OF "3.prems", of s, unfolded orEmptyTrie_simps]
  show ?case
    unfolding trieDescend.simps by (rule "3.IH" [OF child])
qed simp_all

lemma trieDescend_descendant:
  assumes "optTrieInv node"
  shows "(case trieDescend node p of None \<Rightarrow> False | Some t \<Rightarrow> trieChildren t \<noteq> Nil) \<longleftrightarrow>
    (\<exists>q. strict_prefix p q \<and> trieGet node q \<noteq> None)"
proof -
  have "(\<exists>q. strict_prefix p q \<and> trieGet node q \<noteq> None) \<longleftrightarrow>
      (\<exists>q. q \<noteq> [] \<and> trieGet (trieDescend node p) q \<noteq> None)"
    unfolding trieDescend_get [symmetric] strict_prefix_def prefix_def by auto
  then show ?thesis
    using trieDescend_inv [OF assms, of p] trie_children_occupied
    by (cases "trieDescend node p") auto
qed

section \<open>The whole index\<close>

definition attrInv :: "attributeEntityNode \<Rightarrow> bool" where
  "attrInv root \<longleftrightarrow> avlInv compareEntity root \<and> (\<forall>e. optTrieInv (entityGet root e))"

definition keyOf :: "Attribute \<Rightarrow> AttributeKey" where
  "keyOf a = \<lparr>ak_entity = at_entity a, ak_path = at_path a\<rparr>"

text \<open>
  The specification: a finite map from keys to attributes. A key collides with a stored one of the
  same entity whose path is a proper prefix or a proper extension of its own.
\<close>

definition specCollides :: "(AttributeKey \<rightharpoonup> Attribute) \<Rightarrow> AttributeKey \<Rightarrow> bool" where
  "specCollides m key \<longleftrightarrow>
     (\<exists>q. q \<noteq> ak_path key \<and> comparable (ak_path key) q \<and> m \<lparr>ak_entity = ak_entity key, ak_path = q\<rparr> \<noteq> None)"

definition specSet :: "(AttributeKey \<rightharpoonup> Attribute) \<Rightarrow> Attribute \<Rightarrow> (AttributeKey \<rightharpoonup> Attribute) \<times> bool" where
  "specSet m a = (if specCollides m (keyOf a) then (m, False) else (m(keyOf a \<mapsto> a), True))"

lemma entityGet_entitySet:
  "avlInv compareEntity root \<Longrightarrow> entityGet (entitySet root e t) = (entityGet root)(e \<mapsto> t)"
  by (simp add: entityGet_def [abs_def] entitySet_def entityIndex.avlGet_avlSet)

lemma entityGet_entityDelete:
  "avlInv compareEntity root \<Longrightarrow> entityGet (entityDelete root e) = (entityGet root)(e := None)"
  by (simp add: entityGet_def [abs_def] entityDelete_def entityIndex.avlGet_avlDelete)

lemma entity_inv:
  "avlInv compareEntity root \<Longrightarrow> avlInv compareEntity (entitySet root e t)"
  "avlInv compareEntity root \<Longrightarrow> avlInv compareEntity (entityDelete root e)"
  by (simp_all add: entitySet_def entityDelete_def entityIndex.avlInv_avlSet entityIndex.avlInv_avlDelete)

lemma attrInv_Nil: "attrInv Nil"
  by (simp add: attrInv_def entityIndex.avlInv_Nil entityGet_def)

lemma specCollides_attributeGet:
  "specCollides (attributeGet root) key \<longleftrightarrow> trieConflict (entityGet root (ak_entity key)) (ak_path key)"
  by (simp add: specCollides_def trieConflict_def attributeGet_def)

lemma attributeGet_entity_upd:
  assumes "trieGet (entityGet root' e) = (trieGet (entityGet root e))(p := v)"
    and "\<And>e'. e' \<noteq> e \<Longrightarrow> entityGet root' e' = entityGet root e'"
  shows "attributeGet root' = (attributeGet root)(\<lparr>ak_entity = e, ak_path = p\<rparr> := v)"
proof
  fix k :: AttributeKey
  show "attributeGet root' k = ((attributeGet root)(\<lparr>ak_entity = e, ak_path = p\<rparr> := v)) k"
    using assms by (cases k; cases "ak_entity k = e") (auto simp: attributeGet_def)
qed

lemma attributeSet_spec:
  assumes "attrInv root" "attributeSet root a = (root', ok)"
  shows "attrInv root' \<and> (attributeGet root', ok) = specSet (attributeGet root) a"
proof -
  have inv: "avlInv compareEntity root" "optTrieInv (entityGet root (at_entity a))"
    "\<forall>e. optTrieInv (entityGet root e)"
    using assms(1) by (auto simp: attrInv_def)
  note conflict = trieSet_None_iff [OF inv(2), of "at_path a" a]
  show ?thesis
  proof (cases "trieSet (entityGet root (at_entity a)) (at_path a) a")
    case None
    then have "specCollides (attributeGet root) (keyOf a)"
      using conflict by (simp add: specCollides_attributeGet keyOf_def)
    then show ?thesis
      using None assms by (simp add: attributeSet_def specSet_def)
  next
    case (Some t)
    note t = trieSet_Some [OF inv(2) Some]
    have r: "root' = entitySet root (at_entity a) t" "ok = True"
      using Some assms(2) by (simp_all add: attributeSet_def)
    note get = entityGet_entitySet [OF inv(1), of "at_entity a" t]
    have "attributeGet root' = (attributeGet root)(keyOf a \<mapsto> a)"
      unfolding keyOf_def r get using t by (intro attributeGet_entity_upd) (simp_all add: get)
    moreover have "\<not> specCollides (attributeGet root) (keyOf a)"
      using conflict Some by (simp add: specCollides_attributeGet keyOf_def)
    moreover have "attrInv root'"
      unfolding attrInv_def r get using inv t entity_inv(1) by auto
    ultimately show ?thesis
      by (simp add: specSet_def r)
  qed
qed

lemma attributeDelete_spec:
  assumes "attrInv root"
  shows "attrInv (attributeDelete root key) \<and>
    attributeGet (attributeDelete root key) = (attributeGet root)(key := None)"
proof -
  let ?e = "ak_entity key"
  let ?root' = "attributeDelete root key"
  have inv: "avlInv compareEntity root" "\<forall>e. optTrieInv (entityGet root e)"
    using assms by (auto simp: attrInv_def)
  note upd = entityGet_entitySet [OF inv(1)] entityGet_entityDelete [OF inv(1)]
  have get: "entityGet ?root' = (entityGet root)(?e := trieDelete (entityGet root ?e) (ak_path key))"
    by (auto simp: attributeDelete_def upd fun_eq_iff split: option.split)
  have d: "optTrieInv (trieDelete (entityGet root ?e) (ak_path key))"
    "trieGet (trieDelete (entityGet root ?e) (ak_path key)) = (trieGet (entityGet root ?e))(ak_path key := None)"
    using trieDelete_spec [of "entityGet root ?e" "ak_path key"] inv(2) by blast+
  have "avlInv compareEntity ?root'"
    using inv(1) entity_inv by (simp add: attributeDelete_def split: option.split)
  then have "attrInv ?root'"
    unfolding attrInv_def get using inv(2) d(1) by simp
  moreover have "attributeGet ?root' = (attributeGet root)(\<lparr>ak_entity = ?e, ak_path = ak_path key\<rparr> := None)"
    by (intro attributeGet_entity_upd) (simp_all add: get d(2))
  ultimately show ?thesis by (cases key) simp
qed

lemma attributeHasDescendant_spec:
  assumes "attrInv root"
  shows "attributeHasDescendant root key \<longleftrightarrow>
    (\<exists>q. strict_prefix (ak_path key) q \<and> attributeGet root \<lparr>ak_entity = ak_entity key, ak_path = q\<rparr> \<noteq> None)"
  using assms trieDescend_descendant [of "entityGet root (ak_entity key)" "ak_path key"]
  by (simp add: attrInv_def attributeHasDescendant_def attributeGet_def)

lemma trieInv_prefixFree:
  "optTrieInv node \<Longrightarrow> trieGet node p \<noteq> None \<Longrightarrow> \<not> trieConflict node p"
proof (induction p arbitrary: node)
  case Nil
  then obtain t where t: "node = Some t" "trieInv t" "trieValue t \<noteq> None"
    by (cases node) auto
  then have "trieChildren t = Nil"
    using orEmptyTrie_inv(3) [OF Nil.prems(1)] unfolding t(1) orEmptyTrie_simps by blast
  from trieGet_leaf [OF t(2) this] have "q = [] \<or> trieGet node q = None" for q
    unfolding t(1) by (cases "q = []") simp_all
  then show ?case by (simp add: trieConflict_def)
next
  case (Cons s p)
  note inv = orEmptyTrie_inv [OF Cons.prems(1)]
  have get: "trieGet (segmentGet (trieChildren (orEmptyTrie node)) s) p \<noteq> None"
    using Cons.prems(2) by (cases node) simp_all
  then have "trieChildren (orEmptyTrie node) \<noteq> Nil"
    by auto
  then have "trieValue (orEmptyTrie node) = None"
    using inv(3) by blast
  then show ?case
    unfolding trieConflict_Cons using Cons.IH [OF inv(2) get] by blast
qed

lemma attrInv_prefixFree:
  assumes "attrInv root" "attributeGet root key \<noteq> None"
  shows "\<not> specCollides (attributeGet root) key"
  using assms trieInv_prefixFree unfolding specCollides_attributeGet attrInv_def attributeGet_def by blast

section \<open>Properties\<close>

text \<open>
  C4: attributeSet refines the map specification. On a well-formed index, setting an attribute
  fails, and leaves the index as it was, exactly when a stored path of the same entity is a proper
  prefix or a proper extension of its path; otherwise the new index is well-formed again and
  represents the old map updated at the attribute's key.
\<close>

theorem attributeSet_refines:
  assumes "attrInv root"
  shows "(let (root', ok) = attributeSet root a in
    attrInv root' \<and> (attributeGet root', ok) = specSet (attributeGet root) a \<and>
    (\<not> ok \<longrightarrow> root' = root))"
proof -
  obtain root' ok where r: "attributeSet root a = (root', ok)"
    by (cases "attributeSet root a")
  have "\<not> ok \<longrightarrow> root' = root"
    using r by (auto simp: attributeSet_def split: option.splits)
  with attributeSet_spec [OF assms r] show ?thesis by (simp add: r)
qed

definition sampleRoot :: attributeEntityNode where
  "sampleRoot = fst (attributeSet Nil (sampleAttribute ''a''))"

lemma sampleRoot_inv: "attrInv sampleRoot"
  using attributeSet_spec [OF attrInv_Nil, of "sampleAttribute ''a''"]
  by (cases "attributeSet Nil (sampleAttribute ''a'')") (simp add: sampleRoot_def)

theorem attributeSet_refines_witness:
  "attrInv sampleRoot \<and>
   (let (root', ok) = attributeSet sampleRoot (sampleAttribute ''b'') in
    attrInv root' \<and> (attributeGet root', ok) = specSet (attributeGet sampleRoot) (sampleAttribute ''b'') \<and>
    (\<not> ok \<longrightarrow> root' = sampleRoot))"
  using attributeSet_refines [OF sampleRoot_inv] sampleRoot_inv by blast

text \<open>
  C5: deleting an attribute keeps the index well-formed and removes exactly its key from the map;
  HasAttributeDescendant answers whether the map has a key strictly below the given path.
\<close>

theorem attributeDelete_refines:
  assumes "attrInv root"
  shows "attrInv (attributeDelete root key) \<and>
    attributeGet (attributeDelete root key) = (attributeGet root)(key := None) \<and>
    (attributeHasDescendant root key \<longleftrightarrow>
      (\<exists>q. strict_prefix (ak_path key) q \<and>
        attributeGet root \<lparr>ak_entity = ak_entity key, ak_path = q\<rparr> \<noteq> None))"
  using attributeDelete_spec [OF assms, of key] attributeHasDescendant_spec [OF assms, of key] by blast

theorem attributeDelete_refines_witness:
  "attributeGet (attributeDelete sampleRoot (keyOf (sampleAttribute ''a''))) =
     (attributeGet sampleRoot)(keyOf (sampleAttribute ''a'') := None)"
  using attributeDelete_refines [OF sampleRoot_inv] by blast

text \<open>
  C9: the paths a well-formed index stores for one entity are prefix free: no stored path is a
  proper prefix of another.
\<close>

theorem attributeGet_prefix_free:
  assumes "attrInv root"
    and "attributeGet root \<lparr>ak_entity = e, ak_path = p\<rparr> \<noteq> None"
    and "attributeGet root \<lparr>ak_entity = e, ak_path = q\<rparr> \<noteq> None"
  shows "\<not> strict_prefix p q"
proof
  assume "strict_prefix p q"
  then have "q \<noteq> p" "comparable p q"
    by (auto simp: comparable_def)
  then have "specCollides (attributeGet root) \<lparr>ak_entity = e, ak_path = p\<rparr>"
    unfolding specCollides_def using assms(3) by (intro exI [of _ q]) simp
  with attrInv_prefixFree [OF assms(1,2)] show False ..
qed

theorem attributeGet_prefix_free_witness:
  "let root = fst (attributeSet sampleRoot (sampleAttribute ''b'')) in
   attrInv root \<and> attributeGet root (keyOf (sampleAttribute ''a'')) \<noteq> None \<and>
   attributeGet root (keyOf (sampleAttribute ''b'')) \<noteq> None \<and>
   \<not> strict_prefix (at_path (sampleAttribute ''a'')) (at_path (sampleAttribute ''b''))"
proof -
  let ?root = "fst (attributeSet sampleRoot (sampleAttribute ''b''))"
  have inv: "attrInv ?root"
    using attributeSet_spec [OF sampleRoot_inv, of "sampleAttribute ''b''"]
    by (cases "attributeSet sampleRoot (sampleAttribute ''b'')") simp
  have stored: "attributeGet ?root (keyOf (sampleAttribute ''a'')) \<noteq> None"
    "attributeGet ?root (keyOf (sampleAttribute ''b'')) \<noteq> None"
    by code_simp+
  have entity: "keyOf (sampleAttribute f) =
      \<lparr>ak_entity = at_entity (sampleAttribute []), ak_path = at_path (sampleAttribute f)\<rparr>" for f
    by (simp add: keyOf_def sampleAttribute_def)
  from attributeGet_prefix_free [OF inv stored [unfolded entity]] inv stored
  show ?thesis unfolding Let_def by blast
qed

end
