(* ===== verification/Codec.thy ===== *)
theory Codec
  imports Policy
begin

text \<open>
  The parts of Go's library that the store's tokens and fingerprints are built from: big-endian
  integers (encoding/binary), the unpadded URL alphabet of encoding/base64, and HMAC (crypto/hmac)
  over a hash function that is a parameter. The lemmas are the round trips and sizes the store
  relies on, and an interface of self-delimiting encoders.
\<close>

section \<open>Strings and bytes\<close>

definition stringBytes :: "string \<Rightarrow> bytes" where
  "stringBytes s = map (\<lambda>c. of_nat (of_char c)) s"

definition bytesString :: "bytes \<Rightarrow> string" where
  "bytesString bs = map (\<lambda>b. char_of (unat b)) bs"

section \<open>encoding/binary, big-endian\<close>

fun beBytes :: "nat \<Rightarrow> nat \<Rightarrow> bytes" where
  "beBytes 0 v = []"
| "beBytes (Suc n) v = beBytes n (v div 256) @ [of_nat (v mod 256)]"

definition beValue :: "bytes \<Rightarrow> nat" where
  "beValue bs = foldl (\<lambda>v b. v * 256 + unat b) 0 bs"

definition putUint64 :: "uint64 \<Rightarrow> bytes" where
  "putUint64 v = beBytes 8 (unat v)"

definition getUint64 :: "bytes \<Rightarrow> uint64" where
  "getUint64 bs = of_nat (beValue bs)"

section \<open>encoding/base64, RawURLEncoding\<close>

text \<open>The alphabet: the capital letters, the small letters, the digits, a dash and an underscore.\<close>

definition sextetChar :: "nat \<Rightarrow> char" where
  "sextetChar n =
     char_of (if n < 26 then n + 65 else if n < 52 then n + 71 else if n < 62 then n - 4
              else if n = 62 then 45 else 95)"

definition charSextet :: "char \<Rightarrow> nat option" where
  "charSextet c =
     (let n = of_char c
      in if 65 \<le> n \<and> n \<le> 90 then Some (n - 65)
         else if 97 \<le> n \<and> n \<le> 122 then Some (n - 71)
         else if 48 \<le> n \<and> n \<le> 57 then Some (n + 4)
         else if n = 45 then Some 62
         else if n = 95 then Some 63
         else None)"

fun encodeSextets :: "nat list \<Rightarrow> nat list" where
  "encodeSextets [] = []"
| "encodeSextets [a] = [a div 4, a mod 4 * 16]"
| "encodeSextets [a, b] = [a div 4, a mod 4 * 16 + b div 16, b mod 16 * 4]"
| "encodeSextets (a # b # c # rest) =
     [a div 4, a mod 4 * 16 + b div 16, b mod 16 * 4 + c div 64, c mod 64] @ encodeSextets rest"

definition base64EncodeToString :: "bytes \<Rightarrow> string" where
  "base64EncodeToString bs = map sextetChar (encodeSextets (map unat bs))"

text \<open>The decoder skips line breaks and, not being strict, ignores the spare bits of the last character.\<close>

fun decodeSextets :: "nat list \<Rightarrow> nat list option" where
  "decodeSextets [] = Some []"
| "decodeSextets [a] = None"
| "decodeSextets [a, b] = Some [a * 4 + b div 16]"
| "decodeSextets [a, b, c] = Some [a * 4 + b div 16, b mod 16 * 16 + c div 4]"
| "decodeSextets (a # b # c # d # rest) =
     map_option (append [a * 4 + b div 16, b mod 16 * 16 + c div 4, c mod 4 * 64 + d])
       (decodeSextets rest)"

fun charSextets :: "string \<Rightarrow> nat list option" where
  "charSextets [] = Some []"
| "charSextets (c # cs) =
     (if c = CHR 0x0A \<or> c = CHR 0x0D then charSextets cs
      else case charSextet c of
          None \<Rightarrow> None
        | Some n \<Rightarrow> map_option (Cons n) (charSextets cs))"

definition base64DecodeString :: "string \<Rightarrow> bytes option" where
  "base64DecodeString s =
     map_option (map of_nat) (Option.bind (charSextets s) decodeSextets)"

definition base64EncodedLen :: "nat \<Rightarrow> nat" where
  "base64EncodedLen n = n div 3 * 4 + (n mod 3 * 8 + 5) div 6"

section \<open>crypto/hmac\<close>

definition hmacBlockSize :: nat where "hmacBlockSize = 64"

definition hmacKey :: "(bytes \<Rightarrow> bytes) \<Rightarrow> bytes \<Rightarrow> bytes" where
  "hmacKey hash key =
     (let k = if length key > hmacBlockSize then hash key else key
      in k @ replicate (hmacBlockSize - length k) 0)"

definition hmac :: "(bytes \<Rightarrow> bytes) \<Rightarrow> bytes \<Rightarrow> bytes \<Rightarrow> bytes" where
  "hmac hash key msg =
     hash (map (xor 0x5c) (hmacKey hash key) @ hash (map (xor 0x36) (hmacKey hash key) @ msg))"

section \<open>Round trips\<close>

lemma length_beBytes [simp]: "length (beBytes n v) = n"
  by (induction n arbitrary: v) simp_all

lemma beValue_snoc [simp]: "beValue (bs @ [b]) = beValue bs * 256 + unat b"
  by (simp add: beValue_def)

lemma beValue_Nil [simp]: "beValue [] = 0"
  by (simp add: beValue_def)

lemma unat_byte: "unat (of_nat n :: 8 word) = n mod 256"
  by (simp add: unat_of_nat)

lemma beValue_beBytes: "beValue (beBytes n v) = v mod 256 ^ n"
proof (induction n arbitrary: v)
  case (Suc n)
  have "v mod 256 ^ Suc n = v div 256 mod 256 ^ n * 256 + v mod 256"
    by (simp add: mod_mult2_eq mult.commute)
  then show ?case
    by (simp add: Suc unat_byte)
qed simp

lemma beBytes_inject:
  assumes "u < 256 ^ n" "v < 256 ^ n"
  shows "beBytes n u = beBytes n v \<longleftrightarrow> u = v"
  using assms by (metis beValue_beBytes mod_less)

lemma getUint64_putUint64 [simp]: "getUint64 (putUint64 v) = v"
proof -
  have "unat v < 2 ^ LENGTH(64)"
    by (rule unsigned_less)
  then show ?thesis
    by (simp add: getUint64_def putUint64_def beValue_beBytes)
qed

lemma length_putUint64 [simp]: "length (putUint64 v) = 8"
  by (simp add: putUint64_def)

lemma putUint64_inject [simp]: "putUint64 u = putUint64 v \<longleftrightarrow> u = v"
  by (metis getUint64_putUint64)

lemma byte_char [simp]: "char_of (unat (of_nat (of_char c) :: 8 word)) = c"
  by (simp add: unat_byte)

lemma char_byte [simp]: "of_nat (unat (b :: 8 word) mod 256) = b"
proof -
  have "unat b < 2 ^ LENGTH(8)"
    by (rule unsigned_less)
  then show ?thesis by simp
qed

lemma bytesString_stringBytes [simp]: "bytesString (stringBytes s) = s"
  by (induction s) (simp_all add: bytesString_def stringBytes_def)

lemma stringBytes_bytesString [simp]: "stringBytes (bytesString bs) = bs"
  by (induction bs) (simp_all add: bytesString_def stringBytes_def)

lemma stringBytes_inject [simp]: "stringBytes s = stringBytes t \<longleftrightarrow> s = t"
  by (metis bytesString_stringBytes)

lemma length_stringBytes [simp]: "length (stringBytes s) = length s"
  by (simp add: stringBytes_def)
lemma sextetChar_spec:
  assumes "n < 64"
  shows "charSextet (sextetChar n) = Some n" "of_char (sextetChar n) \<in> {33..126::nat}"
proof -
  have c: "(of_char (sextetChar n) :: nat) =
      (if n < 26 then n + 65 else if n < 52 then n + 71 else if n < 62 then n - 4
       else if n = 62 then 45 else 95)"
    using assms unfolding sextetChar_def of_char_of by auto
  then show "charSextet (sextetChar n) = Some n"
    using assms unfolding charSextet_def Let_def c by auto
  show "of_char (sextetChar n) \<in> {33..126::nat}"
    unfolding c using assms by auto
qed

lemma encodeSextets_bound: "\<forall>b \<in> set bs. b < 256 \<Longrightarrow> \<forall>n \<in> set (encodeSextets bs). n < 64"
  by (induction bs rule: encodeSextets.induct) (auto; presburger)+

lemma decode_encode_sextets: "\<forall>b \<in> set bs. b < 256 \<Longrightarrow> decodeSextets (encodeSextets bs) = Some bs"
  by (induction bs rule: encodeSextets.induct) (auto; presburger)+

lemma charSextets_map: "\<forall>n \<in> set ns. n < 64 \<Longrightarrow> charSextets (map sextetChar ns) = Some ns"
proof (induction ns)
  case (Cons n ns)
  then have "(of_char (sextetChar n) :: nat) \<noteq> 10" "(of_char (sextetChar n) :: nat) \<noteq> 13"
    using sextetChar_spec(2) [of n] by auto
  then have "sextetChar n \<noteq> CHR 0x0A" "sextetChar n \<noteq> CHR 0x0D"
    by auto
  then show ?case
    using Cons sextetChar_spec(1) [of n] by simp
qed simp

lemma byte_less [simp]: "unat (b :: 8 word) < 256"
  using unsigned_less [of b, where 'a = nat] by simp

lemma base64_roundtrip [simp]: "base64DecodeString (base64EncodeToString bs) = Some bs"
proof -
  have b: "\<forall>n \<in> set (map unat bs). n < 256" by simp
  show ?thesis
    by (simp add: base64DecodeString_def base64EncodeToString_def
        charSextets_map [OF encodeSextets_bound [OF b]] decode_encode_sextets [OF b] comp_def map_idI)
qed

lemma length_encodeSextets: "length (encodeSextets bs) = base64EncodedLen (length bs)"
  by (induction bs rule: encodeSextets.induct) (simp_all add: base64EncodedLen_def, presburger)

lemma length_base64 [simp]: "length (base64EncodeToString bs) = base64EncodedLen (length bs)"
  by (simp add: base64EncodeToString_def length_encodeSextets)

lemma base64_chars: "c \<in> set (base64EncodeToString bs) \<Longrightarrow> of_char c \<in> {33..126::nat}"
  using encodeSextets_bound [of "map unat bs"] sextetChar_spec(2)
  by (auto simp: base64EncodeToString_def)

lemma base64_identifier:
  assumes "bs \<noteq> []" "base64EncodedLen (length bs) \<le> MaxIdentifierBytes"
  shows "validateIdentifier (base64EncodeToString bs) = Inr ()"
proof -
  have "encodeSextets (map unat bs) \<noteq> []"
    using assms(1) by (cases "map unat bs" rule: encodeSextets.cases) auto
  then show ?thesis
    unfolding validateIdentifier_def using assms(2) base64_chars [of _ bs]
    by (intro validateText_ascii) (force simp: base64EncodeToString_def [of bs] length_encodeSextets)+
qed

end
