(* ===== verification/Fingerprint.thy ===== *)
theory Fingerprint
  imports Codec Store_Types
begin

text \<open>
  store/idempotency.go: the replay scope of a data write and the fingerprint of its contents. The
  incremental hash h is modelled by the bytes written to it; SHA-256 is a parameter. The lemmas
  show that the byte stream determines the canonical request, so two requests with one fingerprint
  are the same mutation or exhibit a hash collision.
\<close>

section \<open>Scopes and records\<close>

definition IdempotencyWriteData :: nat where "IdempotencyWriteData = 1"

record IdempotencyScope =
  is_namespace :: string
  is_operation :: nat
  is_key :: string

definition NewIdempotencyScope :: "string \<Rightarrow> nat \<Rightarrow> string \<Rightarrow> IdempotencyScope result" where
  "NewIdempotencyScope namespace operation key =
     (if operation \<noteq> IdempotencyWriteData then Inl ErrorInvalidArgument
      else bindR (NewResolveRequest namespace key)
       (\<lambda>_. Inr \<lparr>is_namespace = namespace, is_operation = operation, is_key = key\<rparr>))"

definition validIdempotencyScope :: "IdempotencyScope \<Rightarrow> bool" where
  "validIdempotencyScope s = (NewIdempotencyScope (is_namespace s) (is_operation s) (is_key s) = Inr s)"

record IdempotencyFingerprint =
  fp_digest :: bytes
  fp_valid :: bool

definition fingerprintBytes :: "IdempotencyFingerprint \<Rightarrow> bytes" where
  "fingerprintBytes f = (if \<not> fp_valid f then [] else fp_digest f)"

record IdempotencyRecord =
  ir_scope :: IdempotencyScope
  ir_fingerprint :: IdempotencyFingerprint
  ir_response :: WriteDataResponse

definition NewIdempotencyRecord ::
  "IdempotencyScope \<Rightarrow> IdempotencyFingerprint \<Rightarrow> WriteDataResponse \<Rightarrow> IdempotencyRecord result" where
  "NewIdempotencyRecord scope fingerprint response =
     (if \<not> validIdempotencyScope scope \<or> \<not> fp_valid fingerprint \<or> dr_generation response = 0 \<or>
         dr_replayed response
      then Inl ErrorInvalidArgument
      else bindR (NewWriteDataResponse (dr_generation response) False)
       (\<lambda>_. Inr \<lparr>ir_scope = scope, ir_fingerprint = fingerprint, ir_response = response\<rparr>))"

definition validIdempotencyRecord :: "IdempotencyRecord \<Rightarrow> bool" where
  "validIdempotencyRecord r =
     isOk (NewIdempotencyRecord (ir_scope r) (ir_fingerprint r) (ir_response r))"

section \<open>The hashed stream\<close>

definition writeByte :: "8 word \<Rightarrow> bytes" where
  "writeByte v = [v]"

definition writeUint64 :: "uint64 \<Rightarrow> bytes" where
  "writeUint64 v = putUint64 v"

definition writeInt64 :: "64 word \<Rightarrow> bytes" where
  "writeInt64 v = writeUint64 v"

definition writeString :: "string \<Rightarrow> bytes" where
  "writeString v = writeUint64 (of_nat (length v)) @ stringBytes v"

definition writeStrings :: "string list \<Rightarrow> bytes" where
  "writeStrings vs = writeUint64 (of_nat (length vs)) @ concat (map writeString vs)"

definition writeRelationshipFields ::
  "string \<Rightarrow> string \<Rightarrow> string \<Rightarrow> string \<Rightarrow> string \<Rightarrow> string \<Rightarrow> bytes" where
  "writeRelationshipFields resourceType resourceID relation subjectType subjectID subjectRelation =
     writeString resourceType @ writeString resourceID @ writeString relation @
     writeString subjectType @ writeString subjectID @ writeString subjectRelation"

definition writeDSLRelationship :: "Tuple \<Rightarrow> bytes" where
  "writeDSLRelationship t =
     writeRelationshipFields (er_Type (tu_Resource t)) (er_ID (tu_Resource t)) (tu_Relation t)
       (sr_Type (tu_Subject t)) (sr_ID (tu_Subject t)) (sr_Relation (tu_Subject t))"

text \<open>
  Time.MarshalBinary of a UTC time: the version, the seconds and nanoseconds since the zero time,
  and the offset -1 that stands for UTC.
\<close>

definition marshalTime :: "Time \<Rightarrow> bytes" where
  "marshalTime t =
     [1] @ putUint64 (of_int (t div 1000000000)) @ beBytes 4 (nat (t mod 1000000000)) @ [0xff, 0xff]"

definition writeTime :: "Time \<Rightarrow> bytes" where
  "writeTime t = writeString (bytesString (marshalTime t))"

definition writeTuple :: "RelationshipTuple \<Rightarrow> bytes" where
  "writeTuple t =
     writeDSLRelationship (rt_tuple t) @
     (if \<not> rt_hasExpiry t then writeByte 0 else writeByte 1 @ writeTime (rt_expiresAt t))"

definition writeAttribute :: "Attribute \<Rightarrow> bytes" where
  "writeAttribute a =
     (let v = at_value a
      in writeString (er_Type (at_entity a)) @ writeString (er_ID (at_entity a)) @
         writeStrings (at_path a) @ writeByte (of_nat (va_kind v)) @
         (if va_kind v = ValueKindString then writeString (va_text v)
          else if va_kind v = ValueKindInteger then writeInt64 (va_integer v)
          else if va_kind v = ValueKindBoolean then writeByte (if va_boolean v then 1 else 0)
          else if va_kind v = ValueKindNull then writeByte 0
          else []))"

definition writeAttributeKey :: "AttributeKey \<Rightarrow> bytes" where
  "writeAttributeKey k =
     writeString (er_Type (ak_entity k)) @ writeString (er_ID (ak_entity k)) @ writeStrings (ak_path k)"

definition fingerprintStream :: "WriteDataRequest \<Rightarrow> bytes" where
  "fingerprintStream r =
     writeString (wr_namespace r) @ writeString (wr_validationRevisionID r) @
     writeUint64 (wr_expectedGeneration r) @
     concat (map writeTuple (wr_tupleWrites r)) @ writeByte 0xff @
     concat (map (\<lambda>k. writeDSLRelationship (tk_tuple k)) (wr_tupleDeletes r)) @ writeByte 0xfe @
     concat (map writeAttribute (wr_attributeWrites r)) @ writeByte 0xfd @
     concat (map writeAttributeKey (wr_attributeDeletes r))"

definition FingerprintWriteData ::
  "(bytes \<Rightarrow> bytes) \<Rightarrow> WriteDataRequest \<Rightarrow> (IdempotencyScope \<times> IdempotencyFingerprint) result" where
  "FingerprintWriteData sha256 request =
     bindR (NewWriteDataRequest request)
       (\<lambda>canonical. bindR (NewIdempotencyScope (wr_namespace canonical) IdempotencyWriteData
                             (wr_idempotencyKey canonical))
       (\<lambda>scope. Inr (scope, \<lparr>fp_digest = sha256 (fingerprintStream canonical), fp_valid = True\<rparr>)))"

lemmas write_defs = writeByte_def writeUint64_def writeInt64_def

section \<open>Self-delimiting encoders\<close>

text \<open>
  The interface of an encoder whose output can be split off a stream: the laws give unique
  decoding of sequences of items that are counted, closed by a terminator, or run to the end.
\<close>

locale self_delimiting =
  fixes good :: "'a \<Rightarrow> bool" and enc :: "'a \<Rightarrow> bytes" and first :: "8 word"
  assumes split: "good x \<Longrightarrow> good y \<Longrightarrow> enc x @ s = enc y @ t \<Longrightarrow> x = y \<and> s = t"
    and first: "good x \<Longrightarrow> \<exists>r. enc x = first # r"
begin

lemma split_iff [simp]: "good x \<Longrightarrow> good y \<Longrightarrow> enc x @ s = enc y @ t \<longleftrightarrow> x = y \<and> s = t"
  using split by blast

lemma counted:
  "length xs = length ys \<Longrightarrow> \<forall>x \<in> set xs. good x \<Longrightarrow> \<forall>y \<in> set ys. good y \<Longrightarrow>
   concat (map enc xs) @ s = concat (map enc ys) @ t \<longleftrightarrow> xs = ys \<and> s = t"
  by (induction xs ys rule: list_induct2) auto

lemma terminated:
  assumes "d \<noteq> first" "\<forall>x \<in> set xs. good x" "\<forall>y \<in> set ys. good y"
  shows "concat (map enc xs) @ d # s = concat (map enc ys) @ d # t \<longleftrightarrow> xs = ys \<and> s = t"
  using assms(2,3)
proof (induction xs arbitrary: ys)
  case Nil
  then show ?case
    using assms(1) first by (cases ys) fastforce+
next
  case (Cons x xs)
  show ?case
  proof (cases ys)
    case Nil
    then show ?thesis using Cons.prems(1) assms(1) first [of x] by auto
  next
    case (Cons y zs)
    then show ?thesis using Cons.IH [of zs] Cons.prems by auto
  qed
qed

lemma to_end:
  assumes "\<forall>x \<in> set xs. good x" "\<forall>y \<in> set ys. good y"
  shows "concat (map enc xs) = concat (map enc ys) \<longleftrightarrow> xs = ys"
  using terminated [of "first + 1" xs ys "[]" "[]"] assms by auto

end
definition shortText :: "string \<Rightarrow> bool" where
  "shortText s = (length s < 2 ^ 56)"

text \<open>The instants a time.Time can hold: its seconds fit a signed 64-bit integer.\<close>

definition representable :: "Time \<Rightarrow> bool" where
  "representable t = (- (2 ^ 63) \<le> t div 1000000000 \<and> t div 1000000000 < 2 ^ 63)"

lemma beBytes_first: "v < 256 ^ n \<Longrightarrow> beBytes (Suc n) v = 0 # beBytes n v"
proof (induction n arbitrary: v)
  case (Suc n)
  then have "v div 256 < 256 ^ n"
    by (simp add: less_mult_imp_div_less mult.commute)
  then show ?case
    using Suc.IH [of "v div 256"] by simp
qed simp

lemma putUint64_first: "n < 2 ^ 56 \<Longrightarrow> \<exists>r. putUint64 (of_nat n) = 0 # r"
proof -
  assume n: "n < 2 ^ 56"
  then have "unat (of_nat n :: uint64) = n"
    by (simp add: unat_of_nat)
  moreover have "(8::nat) = Suc 7" "(256::nat) ^ 7 = 2 ^ 56"
    by simp_all
  ultimately show ?thesis
    using n beBytes_first [of n 7] unfolding putUint64_def by auto
qed

lemma of_nat_length_inject:
  "m < 2 ^ 56 \<Longrightarrow> n < 2 ^ 56 \<Longrightarrow> (of_nat m :: uint64) = of_nat n \<longleftrightarrow> m = n"
  by (auto simp: word_of_nat_eq_iff take_bit_nat_eq_self)

interpretation textCode: self_delimiting shortText writeString 0
proof
  fix x y :: string and s t
  assume xy: "shortText x" "shortText y" "writeString x @ s = writeString y @ t"
  then have "putUint64 (of_nat (length x)) = putUint64 (of_nat (length y))"
    "stringBytes x @ s = stringBytes y @ t"
    by (simp_all add: writeString_def write_defs)
  moreover from this(1) have "length x = length y"
    using xy by (simp add: shortText_def of_nat_length_inject)
  ultimately show "x = y \<and> s = t" by simp
next
  fix x :: string
  assume "shortText x"
  then show "\<exists>r. writeString x = 0 # r"
    using putUint64_first [of "length x"] by (auto simp: shortText_def writeString_def write_defs)
qed

lemma writeStrings_split:
  assumes "length xs < 2 ^ 56" "length ys < 2 ^ 56" "\<forall>x \<in> set xs. shortText x" "\<forall>y \<in> set ys. shortText y"
  shows "writeStrings xs @ s = writeStrings ys @ t \<longleftrightarrow> xs = ys \<and> s = t"
proof
  assume eq: "writeStrings xs @ s = writeStrings ys @ t"
  then have "length xs = length ys" "concat (map writeString xs) @ s = concat (map writeString ys) @ t"
    using assms(1,2) by (simp_all add: writeStrings_def write_defs of_nat_length_inject)
  then show "xs = ys \<and> s = t"
    using textCode.counted assms(3,4) by blast
qed simp

section \<open>The stream's items\<close>

definition shortTuple :: "Tuple \<Rightarrow> bool" where
  "shortTuple t =
     (shortText (er_Type (tu_Resource t)) \<and> shortText (er_ID (tu_Resource t)) \<and>
      shortText (tu_Relation t) \<and> shortText (sr_Type (tu_Subject t)) \<and>
      shortText (sr_ID (tu_Subject t)) \<and> shortText (sr_Relation (tu_Subject t)))"

lemma writeDSLRelationship_split:
  "shortTuple x \<Longrightarrow> shortTuple y \<Longrightarrow>
     writeDSLRelationship x @ s = writeDSLRelationship y @ t \<longleftrightarrow> x = y \<and> s = t"
  by (auto simp: writeDSLRelationship_def writeRelationshipFields_def shortTuple_def
      intro!: Tuple.equality EntityRef.equality SubjectRef.equality)

interpretation keyCode: self_delimiting "\<lambda>k :: TupleKey. shortTuple (tk_tuple k)"
  "\<lambda>k :: TupleKey. writeDSLRelationship (tk_tuple k)" 0
proof
  fix x y :: TupleKey and s t
  assume "shortTuple (tk_tuple x)" "shortTuple (tk_tuple y)"
    "writeDSLRelationship (tk_tuple x) @ s = writeDSLRelationship (tk_tuple y) @ t"
  then show "x = y \<and> s = t"
    by (auto simp: writeDSLRelationship_split intro: TupleKey.equality)
next
  fix x :: TupleKey
  assume "shortTuple (tk_tuple x)"
  then show "\<exists>r. writeDSLRelationship (tk_tuple x) = 0 # r"
    using textCode.first
    by (force simp: shortTuple_def writeDSLRelationship_def writeRelationshipFields_def)
qed

lemma marshalTime_length [simp]: "length (marshalTime t) = 15"
  by (simp add: marshalTime_def)

lemma of_int_seconds_inject:
  "representable t \<Longrightarrow> representable u \<Longrightarrow>
     (of_int (t div 1000000000) :: uint64) = of_int (u div 1000000000) \<longleftrightarrow>
     t div 1000000000 = u div 1000000000"
proof -
  assume "representable t" "representable u"
  moreover have "sint (of_int k :: uint64) = k" if "- (2 ^ 63) \<le> k" "k < 2 ^ 63" for k
    using that by (simp add: signed_of_int signed_take_bit_int_eq_self)
  ultimately show ?thesis
    by (metis representable_def)
qed

lemma marshalTime_inject:
  assumes "representable t" "representable u"
  shows "marshalTime t = marshalTime u \<longleftrightarrow> t = u"
proof
  assume "marshalTime t = marshalTime u"
  then have s: "t div 1000000000 = u div 1000000000"
    and "beBytes 4 (nat (t mod 1000000000)) = beBytes 4 (nat (u mod 1000000000))"
    using of_int_seconds_inject [OF assms] by (simp_all add: marshalTime_def)
  moreover have "nat (k mod 1000000000) < 256 ^ 4" for k :: int
    using pos_mod_bound [of 1000000000 k] by (simp add: nat_less_iff)
  ultimately have "nat (t mod 1000000000) = nat (u mod 1000000000)"
    using beBytes_inject by blast
  then have "t mod 1000000000 = u mod 1000000000"
    by (simp add: nat_eq_iff2)
  with s show "t = u" by (metis div_mult_mod_eq)
qed simp

lemma writeTime_split:
  assumes "representable t" "representable u"
  shows "writeTime t @ a = writeTime u @ b \<longleftrightarrow> t = u \<and> a = b"
proof -
  have "shortText (bytesString (marshalTime t))" for t
    by (simp add: shortText_def bytesString_def)
  moreover have "bytesString (marshalTime t) = bytesString (marshalTime u) \<longleftrightarrow> t = u"
    using marshalTime_inject [OF assms] stringBytes_bytesString by metis
  ultimately show ?thesis by (simp add: writeTime_def)
qed

definition goodTuple :: "RelationshipTuple \<Rightarrow> bool" where
  "goodTuple t = (shortTuple (rt_tuple t) \<and> validRelationshipTuple t \<and> representable (rt_expiresAt t))"

interpretation tupleCode: self_delimiting goodTuple writeTuple 0
proof
  fix x y :: RelationshipTuple and s t
  assume xy: "goodTuple x" "goodTuple y" "writeTuple x @ s = writeTuple y @ t"
  then have tu: "rt_tuple x = rt_tuple y"
    and rest: "(if \<not> rt_hasExpiry x then writeByte 0 else writeByte 1 @ writeTime (rt_expiresAt x)) @ s =
      (if \<not> rt_hasExpiry y then writeByte 0 else writeByte 1 @ writeTime (rt_expiresAt y)) @ t"
    by (simp_all add: writeTuple_def goodTuple_def writeDSLRelationship_split)
  from rest xy(1,2) have "rt_hasExpiry x = rt_hasExpiry y \<and> rt_expiresAt x = rt_expiresAt y \<and> s = t"
    by (auto simp: write_defs goodTuple_def writeTime_split validRelationshipTuple_def isZeroTime_def
        split: if_splits)
  with tu show "x = y \<and> s = t"
    by (auto intro: RelationshipTuple.equality)
next
  fix x
  assume "goodTuple x"
  then obtain r where "writeDSLRelationship (rt_tuple x) = 0 # r"
    using keyCode.first [of "\<lparr>tk_tuple = rt_tuple x\<rparr>"] by (auto simp: goodTuple_def)
  then show "\<exists>r. writeTuple x = 0 # r"
    by (simp add: writeTuple_def)
qed

definition shortEntity :: "EntityRef \<Rightarrow> bool" where
  "shortEntity e = (shortText (er_Type e) \<and> shortText (er_ID e))"

definition shortPath :: "string list \<Rightarrow> bool" where
  "shortPath p = (length p < 2 ^ 56 \<and> (\<forall>s \<in> set p. shortText s))"

lemma writeStrings_split_iff [simp]:
  "shortPath p \<Longrightarrow> shortPath q \<Longrightarrow> writeStrings p @ s = writeStrings q @ t \<longleftrightarrow> p = q \<and> s = t"
  unfolding shortPath_def using writeStrings_split by blast

interpretation attributeKeyCode: self_delimiting
  "\<lambda>k :: AttributeKey. shortEntity (ak_entity k) \<and> shortPath (ak_path k)" writeAttributeKey 0
proof
  fix x y :: AttributeKey and s t
  assume "shortEntity (ak_entity x) \<and> shortPath (ak_path x)" "shortEntity (ak_entity y) \<and> shortPath (ak_path y)"
    "writeAttributeKey x @ s = writeAttributeKey y @ t"
  then show "x = y \<and> s = t"
    by (auto simp: writeAttributeKey_def shortEntity_def intro!: AttributeKey.equality EntityRef.equality)
next
  fix x :: AttributeKey
  assume "shortEntity (ak_entity x) \<and> shortPath (ak_path x)"
  then show "\<exists>r. writeAttributeKey x = 0 # r"
    using textCode.first by (force simp: writeAttributeKey_def shortEntity_def)
qed

definition writeValue :: "Value \<Rightarrow> bytes" where
  "writeValue v =
     writeByte (of_nat (va_kind v)) @
     (if va_kind v = ValueKindString then writeString (va_text v)
      else if va_kind v = ValueKindInteger then writeInt64 (va_integer v)
      else if va_kind v = ValueKindBoolean then writeByte (if va_boolean v then 1 else 0)
      else if va_kind v = ValueKindNull then writeByte 0
      else [])"

lemma writeAttribute_key: "writeAttribute a = writeAttributeKey (attributeKeyOf a) @ writeValue (at_value a)"
  by (simp add: writeAttribute_def writeAttributeKey_def writeValue_def attributeKeyOf_def Let_def)

lemma validValue_kind: "validValue v \<Longrightarrow> va_kind v \<in> {1, 2, 3, 4}"
  by (auto simp: validValue_def value_kinds split: if_splits)

lemma writeValue_split:
  assumes "validValue v" "validValue w" "shortText (va_text v)" "shortText (va_text w)"
    and eq: "writeValue v @ s = writeValue w @ t"
  shows "v = w \<and> s = t"
proof -
  have kinds: "va_kind v \<in> {1, 2, 3, 4}" "va_kind w \<in> {1, 2, 3, 4}"
    using assms validValue_kind by blast+
  moreover have "(of_nat (va_kind v) :: 8 word) = of_nat (va_kind w)"
    using eq by (simp add: writeValue_def write_defs)
  ultimately have "va_kind v = va_kind w"
    by auto
  with kinds assms show ?thesis
    by (auto simp: writeValue_def validValue_def value_kinds write_defs split: if_splits
        intro!: Value.equality)
qed

definition goodAttribute :: "Attribute \<Rightarrow> bool" where
  "goodAttribute a =
     (shortEntity (at_entity a) \<and> shortPath (at_path a) \<and> validValue (at_value a) \<and>
      shortText (va_text (at_value a)))"

interpretation attributeCode: self_delimiting goodAttribute writeAttribute 0
proof
  fix x y :: Attribute and s t
  assume xy: "goodAttribute x" "goodAttribute y" "writeAttribute x @ s = writeAttribute y @ t"
  then have "attributeKeyOf x = attributeKeyOf y \<and>
      writeValue (at_value x) @ s = writeValue (at_value y) @ t"
    unfolding writeAttribute_key append_assoc
    by (intro attributeKeyCode.split) (simp_all add: goodAttribute_def attributeKeyOf_def)
  then have key: "at_entity x = at_entity y" "at_path x = at_path y"
    and val: "writeValue (at_value x) @ s = writeValue (at_value y) @ t"
    by (simp_all add: attributeKeyOf_def)
  from xy(1,2) writeValue_split [OF _ _ _ _ val] have "at_value x = at_value y" "s = t"
    by (simp_all add: goodAttribute_def)
  with key show "x = y \<and> s = t" by simp
next
  fix x
  assume "goodAttribute x"
  then obtain r where "writeAttributeKey (attributeKeyOf x) = 0 # r"
    using attributeKeyCode.first [of "attributeKeyOf x"] by (auto simp: goodAttribute_def attributeKeyOf_def)
  then show "\<exists>r. writeAttribute x = 0 # r"
    by (simp add: writeAttribute_key)
qed

section \<open>The stream determines the mutation\<close>

lemma identifier_short: "validateIdentifier s = Inr () \<Longrightarrow> shortText s"
  using validateIdentifier_length [of s] by (simp add: shortText_def)

lemma optional_short: "validateOptionalIdentifier s = Inr () \<Longrightarrow> shortText s"
  by (simp add: validateOptionalIdentifier_def validateText_Inr_iff shortText_def limit_defs)

lemma relationship_short: "validateDSLRelationship t = Inr () \<Longrightarrow> shortTuple t"
  by (simp add: validateDSLRelationship_def validateEntityRef_def validateSubjectRef_def shortTuple_def
      identifier_short optional_short)

lemma entity_short: "validateEntityRef e = Inr () \<Longrightarrow> shortEntity e"
  by (simp add: validateEntityRef_def shortEntity_def identifier_short)

lemma path_short: "validateAttributePath p = Inr () \<Longrightarrow> shortPath p"
proof -
  assume "validateAttributePath p = Inr ()"
  then have "length p \<le> 100000" "\<forall>s \<in> set p. length s \<le> 1024"
    by (simp_all add: validateAttributePath_Inr_iff limit_defs)
  then show ?thesis
    unfolding shortPath_def shortText_def by fastforce
qed

lemma value_short: "validValue v \<Longrightarrow> shortText (va_text v)"
  by (auto simp: validValue_def isOk_Inr_unit validateText_Inr_iff shortText_def limit_defs split: if_splits)

definition goodRequest :: "WriteDataRequest \<Rightarrow> bool" where
  "goodRequest r =
     (shortText (wr_namespace r) \<and> shortText (wr_validationRevisionID r) \<and>
      (\<forall>t \<in> set (wr_tupleWrites r). goodTuple t) \<and>
      (\<forall>k \<in> set (wr_tupleDeletes r). shortTuple (tk_tuple k)) \<and>
      (\<forall>a \<in> set (wr_attributeWrites r). goodAttribute a) \<and>
      (\<forall>k \<in> set (wr_attributeDeletes r). shortEntity (ak_entity k) \<and> shortPath (ak_path k)))"

lemma validMutations_good:
  assumes "validMutations r" "\<forall>t \<in> set (wr_tupleWrites r). representable (rt_expiresAt t)"
  shows "goodRequest r"
proof -
  have "shortText (wr_namespace r)" "shortText (wr_validationRevisionID r)"
    using assms(1) validNamespace_length [of "wr_namespace r"]
    by (auto simp: validMutations_def shortText_def validRevisionIDString_def)
  moreover have "goodTuple t" if "t \<in> set (wr_tupleWrites r)" for t
    using assms that relationship_short
    by (auto simp: validMutations_def goodTuple_def validRelationshipTuple_def isOk_Inr_unit)
  moreover have "shortTuple (tk_tuple k)" if "k \<in> set (wr_tupleDeletes r)" for k
    using assms(1) that relationship_short
    by (auto simp: validMutations_def validTupleKey_def isOk_Inr_unit)
  moreover have "goodAttribute a" if "a \<in> set (wr_attributeWrites r)" for a
    using assms(1) that entity_short path_short value_short
    by (auto simp: validMutations_def goodAttribute_def validAttribute_def isOk_Inr_unit validateValue_def
        split: if_splits)
  moreover have "shortEntity (ak_entity k) \<and> shortPath (ak_path k)"
    if "k \<in> set (wr_attributeDeletes r)" for k
    using assms(1) that entity_short path_short
    by (auto simp: validMutations_def validAttributeKey_def isOk_Inr_unit)
  ultimately show ?thesis by (simp add: goodRequest_def)
qed

lemma fingerprintStream_inject:
  assumes "goodRequest r" "goodRequest s"
  shows "fingerprintStream r = fingerprintStream s \<longleftrightarrow>
    s = r\<lparr>wr_idempotencyKey := wr_idempotencyKey s\<rparr>"
proof
  note good = assms [unfolded goodRequest_def]
  assume eq: "fingerprintStream r = fingerprintStream s"
  then have head: "wr_namespace r = wr_namespace s" "wr_validationRevisionID r = wr_validationRevisionID s"
    "wr_expectedGeneration r = wr_expectedGeneration s"
    using good by (simp_all add: fingerprintStream_def write_defs)
  have tail: "concat (map writeTuple (wr_tupleWrites r)) @ 0xff #
      concat (map (\<lambda>k. writeDSLRelationship (tk_tuple k)) (wr_tupleDeletes r)) @ 0xfe #
      concat (map writeAttribute (wr_attributeWrites r)) @ 0xfd #
      concat (map writeAttributeKey (wr_attributeDeletes r)) =
    concat (map writeTuple (wr_tupleWrites s)) @ 0xff #
      concat (map (\<lambda>k. writeDSLRelationship (tk_tuple k)) (wr_tupleDeletes s)) @ 0xfe #
      concat (map writeAttribute (wr_attributeWrites s)) @ 0xfd #
      concat (map writeAttributeKey (wr_attributeDeletes s))"
    using eq good by (simp add: fingerprintStream_def write_defs)
  have tw: "wr_tupleWrites r = wr_tupleWrites s"
    and tail: "concat (map (\<lambda>k. writeDSLRelationship (tk_tuple k)) (wr_tupleDeletes r)) @ 0xfe #
      concat (map writeAttribute (wr_attributeWrites r)) @ 0xfd #
      concat (map writeAttributeKey (wr_attributeDeletes r)) =
    concat (map (\<lambda>k. writeDSLRelationship (tk_tuple k)) (wr_tupleDeletes s)) @ 0xfe #
      concat (map writeAttribute (wr_attributeWrites s)) @ 0xfd #
      concat (map writeAttributeKey (wr_attributeDeletes s))"
    using tupleCode.terminated [THEN iffD1, OF _ _ _ tail] good by simp_all
  have td: "wr_tupleDeletes r = wr_tupleDeletes s"
    and tail: "concat (map writeAttribute (wr_attributeWrites r)) @ 0xfd #
      concat (map writeAttributeKey (wr_attributeDeletes r)) =
    concat (map writeAttribute (wr_attributeWrites s)) @ 0xfd #
      concat (map writeAttributeKey (wr_attributeDeletes s))"
    using keyCode.terminated [THEN iffD1, OF _ _ _ tail] good by simp_all
  have aw: "wr_attributeWrites r = wr_attributeWrites s"
    and tail: "concat (map writeAttributeKey (wr_attributeDeletes r)) =
      concat (map writeAttributeKey (wr_attributeDeletes s))"
    using attributeCode.terminated [THEN iffD1, OF _ _ _ tail] good by simp_all
  have "wr_attributeDeletes r = wr_attributeDeletes s"
    using attributeKeyCode.to_end [THEN iffD1, OF _ _ tail] good by simp
  with head tw td aw show "s = r\<lparr>wr_idempotencyKey := wr_idempotencyKey s\<rparr>" by simp
next
  assume s: "s = r\<lparr>wr_idempotencyKey := wr_idempotencyKey s\<rparr>"
  show "fingerprintStream r = fingerprintStream s"
    by (subst s) (simp add: fingerprintStream_def)
qed

section \<open>Properties\<close>

lemma FingerprintWriteData_accepted:
  assumes "NewWriteDataRequest r = Inr c"
  shows "FingerprintWriteData sha256 r =
    Inr (\<lparr>is_namespace = wr_namespace r, is_operation = IdempotencyWriteData, is_key = wr_idempotencyKey r\<rparr>,
         \<lparr>fp_digest = sha256 (fingerprintStream c), fp_valid = True\<rparr>)"
proof -
  have "validMutations r" "sameMutations r c"
    using assms by (simp_all add: NewWriteDataRequest_Inr_iff)
  then show ?thesis
    using assms
    by (simp add: FingerprintWriteData_def NewIdempotencyScope_def NewResolveRequest_def validMutations_def
        sameMutations_def validNamespace_def validIdentifier_def isOk_Inr_unit)
qed

text \<open>
  C17: two accepted write requests whose hashed streams do not collide have the same fingerprint
  exactly when their canonical forms agree in everything but the idempotency key: reordering the
  mutations never changes the fingerprint and any other difference does. Expiry instants are those
  a time.Time can represent.
\<close>

theorem FingerprintWriteData_identifies:
  assumes "NewWriteDataRequest r = Inr c" and "NewWriteDataRequest s = Inr d"
    and "\<forall>t \<in> set (wr_tupleWrites r) \<union> set (wr_tupleWrites s). representable (rt_expiresAt t)"
    and collision_free: "sha256 (fingerprintStream c) = sha256 (fingerprintStream d) \<Longrightarrow>
      fingerprintStream c = fingerprintStream d"
  shows "map_sum id snd (FingerprintWriteData sha256 r) = map_sum id snd (FingerprintWriteData sha256 s) \<longleftrightarrow>
    d = c\<lparr>wr_idempotencyKey := wr_idempotencyKey d\<rparr>"
proof -
  have same: "sameMutations r c" "sameMutations s d" "validMutations r" "validMutations s"
    using assms(1,2) by (simp_all add: NewWriteDataRequest_Inr_iff)
  then have "validMutations c" "validMutations d"
    by (simp_all add: sameMutations_transfer)
  moreover have "set (wr_tupleWrites c) = set (wr_tupleWrites r)" "set (wr_tupleWrites d) = set (wr_tupleWrites s)"
    using same by (simp_all add: sameMutations_def)
  ultimately have "goodRequest c" "goodRequest d"
    using assms(3) by (simp_all add: validMutations_good)
  then show ?thesis
    using collision_free fingerprintStream_inject [of c d]
    by (auto simp: FingerprintWriteData_accepted [OF assms(1)] FingerprintWriteData_accepted [OF assms(2)])
qed

lemma sample_accepted_at:
  "NewWriteDataRequest (sampleRequest\<lparr>wr_expectedGeneration := g\<rparr>) = Inr (sampleCanonical\<lparr>wr_expectedGeneration := g\<rparr>)"
  using sample_fits sample_valid sample_coherent sample_canonical
  by (simp add: NewWriteDataRequest_Inr_iff fitsMutations_def validMutations_def coherentMutations_def
      sameMutations_def sortedMutations_def mutationItems_def writeBytes_def)

theorem FingerprintWriteData_identifies_witness:
  "map_sum id snd (FingerprintWriteData id sampleRequest) \<noteq>
   map_sum id snd (FingerprintWriteData id (sampleRequest\<lparr>wr_expectedGeneration := 1\<rparr>))"
proof -
  have "\<forall>t \<in> set (wr_tupleWrites sampleRequest) \<union>
      set (wr_tupleWrites (sampleRequest\<lparr>wr_expectedGeneration := 1\<rparr>)). representable (rt_expiresAt t)"
    by (simp add: sample_defs representable_def)
  from FingerprintWriteData_identifies [OF sample_accepted sample_accepted_at this, of id]
  show ?thesis by (simp add: sampleCanonical_def sampleRequest_def)
qed

end
