(* ===== verification/Cursors.thy ===== *)
theory Cursors
  imports Fingerprint
begin

text \<open>
  store/memory/cursors.go: page tokens. A token is the base64 form of a payload that names its
  domain, a keyed digest of its scope and the position after which the page continues, followed by
  an HMAC of the payload. The store's cursor key and the hash are parameters.
\<close>

section \<open>Tokens\<close>

record cursorState =
  cu_domain :: string
  cu_namespace :: string
  cu_slot :: string
  cu_position :: uint64
  cu_revisionPublishedAt :: Time
  cu_revisionID :: string

definition zeroCursor :: cursorState where
  "zeroCursor =
     \<lparr>cu_domain = [], cu_namespace = [], cu_slot = [], cu_position = 0, cu_revisionPublishedAt = 0,
      cu_revisionID = []\<rparr>"

definition cursorVersion :: "8 word" where "cursorVersion = 1"
definition cursorScopeLen :: nat where "cursorScopeLen = 16"
definition cursorMACLen :: nat where "cursorMACLen = 32"

definition cursorFixedLen :: nat where
  "cursorFixedLen = 1 + 1 + cursorScopeLen + 8 + 8 + 4 + 2 + cursorMACLen"

lemmas cursor_lens = cursorVersion_def cursorScopeLen_def cursorMACLen_def cursorFixedLen_def

definition cursorDomainID :: "string \<Rightarrow> (8 word) option" where
  "cursorDomainID domain =
     (if domain = ''revision'' then Some 1
      else if domain = ''history'' then Some 2
      else if domain = ''event'' then Some 3
      else None)"

definition scopeMessage :: "string \<Rightarrow> string \<Rightarrow> string \<Rightarrow> bytes" where
  "scopeMessage domain namespace slot =
     stringBytes (''scope'' @ [CHR 0x00]) @ stringBytes domain @ [0] @ stringBytes namespace @ [0] @
     stringBytes slot"

definition cursorScope :: "(bytes \<Rightarrow> bytes) \<Rightarrow> bytes \<Rightarrow> string \<Rightarrow> string \<Rightarrow> string \<Rightarrow> bytes" where
  "cursorScope sha256 cursorKey domain namespace slot =
     take cursorScopeLen (hmac sha256 cursorKey (scopeMessage domain namespace slot) @
       replicate cursorScopeLen 0)"

text \<open>Time.Unix, Time.Nanosecond and time.Unix: the Unix epoch is 62135596800 seconds after the zero time.\<close>

definition unixSeconds :: "Time \<Rightarrow> int" where
  "unixSeconds t = t div 1000000000 - 62135596800"

definition timeUnix :: "int \<Rightarrow> int \<Rightarrow> Time" where
  "timeUnix sec nsec = (sec + 62135596800) * 1000000000 + nsec"

definition cursorPayload :: "(bytes \<Rightarrow> bytes) \<Rightarrow> bytes \<Rightarrow> 8 word \<Rightarrow> cursorState \<Rightarrow> bytes" where
  "cursorPayload sha256 cursorKey domainID cursor =
     [cursorVersion, domainID] @
     cursorScope sha256 cursorKey (cu_domain cursor) (cu_namespace cursor) (cu_slot cursor) @
     putUint64 (cu_position cursor) @
     (if cu_domain cursor = ''revision'' then putUint64 (of_int (unixSeconds (cu_revisionPublishedAt cursor)))
      else replicate 8 0) @
     (if cu_domain cursor = ''revision''
      then beBytes 4 (nat (cu_revisionPublishedAt cursor mod 1000000000)) else replicate 4 0) @
     beBytes 2 (length (cu_revisionID cursor)) @ stringBytes (cu_revisionID cursor)"

definition newCursorLocked :: "(bytes \<Rightarrow> bytes) \<Rightarrow> bytes \<Rightarrow> bool \<Rightarrow> cursorState \<Rightarrow> string result" where
  "newCursorLocked sha256 cursorKey cursorKeyOK cursor =
     (case cursorDomainID (cu_domain cursor) of
        None \<Rightarrow> Inl ErrorInternal
      | Some domainID \<Rightarrow>
          if \<not> cursorKeyOK \<or> length (cu_revisionID cursor) > 65535 then Inl ErrorInternal
          else if cu_domain cursor = ''revision'' \<and>
                  (cu_position cursor \<noteq> 0 \<or> isZeroTime (cu_revisionPublishedAt cursor) \<or>
                   cu_revisionID cursor = [])
          then Inl ErrorInternal
          else if cu_domain cursor \<noteq> ''revision'' \<and>
                  (cu_position cursor = 0 \<or> \<not> isZeroTime (cu_revisionPublishedAt cursor) \<or>
                   cu_revisionID cursor \<noteq> [])
          then Inl ErrorInternal
          else if base64EncodedLen (cursorFixedLen - cursorMACLen + length (cu_revisionID cursor) +
                    cursorMACLen) > MaxIdentifierBytes
          then Inl ErrorInternal
          else let payload = cursorPayload sha256 cursorKey domainID cursor
               in Inr (base64EncodeToString (payload @ hmac sha256 cursorKey payload)))"

definition cursorStateLocked ::
  "(bytes \<Rightarrow> bytes) \<Rightarrow> bytes \<Rightarrow> bool \<Rightarrow> string \<Rightarrow> string \<Rightarrow> string \<Rightarrow> string \<Rightarrow> cursorState result" where
  "cursorStateLocked sha256 cursorKey cursorKeyOK token domain namespace slot =
     (if token = [] then Inr zeroCursor
      else case cursorDomainID domain of
        None \<Rightarrow> Inl ErrorInternal
      | Some domainID \<Rightarrow>
          if \<not> cursorKeyOK then Inl ErrorInternal
          else if length token > MaxIdentifierBytes then Inl ErrorInvalidArgument
          else case base64DecodeString token of
            None \<Rightarrow> Inl ErrorInvalidArgument
          | Some raw \<Rightarrow>
              if length raw < cursorFixedLen then Inl ErrorInvalidArgument
              else
                let payload = take (length raw - cursorMACLen) raw;
                    suppliedMAC = drop (length raw - cursorMACLen) raw;
                    position = getUint64 (take 8 (drop 18 payload));
                    publishedSeconds = sint (getUint64 (take 8 (drop 26 payload)));
                    publishedNanos = beValue (take 4 (drop 34 payload));
                    revisionLen = beValue (take 2 (drop 38 payload));
                    rest = drop 40 payload
                in if suppliedMAC \<noteq> hmac sha256 cursorKey payload \<or> payload ! 0 \<noteq> cursorVersion \<or>
                      payload ! 1 \<noteq> domainID
                   then Inl ErrorInvalidArgument
                   else if take cursorScopeLen (drop 2 payload) \<noteq> cursorScope sha256 cursorKey domain namespace slot
                   then Inl ErrorInvalidArgument
                   else if publishedNanos \<ge> 1000000000 then Inl ErrorInvalidArgument
                   else if revisionLen \<noteq> length rest then Inl ErrorInvalidArgument
                   else if domain = ''revision'' then
                     (let published = timeUnix publishedSeconds (int publishedNanos)
                      in if position \<noteq> 0 \<or> revisionLen = 0 \<or> isZeroTime published
                         then Inl ErrorInvalidArgument
                         else Inr \<lparr>cu_domain = domain, cu_namespace = namespace, cu_slot = slot,
                                   cu_position = position, cu_revisionPublishedAt = published,
                                   cu_revisionID = bytesString rest\<rparr>)
                   else
                     (if position = 0 \<or> publishedSeconds \<noteq> 0 \<or> publishedNanos \<noteq> 0 \<or> revisionLen \<noteq> 0
                      then Inl ErrorInvalidArgument
                      else Inr \<lparr>cu_domain = domain, cu_namespace = namespace, cu_slot = slot,
                                cu_position = position, cu_revisionPublishedAt = 0,
                                cu_revisionID = bytesString rest\<rparr>))"

definition cursorPositionLocked ::
  "(bytes \<Rightarrow> bytes) \<Rightarrow> bytes \<Rightarrow> bool \<Rightarrow> string \<Rightarrow> string \<Rightarrow> string \<Rightarrow> string \<Rightarrow> uint64 result" where
  "cursorPositionLocked sha256 cursorKey cursorKeyOK token domain namespace slot =
     bindR (cursorStateLocked sha256 cursorKey cursorKeyOK token domain namespace slot)
       (\<lambda>cursor. Inr (cu_position cursor))"

section \<open>Reading back a minted token\<close>

lemma length_cursorScope [simp]: "length (cursorScope sha256 key d n s) = 16"
  by (simp add: cursorScope_def cursor_lens)

lemma cursorPayload_parts:
  fixes sha256 key i c
  defines "p \<equiv> cursorPayload sha256 key i c"
  shows "length p = 40 + length (cu_revisionID c)" and "p ! 0 = 1" and "p ! 1 = i"
    and "take 16 (drop 2 p) = cursorScope sha256 key (cu_domain c) (cu_namespace c) (cu_slot c)"
    and "take 8 (drop 18 p) = putUint64 (cu_position c)"
    and "take 8 (drop 26 p) = (if cu_domain c = ''revision''
          then putUint64 (of_int (unixSeconds (cu_revisionPublishedAt c))) else replicate 8 0)"
    and "take 4 (drop 34 p) = (if cu_domain c = ''revision''
          then beBytes 4 (nat (cu_revisionPublishedAt c mod 1000000000)) else replicate 4 0)"
    and "take 2 (drop 38 p) = beBytes 2 (length (cu_revisionID c))"
    and "drop 40 p = stringBytes (cu_revisionID c)"
  by (simp_all add: p_def cursorPayload_def cursor_lens)
text \<open>SHA-256 digests have 32 bytes.\<close>

definition digests32 :: "(bytes \<Rightarrow> bytes) \<Rightarrow> bool" where
  "digests32 sha256 = (\<forall>bs. length (sha256 bs) = 32)"

lemma length_hmac: "digests32 sha256 \<Longrightarrow> length (hmac sha256 key msg) = 32"
  by (simp add: digests32_def hmac_def)

lemma cursorDomainID_inject:
  "cursorDomainID d = Some i \<Longrightarrow> cursorDomainID e = Some i \<longleftrightarrow> d = e"
  by (auto simp: cursorDomainID_def split: if_splits)

definition wellFormedCursor :: "cursorState \<Rightarrow> bool" where
  "wellFormedCursor c \<longleftrightarrow>
     cursorDomainID (cu_domain c) \<noteq> None \<and>
     (if cu_domain c = ''revision''
      then cu_position c = 0 \<and> \<not> isZeroTime (cu_revisionPublishedAt c) \<and> cu_revisionID c \<noteq> []
      else cu_position c \<noteq> 0 \<and> isZeroTime (cu_revisionPublishedAt c) \<and> cu_revisionID c = []) \<and>
     base64EncodedLen (72 + length (cu_revisionID c)) \<le> MaxIdentifierBytes"

lemma wellFormedCursor_len: "wellFormedCursor c \<Longrightarrow> length (cu_revisionID c) \<le> 65535"
proof -
  assume "wellFormedCursor c"
  then have "(72 + length (cu_revisionID c)) div 3 * 4 \<le> 1024"
    by (simp add: wellFormedCursor_def base64EncodedLen_def limit_defs)
  then show ?thesis by presburger
qed

lemma newCursorLocked_Inr_iff:
  "newCursorLocked sha256 key ok c = Inr s \<longleftrightarrow>
     ok \<and> wellFormedCursor c \<and>
     (let p = cursorPayload sha256 key (the (cursorDomainID (cu_domain c))) c
      in s = base64EncodeToString (p @ hmac sha256 key p))"
  using wellFormedCursor_len [of c]
  by (cases "cursorDomainID (cu_domain c)")
    (auto simp: newCursorLocked_def wellFormedCursor_def Let_def cursor_lens add.commute
      split: if_splits)

text \<open>The instants whose Unix seconds fit a signed 64-bit integer.\<close>

definition unixRepresentable :: "Time \<Rightarrow> bool" where
  "unixRepresentable t = (- (2 ^ 63) \<le> unixSeconds t \<and> unixSeconds t < 2 ^ 63)"

lemma timeUnix_unixSeconds: "timeUnix (unixSeconds t) (t mod 1000000000) = t"
  by (simp add: timeUnix_def unixSeconds_def)

lemma sint_unixSeconds:
  "unixRepresentable t \<Longrightarrow> sint (of_int (unixSeconds t) :: uint64) = unixSeconds t"
  by (simp add: unixRepresentable_def signed_of_int signed_take_bit_int_eq_self)

lemma beValue_nanos: "beValue (beBytes 4 (nat (t mod 1000000000))) = nat (t mod 1000000000)"
  using pos_mod_bound [of 1000000000 t] by (simp add: beValue_beBytes nat_less_iff)

lemma zeros_value [simp]:
  "getUint64 (replicate 8 0) = 0" "beValue (replicate 4 0) = 0"
  by (simp_all add: getUint64_def beValue_def numeral_eq_Suc)

lemma cursorStateLocked_minted:
  assumes sha: "digests32 sha256" and c: "wellFormedCursor c"
    and t: "unixRepresentable (cu_revisionPublishedAt c)"
    and i: "cursorDomainID (cu_domain c) = Some i"
    and s: "s = base64EncodeToString (cursorPayload sha256 key i c @
      hmac sha256 key (cursorPayload sha256 key i c))"
  shows "cursorStateLocked sha256 key True s d ns sl =
    (if cursorDomainID d = None then Inl ErrorInternal
     else if d = cu_domain c \<and> cursorScope sha256 key d ns sl =
        cursorScope sha256 key (cu_domain c) (cu_namespace c) (cu_slot c)
     then Inr (c\<lparr>cu_namespace := ns, cu_slot := sl\<rparr>)
     else Inl ErrorInvalidArgument)"
proof -
  let ?p = "cursorPayload sha256 key i c"
  note parts = cursorPayload_parts [of sha256 key i c]
  have mac: "length (hmac sha256 key ?p) = 32"
    by (rule length_hmac [OF sha])
  have len: "length s = base64EncodedLen (72 + length (cu_revisionID c))"
    by (simp add: s parts(1) mac)
  then have bounds: "length s \<le> MaxIdentifierBytes" "s \<noteq> []"
    using c by (auto simp: wellFormedCursor_def base64EncodedLen_def)
  have raw: "take (length (?p @ hmac sha256 key ?p) - 32) (?p @ hmac sha256 key ?p) = ?p"
    "drop (length (?p @ hmac sha256 key ?p) - 32) (?p @ hmac sha256 key ?p) = hmac sha256 key ?p"
    using mac by simp_all
  have revLen: "beValue (beBytes 2 (length (cu_revisionID c))) = length (cu_revisionID c)"
    using wellFormedCursor_len [OF c] by (simp add: beValue_beBytes)
  have rev: "bytesString (stringBytes (cu_revisionID c)) = cu_revisionID c" by simp
  show ?thesis
  proof (cases "cursorDomainID d")
    case (Some j)
    have ji: "j = i \<longleftrightarrow> d = cu_domain c"
      using cursorDomainID_inject [OF Some, of "cu_domain c"] i by auto
    have decode: "base64DecodeString s = Some (?p @ hmac sha256 key ?p)"
      by (simp add: s)
    have other: "cursorStateLocked sha256 key True s d ns sl = Inl ErrorInvalidArgument"
      if "d \<noteq> cu_domain c \<or> cursorScope sha256 key d ns sl \<noteq>
        cursorScope sha256 key (cu_domain c) (cu_namespace c) (cu_slot c)"
      using that Some bounds ji
      by (auto simp: cursorStateLocked_def decode Let_def cursor_lens raw [simplified] parts
          parts(3) [unfolded One_nat_def] mac)
    have same: "cursorStateLocked sha256 key True s d ns sl = Inr (c\<lparr>cu_namespace := ns, cu_slot := sl\<rparr>)"
      if "d = cu_domain c" "cursorScope sha256 key d ns sl =
        cursorScope sha256 key (cu_domain c) (cu_namespace c) (cu_slot c)"
    proof (cases "cu_domain c = ''revision''")
      case True
      have "nat (cu_revisionPublishedAt c mod 1000000000) < 1000000000"
        using pos_mod_bound [of 1000000000 "cu_revisionPublishedAt c"] by (simp add: nat_less_iff)
      with True that i bounds c t show ?thesis
        by (simp add: cursorStateLocked_def decode Let_def cursor_lens raw [simplified] parts
            parts(3) [unfolded One_nat_def] mac revLen beValue_nanos sint_unixSeconds timeUnix_unixSeconds
            wellFormedCursor_def)
    next
      case False
      with that i bounds c show ?thesis
        by (simp add: cursorStateLocked_def decode Let_def cursor_lens raw [simplified] parts
            parts(3) [unfolded One_nat_def] mac beValue_beBytes [of 2 0] wellFormedCursor_def isZeroTime_def
            bytesString_def stringBytes_def)
    qed
    show ?thesis
      using other same Some by (cases "d = cu_domain c \<and> cursorScope sha256 key d ns sl =
        cursorScope sha256 key (cu_domain c) (cu_namespace c) (cu_slot c)") auto
  qed (simp add: cursorStateLocked_def bounds(2))
qed

lemma scopeMessage_inject:
  assumes "CHR 0x00 \<notin> set d" "CHR 0x00 \<notin> set n" "CHR 0x00 \<notin> set d'" "CHR 0x00 \<notin> set n'"
  shows "scopeMessage d n s = scopeMessage d' n' s' \<longleftrightarrow> d = d' \<and> n = n' \<and> s = s'"
proof -
  have zero: "(0 :: 8 word) = of_nat (of_char (CHR 0x00))" by simp
  have "scopeMessage d n s = stringBytes (''scope'' @ [CHR 0x00] @ d @ [CHR 0x00] @ n @ [CHR 0x00] @ s)"
    for d n s
    by (simp add: scopeMessage_def stringBytes_def)
  moreover have "a @ [z] @ x = b @ [z] @ y \<longleftrightarrow> a = b \<and> x = y" if "z \<notin> set a" "z \<notin> set b" for a b x y and z :: char
    using that by (auto simp: append_eq_append_conv2 Cons_eq_append_conv append_eq_Cons_conv)
  ultimately show ?thesis
    using assms by (simp only: stringBytes_inject) simp
qed

section \<open>Properties\<close>

text \<open>
  C18: reading back a token that the store minted. Under the scope it was minted for, the token
  decodes to exactly the cursor it was made from; under any other domain, or any namespace and slot
  whose keyed scope digest differs, it is rejected as an invalid argument.
\<close>

theorem cursor_roundtrip:
  assumes "digests32 sha256" and "newCursorLocked sha256 key ok c = Inr s"
    and "unixRepresentable (cu_revisionPublishedAt c)"
  shows "cursorStateLocked sha256 key ok s (cu_domain c) (cu_namespace c) (cu_slot c) = Inr c \<and>
    (cursorDomainID d \<noteq> None \<and>
     (d \<noteq> cu_domain c \<or> cursorScope sha256 key d ns sl \<noteq>
        cursorScope sha256 key (cu_domain c) (cu_namespace c) (cu_slot c)) \<longrightarrow>
     cursorStateLocked sha256 key ok s d ns sl = Inl ErrorInvalidArgument)"
proof -
  obtain i where i: "cursorDomainID (cu_domain c) = Some i" and ok: "ok" "wellFormedCursor c"
    and s: "s = base64EncodeToString (cursorPayload sha256 key i c @ hmac sha256 key (cursorPayload sha256 key i c))"
    using assms(2) by (auto simp: newCursorLocked_Inr_iff wellFormedCursor_def Let_def)
  show ?thesis
    using ok(1) i by (auto simp: cursorStateLocked_minted [OF assms(1) ok(2) assms(3) i s])
qed

definition sampleCursor :: cursorState where
  "sampleCursor =
     \<lparr>cu_domain = ''event'', cu_namespace = ''acme'', cu_slot = [], cu_position = 7,
      cu_revisionPublishedAt = 0, cu_revisionID = []\<rparr>"

theorem cursor_roundtrip_witness:
  "\<exists>s. newCursorLocked (\<lambda>_. replicate 32 0) [1] True sampleCursor = Inr s \<and>
     cursorStateLocked (\<lambda>_. replicate 32 0) [1] True s ''event'' ''acme'' [] = Inr sampleCursor"
proof -
  let ?sha = "\<lambda>_ :: bytes. replicate 32 (0 :: 8 word)"
  have sha: "digests32 ?sha" by (simp add: digests32_def)
  have "wellFormedCursor sampleCursor" "unixRepresentable (cu_revisionPublishedAt sampleCursor)"
    by (simp_all add: wellFormedCursor_def sampleCursor_def cursorDomainID_def isZeroTime_def
        base64EncodedLen_def limit_defs unixRepresentable_def unixSeconds_def)
  then obtain s where "newCursorLocked ?sha [1] True sampleCursor = Inr s"
    by (auto simp: newCursorLocked_Inr_iff Let_def)
  with cursor_roundtrip [OF sha this] \<open>unixRepresentable (cu_revisionPublishedAt sampleCursor)\<close>
  show ?thesis by (auto simp: sampleCursor_def)
qed

text \<open>
  C19: only authenticated tokens are accepted. A non-empty token is accepted only if it carries the
  HMAC of its payload under the store's key and the keyed digest of the scope it is used in.
\<close>

theorem cursor_authentic:
  assumes "cursorStateLocked sha256 key ok s d ns sl = Inr c" and "s \<noteq> []"
  shows "\<exists>payload. base64DecodeString s = Some (payload @ hmac sha256 key payload) \<and>
    payload ! 0 = cursorVersion \<and> Some (payload ! 1) = cursorDomainID d \<and>
    take cursorScopeLen (drop 2 payload) = cursorScope sha256 key d ns sl \<and>
    cu_domain c = d \<and> cu_namespace c = ns \<and> cu_slot c = sl"
proof -
  obtain i raw where "cursorDomainID d = Some i" "base64DecodeString s = Some raw"
    using assms by (auto simp: cursorStateLocked_def split: option.splits if_splits)
  moreover from this have "drop (length raw - 32) raw = hmac sha256 key (take (length raw - 32) raw)"
    using assms by (auto simp: cursorStateLocked_def Let_def cursor_lens split: if_splits)
  ultimately show ?thesis
    using assms append_take_drop_id [of "length raw - 32" raw]
    by (intro exI [of _ "take (length raw - 32) raw"])
      (auto simp: cursorStateLocked_def Let_def cursor_lens split: if_splits)
qed

theorem cursor_authentic_witness:
  "\<exists>s payload. base64DecodeString s = Some (payload @ hmac (\<lambda>_. replicate 32 0) [1] payload) \<and>
     cursorStateLocked (\<lambda>_. replicate 32 0) [1] True s ''event'' ''acme'' [] = Inr sampleCursor"
proof -
  let ?sha = "\<lambda>_ :: bytes. replicate 32 (0 :: 8 word)"
  have wf: "wellFormedCursor sampleCursor" "unixRepresentable (cu_revisionPublishedAt sampleCursor)"
    "cursorDomainID (cu_domain sampleCursor) = Some 3"
    by (simp_all add: wellFormedCursor_def sampleCursor_def cursorDomainID_def isZeroTime_def
        base64EncodedLen_def limit_defs unixRepresentable_def unixSeconds_def)
  let ?p = "cursorPayload ?sha [1] 3 sampleCursor"
  let ?s = "base64EncodeToString (?p @ hmac ?sha [1] ?p)"
  have "cursorStateLocked ?sha [1] True ?s ''event'' ''acme'' [] = Inr sampleCursor"
    using cursorStateLocked_minted [OF _ wf refl, of ?sha "[1]" "''event''" "''acme''" "[]"]
    by (simp add: digests32_def cursorDomainID_def sampleCursor_def)
  moreover have "?s \<noteq> []"
    unfolding length_greater_0_conv [symmetric] length_base64
    by (simp add: cursorPayload_parts base64EncodedLen_def hmac_def sampleCursor_def)
  ultimately show ?thesis
    using cursor_authentic [of ?sha "[1]" True ?s] by blast
qed

end
