(* ===== verification/Memory_State.thy ===== *)
theory Memory_State
  imports Attribute_Index Cursors
begin

text \<open>
  store/memory/store.go and store/memory/events.go: the state of the in-memory store, its commit
  reservations, its non-decreasing effective time, its generation waiters and its event log.

  A critical section of the source (the code between locking and unlocking the store's mutex) is
  one function on the state. Pointers that the source compares (reservations, data versions,
  waiters) carry an allocation number. The pause and block hooks of the package's own tests are
  not modelled; the armed event failure is.
\<close>

section \<open>Sections: state, and an error or a value\<close>

text \<open>A step returns a result and the new state. An error keeps the state reached so far, as in Go.\<close>

type_synonym ('s, 'a) action = "'s \<Rightarrow> 'a result \<times> 's"

definition returnS :: "'a \<Rightarrow> ('s, 'a) action" where
  "returnS x = (\<lambda>s. (Inr x, s))"

definition failS :: "ErrorCategory \<Rightarrow> ('s, 'a) action" where
  "failS e = (\<lambda>s. (Inl e, s))"

definition liftS :: "'a result \<Rightarrow> ('s, 'a) action" where
  "liftS r = (\<lambda>s. (r, s))"

definition readS :: "('s \<Rightarrow> 'a result) \<Rightarrow> ('s, 'a) action" where
  "readS f = (\<lambda>s. (f s, s))"

definition bindS :: "('s, 'a) action \<Rightarrow> ('a \<Rightarrow> ('s, 'b) action) \<Rightarrow> ('s, 'b) action" where
  "bindS m f = (\<lambda>s. case m s of (Inl e, s) \<Rightarrow> (Inl e, s) | (Inr x, s) \<Rightarrow> f x s)"

definition requireS :: "bool \<Rightarrow> ErrorCategory \<Rightarrow> ('s, unit) action" where
  "requireS ok e = liftS (requireR ok e)"

text \<open>The error branches that undo a step before they return, and a deferred call.\<close>

definition onErrorS :: "('s, 'a) action \<Rightarrow> ('s \<Rightarrow> 's) \<Rightarrow> ('s, 'a) action" where
  "onErrorS m undo = (\<lambda>s. case m s of (Inl e, s) \<Rightarrow> (Inl e, undo s) | (Inr x, s) \<Rightarrow> (Inr x, s))"

definition deferS :: "('s, 'a) action \<Rightarrow> ('s \<Rightarrow> 's) \<Rightarrow> ('s, 'a) action" where
  "deferS m undo = (\<lambda>s. case m s of (r, s) \<Rightarrow> (r, undo s))"

lemma bindS_Inr_iff:
  "bindS m f s = (Inr y, s'') \<longleftrightarrow> (\<exists>x s'. m s = (Inr x, s') \<and> f x s' = (Inr y, s''))"
  by (auto simp: bindS_def split: prod.splits sum.splits)

lemma actions_Inr_iff [simp]:
  "liftS r s = (Inr x, s') \<longleftrightarrow> r = Inr x \<and> s' = s"
  "returnS y s = (Inr x, s') \<longleftrightarrow> x = y \<and> s' = s"
  "readS f s = (Inr x, s') \<longleftrightarrow> f s = Inr x \<and> s' = s"
  "failS e s = (Inr x, s') \<longleftrightarrow> False"
  by (auto simp: liftS_def returnS_def failS_def readS_def)

lemma requireS_Inr_iff [simp]: "requireS ok e s = (Inr u, s') \<longleftrightarrow> ok \<and> s' = s"
  by (auto simp: requireS_def requireR_def liftS_def)

lemma bindS_simps [simp]:
  "bindS (liftS r) f s = (case r of Inl e \<Rightarrow> (Inl e, s) | Inr x \<Rightarrow> f x s)"
  "bindS (readS g) f s = (case g s of Inl e \<Rightarrow> (Inl e, s) | Inr x \<Rightarrow> f x s)"
  "bindS (returnS x) f s = f x s"
  by (simp_all add: bindS_def liftS_def readS_def returnS_def split: sum.split)

lemma bindS_requireS [simp]: "bindS (requireS ok e) f s = (if ok then f () s else (Inl e, s))"
  by (simp add: bindS_def liftS_def requireS_def requireR_def)

section \<open>State\<close>

definition activationHistoryRetention :: nat where "activationHistoryRetention = 3"
definition eventRetentionLimit :: nat where "eventRetentionLimit = MaxAggregateWorkItems"
definition defaultEventRetention :: int where "defaultEventRetention = 24 * 3600 * 1000000000"

record slotState =
  ss_current :: Activation
  ss_history :: "Activation list"

record dataVersion =
  dv_ref :: nat
  dv_generation :: uint64
  dv_tuples :: tupleNode
  dv_attributes :: attributeEntityNode

record idempotencyState =
  id_fingerprint :: bytes
  id_response :: WriteDataResponse

record dataState =
  ds_generation :: uint64
  ds_current :: dataVersion
  ds_idempotency :: "string \<rightharpoonup> idempotencyState"

record generationWait =
  gw_ref :: nat
  gw_refs :: int

record eventRecord =
  er_sequence :: uint64
  er_value :: StateEvent

record eventState =
  es_values :: "eventRecord list"
  es_expiredThrough :: uint64

record commitReservationKey =
  ck_domain :: string
  ck_namespace :: string
  ck_name :: string

record commitReservation =
  cr_ref :: nat
  cr_key :: commitReservationKey
  cr_operation :: string
  cr_idempotencyKey :: string
  cr_fingerprint :: bytes

record Store =
  st_effectiveTime :: Time
  st_revisions :: "string \<rightharpoonup> (string \<rightharpoonup> RevisionRecord)"
  st_revisionOrder :: "string \<Rightarrow> revisionNode"
  st_slots :: "string \<rightharpoonup> (string \<rightharpoonup> slotState)"
  st_data :: "string \<rightharpoonup> dataState"
  st_waiters :: "string \<rightharpoonup> generationWait"
  st_events :: "string \<rightharpoonup> eventState"
  st_reservations :: "commitReservationKey \<rightharpoonup> commitReservation"
  st_cursorKey :: bytes
  st_cursorKeyOK :: bool
  st_failNextEvent :: bool
  st_nextRef :: nat

text \<open>
  newStoreWithCursorKeySource: the key source fills 32 bytes or the construction fails. The result
  of the source is the number of bytes written and whether it returned an error.
\<close>

definition newStoreWithCursorKeySource :: "bytes \<Rightarrow> int \<Rightarrow> bool \<Rightarrow> Store result" where
  "newStoreWithCursorKeySource cursorKey written failed =
     (if failed \<or> written \<noteq> 32 then Inl ErrorInternal
      else Inr \<lparr>st_effectiveTime = 0, st_revisions = Map.empty, st_revisionOrder = (\<lambda>_. Nil),
                st_slots = Map.empty, st_data = Map.empty, st_waiters = Map.empty,
                st_events = Map.empty, st_reservations = Map.empty, st_cursorKey = cursorKey,
                st_cursorKeyOK = True, st_failNextEvent = False, st_nextRef = 0\<rparr>)"

text \<open>Reading a nested map: a missing outer entry is a nil map, which has no entries.\<close>

definition nested :: "('a \<rightharpoonup> ('b \<rightharpoonup> 'c)) \<Rightarrow> 'a \<Rightarrow> 'b \<Rightarrow> 'c option" where
  "nested m a b = (case m a of None \<Rightarrow> None | Some inner \<Rightarrow> inner b)"

text \<open>Writing one: the outer entry is made when it is missing.\<close>

definition nestedSet :: "('a \<rightharpoonup> ('b \<rightharpoonup> 'c)) \<Rightarrow> 'a \<Rightarrow> 'b \<Rightarrow> 'c \<Rightarrow> ('a \<rightharpoonup> ('b \<rightharpoonup> 'c))" where
  "nestedSet m a b c = m(a \<mapsto> (case m a of None \<Rightarrow> Map.empty | Some inner \<Rightarrow> inner)(b \<mapsto> c))"

section \<open>Reservations\<close>

definition reserveCommitLocked :: "commitReservationKey \<Rightarrow> Store \<Rightarrow> commitReservation option \<times> Store" where
  "reserveCommitLocked key s =
     (if st_reservations s key \<noteq> None then (None, s)
      else let reservation = \<lparr>cr_ref = st_nextRef s, cr_key = key, cr_operation = [],
                              cr_idempotencyKey = [], cr_fingerprint = []\<rparr>
           in (Some reservation,
               s\<lparr>st_reservations := (st_reservations s)(key \<mapsto> reservation),
                 st_nextRef := st_nextRef s + 1\<rparr>))"

definition ownsCommitReservationLocked :: "commitReservation \<Rightarrow> Store \<Rightarrow> bool" where
  "ownsCommitReservationLocked reservation s =
     (case st_reservations s (cr_key reservation) of
        None \<Rightarrow> False
      | Some current \<Rightarrow> cr_ref current = cr_ref reservation)"

definition releaseCommitReservationLocked :: "commitReservation \<Rightarrow> Store \<Rightarrow> Store" where
  "releaseCommitReservationLocked reservation s =
     (if ownsCommitReservationLocked reservation s
      then s\<lparr>st_reservations := (st_reservations s)(cr_key reservation := None)\<rparr> else s)"

section \<open>Contexts and clocks\<close>

text \<open>
  What an operation observes of its context and clock: the outcome of the n-th call of Err, of the
  n-th poll of the Done channel, and of its reading of the clock.
\<close>

datatype ClockReading = ClockPanics | ClockReads Time

record Env =
  en_err :: "nat \<Rightarrow> ContextState"
  en_done :: "nat \<Rightarrow> bool"
  en_clock :: ClockReading

definition safeContextError :: "ContextState \<Rightarrow> check" where
  "safeContextError c = ContextError c"

definition contextWaitError :: "ContextState \<Rightarrow> ErrorCategory" where
  "contextWaitError c = (case safeContextError c of Inl e \<Rightarrow> e | Inr _ \<Rightarrow> ErrorInternal)"

definition now :: "ClockReading \<Rightarrow> Time result" where
  "now clock =
     (case clock of
        ClockPanics \<Rightarrow> Inl ErrorInternal
      | ClockReads t \<Rightarrow> if isZeroTime t then Inl ErrorInternal else Inr t)"

definition effectiveTimeLocked :: "Time \<Rightarrow> Store \<Rightarrow> Time \<times> Store" where
  "effectiveTimeLocked candidate s =
     (if candidate < st_effectiveTime s then (st_effectiveTime s, s)
      else (candidate, s\<lparr>st_effectiveTime := candidate\<rparr>))"

section \<open>Generation waiters\<close>

definition registerGenerationWaitLocked :: "string \<Rightarrow> Store \<Rightarrow> generationWait \<times> Store" where
  "registerGenerationWaitLocked namespace s =
     (case st_waiters s namespace of
        None \<Rightarrow>
          (let wait = \<lparr>gw_ref = st_nextRef s, gw_refs = 1\<rparr>
           in (wait, s\<lparr>st_waiters := (st_waiters s)(namespace \<mapsto> wait), st_nextRef := st_nextRef s + 1\<rparr>))
      | Some w \<Rightarrow>
          (let wait = w\<lparr>gw_refs := gw_refs w + 1\<rparr>
           in (wait, s\<lparr>st_waiters := (st_waiters s)(namespace \<mapsto> wait)\<rparr>)))"

definition unregisterGenerationWaitLocked :: "string \<Rightarrow> generationWait \<Rightarrow> Store \<Rightarrow> Store" where
  "unregisterGenerationWaitLocked namespace wait s =
     (case st_waiters s namespace of
        None \<Rightarrow> s
      | Some w \<Rightarrow>
          if gw_ref w \<noteq> gw_ref wait then s
          else if gw_refs w - 1 = 0 then s\<lparr>st_waiters := (st_waiters s)(namespace := None)\<rparr>
          else s\<lparr>st_waiters := (st_waiters s)(namespace \<mapsto> w\<lparr>gw_refs := gw_refs w - 1\<rparr>)\<rparr>)"

text \<open>Closing the channel is removing the entry: a waiter is woken when the entry is not its own.\<close>

definition notifyGenerationWaitersLocked :: "string \<Rightarrow> Store \<Rightarrow> Store" where
  "notifyGenerationWaitersLocked namespace s = s\<lparr>st_waiters := (st_waiters s)(namespace := None)\<rparr>"

section \<open>Events\<close>

definition nextEventSequenceLocked :: "string \<Rightarrow> Store \<Rightarrow> uint64 result" where
  "nextEventSequenceLocked namespace s =
     (let highWater =
        (case st_events s namespace of
           None \<Rightarrow> 0
         | Some es \<Rightarrow>
             if es_values es \<noteq> [] then max (es_expiredThrough es) (er_sequence (last (es_values es)))
             else es_expiredThrough es)
      in if highWater = MaxUint64 then Inl ErrorResourceExhausted else Inr (highWater + 1))"

definition newEventLocked ::
  "(bytes \<Rightarrow> bytes) \<Rightarrow> StateEvent \<Rightarrow> Time \<Rightarrow> Store \<Rightarrow> eventRecord result" where
  "newEventLocked sha256 input occurredAt s =
     bindR (nextEventSequenceLocked (ev_namespace input) s)
       (\<lambda>sequence. bindR (newCursorLocked sha256 (st_cursorKey s) (st_cursorKeyOK s)
           (zeroCursor\<lparr>cu_domain := ''event'', cu_namespace := ev_namespace input, cu_position := sequence\<rparr>))
       (\<lambda>cursor. bindR (NewStateEvent (input\<lparr>ev_cursor := cursor, ev_occurredAt := occurredAt\<rparr>))
       (\<lambda>val. Inr \<lparr>er_sequence = sequence, er_value = val\<rparr>)))"

definition pruneEventState :: "Time \<Rightarrow> eventState \<Rightarrow> eventState" where
  "pruneEventState t es =
     (if es_values es = [] then es
      else
        let cutoff = t - defaultEventRetention;
            timeCut = sortSearch (length (es_values es))
              (\<lambda>i. ev_occurredAt (er_value (es_values es ! i)) > cutoff);
            countCut = length (es_values es) - eventRetentionLimit;
            cut = max timeCut countCut
        in if cut = 0 then es
           else es\<lparr>es_expiredThrough := max (es_expiredThrough es) (er_sequence (es_values es ! (cut - 1))),
                   es_values := drop cut (es_values es)\<rparr>)"

definition pruneEventsLocked :: "string \<Rightarrow> Time \<Rightarrow> Store \<Rightarrow> Store" where
  "pruneEventsLocked namespace t s =
     (case st_events s namespace of
        None \<Rightarrow> s
      | Some es \<Rightarrow> s\<lparr>st_events := (st_events s)(namespace \<mapsto> pruneEventState t es)\<rparr>)"

definition appendEventLocked :: "eventRecord \<Rightarrow> Time \<Rightarrow> Store \<Rightarrow> Store" where
  "appendEventLocked event t s =
     (let namespace = ev_namespace (er_value event);
          es = (case st_events s namespace of
                  None \<Rightarrow> \<lparr>es_values = [], es_expiredThrough = 0\<rparr>
                | Some es \<Rightarrow> es)
      in pruneEventsLocked namespace t
           (s\<lparr>st_events := (st_events s)(namespace \<mapsto> es\<lparr>es_values := es_values es @ [event]\<rparr>)\<rparr>))"

text \<open>The section of an operation that meets an armed event failure.\<close>

definition consumeEventFailure :: "commitReservation \<Rightarrow> (Store, unit) action" where
  "consumeEventFailure reservation s =
     (if \<not> ownsCommitReservationLocked reservation s then (Inl ErrorInternal, s)
      else if st_failNextEvent s then (Inl ErrorUnavailable, s\<lparr>st_failNextEvent := False\<rparr>)
      else (Inr (), s))"

end
