(* ===== verification/Memory_Events.thy ===== *)
theory Memory_Events
  imports Memory_State
begin

text \<open>
  store/memory/events.go: the invariant of the event log, that appending and pruning keep it, and
  ListEvents with its paging guarantees.
\<close>

section \<open>ListEvents and expireEvents\<close>

definition listEventsSection ::
  "string \<Rightarrow> Time \<Rightarrow> Store \<Rightarrow> (eventRecord list \<times> uint64) \<times> Store" where
  "listEventsSection namespace t s =
     (let (t, s) = effectiveTimeLocked t s;
          s = pruneEventsLocked namespace t s
      in (case st_events s namespace of
            None \<Rightarrow> (([], 0), s)
          | Some es \<Rightarrow> ((es_values es, es_expiredThrough es), s)))"

definition listEventsPage ::
  "ListEventsRequest \<Rightarrow> uint64 \<Rightarrow> eventRecord list \<Rightarrow> StateEvent list \<times> string" where
  "listEventsPage request position vals =
     (let start = sortSearch (length vals) (\<lambda>i. er_sequence (vals ! i) > position);
          end' = min (start + nat (le_limit request)) (length vals);
          page = map er_value (take (end' - start) (drop start vals));
          next' = (if end' < length vals then ev_cursor (last page) else [])
      in (page, next'))"

definition ListEvents ::
  "(bytes \<Rightarrow> bytes) \<Rightarrow> Env \<Rightarrow> ListEventsRequest \<Rightarrow> (Store, ListEventsResponse) action" where
  "ListEvents sha256 env request =
     bindS (liftS (safeContextError (en_err env 0)))
     (\<lambda>_. bindS (requireS (isOk (NewListEventsRequest (le_namespace request) (le_afterCursor request)
                                   (le_limit request))) ErrorInvalidArgument)
     (\<lambda>_. bindS (readS (\<lambda>s. cursorPositionLocked sha256 (st_cursorKey s) (st_cursorKeyOK s)
                        (le_afterCursor request) ''event'' (le_namespace request) []))
     (\<lambda>position. bindS (liftS (safeContextError (en_err env 1)))
     (\<lambda>_. bindS (liftS (now (en_clock env)))
     (\<lambda>t. bindS (liftS (safeContextError (en_err env 2)))
     (\<lambda>_ s.
        (case listEventsSection (le_namespace request) t s of
           ((vals, expiredThrough), s) \<Rightarrow>
             if le_afterCursor request \<noteq> [] \<and> position \<le> expiredThrough then (Inl ErrorCursorExpired, s)
             else (case listEventsPage request position vals of
                     (page, next') \<Rightarrow>
                       (bindR (safeContextError (en_err env 3))
                          (\<lambda>_. NewListEventsResponse request page next'), s)))))))))"

definition expireEvents ::
  "(bytes \<Rightarrow> bytes) \<Rightarrow> Env \<Rightarrow> string \<Rightarrow> string \<Rightarrow> (Store, unit) action" where
  "expireEvents sha256 env namespace throughCursor =
     bindS (liftS (safeContextError (en_err env 0)))
     (\<lambda>_. bindS (readS (\<lambda>s. cursorPositionLocked sha256 (st_cursorKey s) (st_cursorKeyOK s)
                        throughCursor ''event'' namespace []))
     (\<lambda>position. bindS (liftS (safeContextError (en_err env 1)))
     (\<lambda>_ s.
        (case st_events s namespace of
           None \<Rightarrow> (Inl ErrorInvalidArgument, s)
         | Some es \<Rightarrow>
             let cut = sortSearch (length (es_values es)) (\<lambda>i. er_sequence (es_values es ! i) > position)
             in (Inr (), s\<lparr>st_events := (st_events s)(namespace \<mapsto>
                   \<lparr>es_values = drop cut (es_values es),
                    es_expiredThrough = max (es_expiredThrough es) position\<rparr>)\<rparr>)))))"

section \<open>Searching a sorted list\<close>

lemma filter_split_at:
  assumes "\<forall>k < n. \<not> P (xs ! k)" "\<forall>k. n \<le> k \<longrightarrow> k < length xs \<longrightarrow> P (xs ! k)"
  shows "drop n xs = filter P xs" "take n xs = filter (\<lambda>x. \<not> P x) xs"
proof -
  have lo: "\<forall>x \<in> set (take n xs). \<not> P x"
    using assms(1) by (auto simp: in_set_conv_nth)
  have hi: "\<forall>x \<in> set (drop n xs). P x"
    using assms(2) by (auto simp: in_set_conv_nth)
  have "filter Q xs = filter Q (take n xs) @ filter Q (drop n xs)" for Q
    by (metis append_take_drop_id filter_append)
  then show "drop n xs = filter P xs" "take n xs = filter (\<lambda>x. \<not> P x) xs"
    using lo hi by (simp_all add: filter_none filter_all)
qed


lemma drop_sortSearch:
  assumes "sorted_wrt (\<lambda>a b. P a \<longrightarrow> P b) xs"
  shows "drop (sortSearch (length xs) (\<lambda>i. P (xs ! i))) xs = filter P xs"
    and "take (sortSearch (length xs) (\<lambda>i. P (xs ! i))) xs = filter (\<lambda>x. \<not> P x) xs"
    and "sortSearch (length xs) (\<lambda>i. P (xs ! i)) \<le> length xs"
proof -
  have mono: "P (xs ! a) \<Longrightarrow> P (xs ! b)" if "a \<le> b" "b < length xs" for a b
    using sorted_wrt_nth_less [OF assms, of a b] that by (cases "a = b") auto
  note spec = sortSearch_spec [of "length xs" "\<lambda>i. P (xs ! i)"]
  show "sortSearch (length xs) (\<lambda>i. P (xs ! i)) \<le> length xs"
    using spec(1) mono by blast
  have lo: "\<forall>k < sortSearch (length xs) (\<lambda>i. P (xs ! i)). \<not> P (xs ! k)"
    using spec(2) mono by blast
  have hi: "\<forall>k. sortSearch (length xs) (\<lambda>i. P (xs ! i)) \<le> k \<longrightarrow> k < length xs \<longrightarrow> P (xs ! k)"
    using spec(3) mono by blast
  show "drop (sortSearch (length xs) (\<lambda>i. P (xs ! i))) xs = filter P xs"
    "take (sortSearch (length xs) (\<lambda>i. P (xs ! i))) xs = filter (\<lambda>x. \<not> P x) xs"
    by (rule filter_split_at [OF lo hi])+
qed

section \<open>The invariant of the log\<close>

text \<open>
  Sequence numbers are consecutive from just above the expired mark; occurrence times are ordered
  and never ahead of the effective time; every event is valid, belongs to its namespace and carries
  the cursor minted for its sequence number; at most the retention limit is kept.
\<close>

definition eventCursor :: "string \<Rightarrow> uint64 \<Rightarrow> cursorState" where
  "eventCursor namespace sequence =
     zeroCursor\<lparr>cu_domain := ''event'', cu_namespace := namespace, cu_position := sequence\<rparr>"

definition eventOK :: "(bytes \<Rightarrow> bytes) \<Rightarrow> Store \<Rightarrow> string \<Rightarrow> eventRecord \<Rightarrow> bool" where
  "eventOK sha256 s namespace e \<longleftrightarrow>
     validStateEvent (er_value e) \<and> ev_namespace (er_value e) = namespace \<and>
     ev_occurredAt (er_value e) \<le> st_effectiveTime s \<and>
     newCursorLocked sha256 (st_cursorKey s) (st_cursorKeyOK s) (eventCursor namespace (er_sequence e)) =
       Inr (ev_cursor (er_value e))"

definition eventsInv :: "(bytes \<Rightarrow> bytes) \<Rightarrow> Store \<Rightarrow> bool" where
  "eventsInv sha256 s \<longleftrightarrow>
     (\<forall>namespace es. st_events s namespace = Some es \<longrightarrow>
        (\<forall>i < length (es_values es).
           unat (er_sequence (es_values es ! i)) = unat (es_expiredThrough es) + i + 1) \<and>
        sorted (map (\<lambda>e. ev_occurredAt (er_value e)) (es_values es)) \<and>
        (\<forall>e \<in> set (es_values es). eventOK sha256 s namespace e) \<and>
        length (es_values es) \<le> eventRetentionLimit)"

definition consecutive :: "eventState \<Rightarrow> bool" where
  "consecutive es \<longleftrightarrow>
     (\<forall>i < length (es_values es).
        unat (er_sequence (es_values es ! i)) = unat (es_expiredThrough es) + i + 1)"

definition timesSorted :: "eventState \<Rightarrow> bool" where
  "timesSorted es \<longleftrightarrow> sorted (map (\<lambda>e. ev_occurredAt (er_value e)) (es_values es))"

lemma eventsInv_iff:
  "eventsInv sha256 s \<longleftrightarrow>
     (\<forall>namespace es. st_events s namespace = Some es \<longrightarrow>
        consecutive es \<and> timesSorted es \<and> (\<forall>e \<in> set (es_values es). eventOK sha256 s namespace e) \<and>
        length (es_values es) \<le> eventRetentionLimit)"
  by (simp add: eventsInv_def consecutive_def timesSorted_def)

text \<open>The events of a namespace, expired ones included, are numbered from 1 to the high-water mark.\<close>

definition highWater :: "Store \<Rightarrow> string \<Rightarrow> nat" where
  "highWater s namespace =
     (case st_events s namespace of
        None \<Rightarrow> 0
      | Some es \<Rightarrow> unat (es_expiredThrough es) + length (es_values es))"

lemma nextEventSequenceLocked_spec:
  assumes "eventsInv sha256 s"
  shows "nextEventSequenceLocked namespace s = Inr q \<Longrightarrow> unat q = highWater s namespace + 1"
    and "nextEventSequenceLocked namespace s = Inl e \<Longrightarrow> e = ErrorResourceExhausted"
    and "(\<exists>q. nextEventSequenceLocked namespace s = Inr q) \<longleftrightarrow> highWater s namespace < 2 ^ 64 - 1"
proof -
  define mark where "mark = (case st_events s namespace of
      None \<Rightarrow> 0
    | Some es \<Rightarrow> if es_values es \<noteq> [] then max (es_expiredThrough es) (er_sequence (last (es_values es)))
        else es_expiredThrough es)"
  have mark: "unat mark = highWater s namespace"
  proof (cases "st_events s namespace")
    case (Some es)
    then have "consecutive es"
      using assms by (simp add: eventsInv_iff)
    then have "es_values es \<noteq> [] \<Longrightarrow> unat (er_sequence (last (es_values es))) =
        unat (es_expiredThrough es) + length (es_values es)"
      by (simp add: consecutive_def last_conv_nth)
    then have "es_values es \<noteq> [] \<Longrightarrow> max (es_expiredThrough es) (er_sequence (last (es_values es))) =
        er_sequence (last (es_values es))"
      by (intro max_absorb2) (simp add: word_le_nat_alt)
    then show ?thesis
      using Some \<open>es_values es \<noteq> [] \<Longrightarrow> unat (er_sequence (last (es_values es))) =
        unat (es_expiredThrough es) + length (es_values es)\<close>
      by (simp add: mark_def highWater_def)
  qed (simp add: mark_def highWater_def)
  have next': "nextEventSequenceLocked namespace s =
      (if mark = MaxUint64 then Inl ErrorResourceExhausted else Inr (mark + 1))"
    by (simp add: nextEventSequenceLocked_def mark_def)
  have bound: "unat mark < 2 ^ 64"
    using unsigned_less [of mark, where 'a = nat] by simp
  have max: "mark = MaxUint64 \<longleftrightarrow> unat mark = 2 ^ 64 - 1"
    by (simp add: MaxUint64_def word_unat_eq_iff)
  then have inc: "mark \<noteq> MaxUint64 \<Longrightarrow> unat (mark + 1) = unat mark + 1"
    using bound by (simp add: unat_word_ariths)
  show "nextEventSequenceLocked namespace s = Inr q \<Longrightarrow> unat q = highWater s namespace + 1"
    "nextEventSequenceLocked namespace s = Inl e \<Longrightarrow> e = ErrorResourceExhausted"
    "(\<exists>q. nextEventSequenceLocked namespace s = Inr q) \<longleftrightarrow> highWater s namespace < 2 ^ 64 - 1"
    using next' inc max bound mark by (auto split: if_splits)
qed

section \<open>Pruning\<close>

definition cutoff :: "Time \<Rightarrow> Time" where
  "cutoff t = t - defaultEventRetention"

definition expiredAt :: "Time \<Rightarrow> eventRecord \<Rightarrow> bool" where
  "expiredAt t e \<longleftrightarrow> ev_occurredAt (er_value e) \<le> cutoff t"

definition pruneCut :: "Time \<Rightarrow> eventState \<Rightarrow> nat" where
  "pruneCut t es =
     max (length (filter (expiredAt t) (es_values es))) (length (es_values es) - eventRetentionLimit)"

lemma timesSorted_search:
  assumes "timesSorted es"
  shows "sortSearch (length (es_values es)) (\<lambda>i. ev_occurredAt (er_value (es_values es ! i)) > cutoff t) =
    length (filter (expiredAt t) (es_values es))"
proof -
  have s: "sorted_wrt (\<lambda>a b. \<not> expiredAt t a \<longrightarrow> \<not> expiredAt t b) (es_values es)"
    using assms unfolding timesSorted_def sorted_wrt_map expiredAt_def
    by (rule sorted_wrt_mono_rel [rotated]) simp
  have n: "(\<lambda>i. ev_occurredAt (er_value (es_values es ! i)) > cutoff t) = (\<lambda>i. \<not> expiredAt t (es_values es ! i))"
    by (simp add: expiredAt_def not_le fun_eq_iff)
  have "length (take (sortSearch (length (es_values es)) (\<lambda>i. \<not> expiredAt t (es_values es ! i))) (es_values es)) =
      sortSearch (length (es_values es)) (\<lambda>i. \<not> expiredAt t (es_values es ! i))"
    using drop_sortSearch(3) [OF s] by simp
  then show ?thesis
    unfolding n drop_sortSearch(2) [OF s] by simp
qed

lemma pruneEventState_spec:
  assumes "consecutive es" "timesSorted es"
  shows "es_values (pruneEventState t es) = drop (pruneCut t es) (es_values es)"
    and "unat (es_expiredThrough (pruneEventState t es)) = unat (es_expiredThrough es) + pruneCut t es"
proof -
  let ?vs = "es_values es"
  have le: "pruneCut t es \<le> length ?vs"
    by (simp add: pruneCut_def)
  have prune: "pruneEventState t es =
      (if pruneCut t es = 0 then es
       else es\<lparr>es_expiredThrough := max (es_expiredThrough es) (er_sequence (?vs ! (pruneCut t es - 1))),
               es_values := drop (pruneCut t es) ?vs\<rparr>)"
    using le timesSorted_search [OF assms(2), of t]
    by (auto simp: pruneEventState_def Let_def pruneCut_def cutoff_def [symmetric])
  then show "es_values (pruneEventState t es) = drop (pruneCut t es) ?vs"
    by simp
  have "unat (er_sequence (?vs ! (pruneCut t es - 1))) = unat (es_expiredThrough es) + pruneCut t es"
    if "pruneCut t es \<noteq> 0"
    using assms(1) le that by (simp add: consecutive_def)
  then show "unat (es_expiredThrough (pruneEventState t es)) = unat (es_expiredThrough es) + pruneCut t es"
    using prune by (auto simp: max_def word_le_nat_alt)
qed

lemma pruneEventState_keeps:
  assumes "consecutive es" "timesSorted es"
  shows "consecutive (pruneEventState t es)" "timesSorted (pruneEventState t es)"
    and "set (es_values (pruneEventState t es)) \<subseteq> set (es_values es)"
    and "length (es_values (pruneEventState t es)) \<le> eventRetentionLimit"
    and "unat (es_expiredThrough (pruneEventState t es)) + length (es_values (pruneEventState t es)) =
      unat (es_expiredThrough es) + length (es_values es)"
proof -
  note spec = pruneEventState_spec [OF assms, of t]
  have cut: "pruneCut t es \<le> length (es_values es)" "length (es_values es) - pruneCut t es \<le> eventRetentionLimit"
    by (auto simp: pruneCut_def)
  show "consecutive (pruneEventState t es)"
    using assms(1) spec cut by (simp add: consecutive_def)
  show "timesSorted (pruneEventState t es)"
    using assms(2) by (simp add: timesSorted_def spec drop_map [symmetric] sorted_wrt_drop)
  show "set (es_values (pruneEventState t es)) \<subseteq> set (es_values es)"
    by (simp add: spec set_drop_subset)
  show "length (es_values (pruneEventState t es)) \<le> eventRetentionLimit"
    "unat (es_expiredThrough (pruneEventState t es)) + length (es_values (pruneEventState t es)) =
      unat (es_expiredThrough es) + length (es_values es)"
    using cut by (simp_all add: spec)
qed

lemma pruneEventsLocked_frame [simp]:
  "st_effectiveTime (pruneEventsLocked n t s) = st_effectiveTime s"
  "st_revisions (pruneEventsLocked n t s) = st_revisions s"
  "st_revisionOrder (pruneEventsLocked n t s) = st_revisionOrder s"
  "st_slots (pruneEventsLocked n t s) = st_slots s"
  "st_data (pruneEventsLocked n t s) = st_data s"
  "st_waiters (pruneEventsLocked n t s) = st_waiters s"
  "st_reservations (pruneEventsLocked n t s) = st_reservations s"
  "st_cursorKey (pruneEventsLocked n t s) = st_cursorKey s"
  "st_cursorKeyOK (pruneEventsLocked n t s) = st_cursorKeyOK s"
  "st_failNextEvent (pruneEventsLocked n t s) = st_failNextEvent s"
  "st_nextRef (pruneEventsLocked n t s) = st_nextRef s"
  by (simp_all add: pruneEventsLocked_def split: option.split)

lemma appendEventLocked_frame [simp]:
  "st_effectiveTime (appendEventLocked e t s) = st_effectiveTime s"
  "st_revisions (appendEventLocked e t s) = st_revisions s"
  "st_revisionOrder (appendEventLocked e t s) = st_revisionOrder s"
  "st_slots (appendEventLocked e t s) = st_slots s"
  "st_data (appendEventLocked e t s) = st_data s"
  "st_waiters (appendEventLocked e t s) = st_waiters s"
  "st_reservations (appendEventLocked e t s) = st_reservations s"
  "st_cursorKey (appendEventLocked e t s) = st_cursorKey s"
  "st_cursorKeyOK (appendEventLocked e t s) = st_cursorKeyOK s"
  "st_failNextEvent (appendEventLocked e t s) = st_failNextEvent s"
  "st_nextRef (appendEventLocked e t s) = st_nextRef s"
  by (simp_all add: appendEventLocked_def Let_def)

lemma eventOK_frame:
  "st_effectiveTime s \<le> st_effectiveTime s' \<Longrightarrow> st_cursorKey s' = st_cursorKey s \<Longrightarrow>
   st_cursorKeyOK s' = st_cursorKeyOK s \<Longrightarrow> eventOK sha256 s n e \<Longrightarrow> eventOK sha256 s' n e"
  by (auto simp: eventOK_def)

text \<open>The invariant looks only at the log, the effective time and the cursor key.\<close>

lemma eventsInv_frame:
  assumes "eventsInv sha256 s" "st_events s' = st_events s" "st_effectiveTime s \<le> st_effectiveTime s'"
    "st_cursorKey s' = st_cursorKey s" "st_cursorKeyOK s' = st_cursorKeyOK s"
  shows "eventsInv sha256 s'"
  using assms eventOK_frame [of s s'] unfolding eventsInv_iff by metis

lemma pruneEventsLocked_inv:
  assumes "eventsInv sha256 s"
  shows "eventsInv sha256 (pruneEventsLocked n t s)"
    and "highWater (pruneEventsLocked n t s) m = highWater s m"
proof -
  have frame: "eventOK sha256 s m e \<Longrightarrow> eventOK sha256 (pruneEventsLocked n t s) m e" for m e
    by (rule eventOK_frame [of s]) simp_all
  show "eventsInv sha256 (pruneEventsLocked n t s)"
    unfolding eventsInv_iff
  proof (intro allI impI)
    fix m es
    assume es: "st_events (pruneEventsLocked n t s) m = Some es"
    then obtain es0 where es0: "st_events s m = Some es0" "es = es0 \<or> es = pruneEventState t es0"
      by (auto simp: pruneEventsLocked_def split: option.splits if_splits)
    then have inv: "consecutive es0" "timesSorted es0" "\<forall>e \<in> set (es_values es0). eventOK sha256 s m e"
      "length (es_values es0) \<le> eventRetentionLimit"
      using assms by (simp_all add: eventsInv_iff)
    show "consecutive es \<and> timesSorted es \<and>
        (\<forall>e \<in> set (es_values es). eventOK sha256 (pruneEventsLocked n t s) m e) \<and>
        length (es_values es) \<le> eventRetentionLimit"
      using es0(2) inv frame pruneEventState_keeps [OF inv(1,2), of t] by (elim disjE) auto
  qed
  show "highWater (pruneEventsLocked n t s) m = highWater s m"
  proof (cases "st_events s n")
    case (Some es)
    then have "consecutive es" "timesSorted es"
      using assms by (simp_all add: eventsInv_iff)
    with pruneEventState_keeps(5) [OF this, of t] Some show ?thesis
      by (simp add: highWater_def pruneEventsLocked_def)
  qed (simp add: pruneEventsLocked_def)
qed

lemma appendEventLocked_inv:
  assumes inv: "eventsInv sha256 s" and e: "eventOK sha256 s n e" "unat (er_sequence e) = highWater s n + 1"
    and latest: "ev_occurredAt (er_value e) = st_effectiveTime s"
  shows "eventsInv sha256 (appendEventLocked e t s)"
    and "highWater (appendEventLocked e t s) m = highWater s m + (if m = n then 1 else 0)"
proof -
  define es0 where "es0 = (case st_events s n of None \<Rightarrow> \<lparr>es_values = [], es_expiredThrough = 0\<rparr> | Some es \<Rightarrow> es)"
  define es where "es = es0\<lparr>es_values := es_values es0 @ [e]\<rparr>"
  define s1 where "s1 = s\<lparr>st_events := (st_events s)(n \<mapsto> es)\<rparr>"
  have n: "ev_namespace (er_value e) = n"
    using e(1) by (simp add: eventOK_def)
  have app: "appendEventLocked e t s = pruneEventsLocked n t s1"
    by (simp add: appendEventLocked_def Let_def n s1_def es_def es0_def)
  have old: "consecutive es0" "timesSorted es0" "\<forall>x \<in> set (es_values es0). eventOK sha256 s n x"
    using inv by (auto simp: es0_def eventsInv_iff consecutive_def timesSorted_def split: option.split)
  have hw: "highWater s n = unat (es_expiredThrough es0) + length (es_values es0)"
    by (simp add: highWater_def es0_def split: option.split)
  have "consecutive es"
    using old(1) e(2) hw by (auto simp: consecutive_def es_def nth_append less_Suc_eq)
  moreover have "timesSorted es"
    using old(2,3) latest by (auto simp: timesSorted_def es_def sorted_append eventOK_def)
  ultimately have es: "consecutive es" "timesSorted es" .
  note kept = pruneEventState_keeps [OF es, of t]
  have frame: "eventOK sha256 s m x \<Longrightarrow> eventOK sha256 (pruneEventsLocked n t s1) m x" for m x
    by (rule eventOK_frame [of s]) (simp_all add: s1_def)
  have ev: "st_events (pruneEventsLocked n t s1) = (st_events s)(n \<mapsto> pruneEventState t es)"
    by (simp add: pruneEventsLocked_def s1_def)
  show "eventsInv sha256 (appendEventLocked e t s)"
    unfolding eventsInv_iff app
  proof (intro allI impI)
    fix m xs
    assume m: "st_events (pruneEventsLocked n t s1) m = Some xs"
    show "consecutive xs \<and> timesSorted xs \<and>
        (\<forall>x \<in> set (es_values xs). eventOK sha256 (pruneEventsLocked n t s1) m x) \<and>
        length (es_values xs) \<le> eventRetentionLimit"
    proof (cases "m = n")
      case True
      then have "xs = pruneEventState t es" using m ev by simp
      then show ?thesis
        using kept(1-4) old(3) e(1) frame True by (auto simp: es_def)
    next
      case False
      then show ?thesis using m ev inv frame by (simp add: eventsInv_iff)
    qed
  qed
  show "highWater (appendEventLocked e t s) m = highWater s m + (if m = n then 1 else 0)"
    using kept(5) hw unfolding app by (simp add: highWater_def ev es_def)
qed

lemma newEventLocked_spec:
  assumes "eventsInv sha256 s" "newEventLocked sha256 input (st_effectiveTime s) s = Inr e"
  shows "eventOK sha256 s (ev_namespace input) e"
    and "unat (er_sequence e) = highWater s (ev_namespace input) + 1"
    and "ev_occurredAt (er_value e) = st_effectiveTime s"
    and "er_value e = input\<lparr>ev_cursor := ev_cursor (er_value e), ev_occurredAt := st_effectiveTime s\<rparr>"
  using assms(2) nextEventSequenceLocked_spec(1) [OF assms(1)]
  by (auto simp: newEventLocked_def eventOK_def eventCursor_def NewStateEvent_Inr_iff)

section \<open>A page of valid events is a valid response\<close>

lemma validStateEvent_cost:
  assumes "validStateEvent e"
  shows "textBytes (ev_namespace e) + textBytes (ev_cursor e) + textBytes (ev_revisionID e) +
    textBytes (ev_slot e) + 89 \<le> 3500"
proof -
  have e: "validNamespace (ev_namespace e)" "validIdentifier (ev_cursor e)" "eventShape e"
    using assms by (simp_all add: validStateEvent_iff)
  have "length (ev_revisionID e) \<le> 64" "length (ev_slot e) \<le> 1024"
    using e(3) validIdentifier_length [of "ev_slot e"]
    by (auto simp: eventShape_def validRevisionIDString_def split: if_splits)
  then show ?thesis
    using validNamespace_length [OF e(1)] validIdentifier_length [OF e(2)] by (simp add: textBytes_def)
qed

lemma sum_list_le_bound: "(\<forall>x \<in> set xs. f x \<le> (c :: int)) \<Longrightarrow> sum_list (map f xs) \<le> c * int (length xs)"
  by (induction xs) (auto simp: algebra_simps)

lemma validEventPageLoop_iff:
  "validEventPageLoop n seen es \<longleftrightarrow>
     (\<forall>e \<in> set es. validStateEvent e \<and> ev_namespace e = n \<and> ev_cursor e \<notin> seen) \<and>
     distinct (map ev_cursor es)"
proof (induction es arbitrary: seen)
  case (Cons e es)
  have "ev_cursor e \<notin> ev_cursor ` set es \<longleftrightarrow> (\<forall>x \<in> set es. ev_cursor x \<noteq> ev_cursor e)"
    by (metis image_iff)
  with Cons show ?case by auto
qed simp

lemma NewListEventsResponse_ok:
  assumes req: "validListEventsRequest request" and len: "int (length page) \<le> le_limit request"
    and page: "\<forall>e \<in> set page. validStateEvent e \<and> ev_namespace e = le_namespace request"
    and dist: "distinct (map ev_cursor page)"
    and next': "validateOptionalIdentifier c = Inr ()"
  shows "NewListEventsResponse request page c =
    Inr \<lparr>lv_request = request, lv_events = page, lv_nextCursor = c\<rparr>"
proof -
  have n: "length page \<le> 1000"
    using req len by (simp add: validListEventsRequest_def limit_defs)
  have c: "length c \<le> 1024"
    using next' by (simp add: validateOptionalIdentifier_def validateText_Inr_iff limit_defs)
  define cost where "cost e = textBytes (ev_namespace e) + textBytes (ev_cursor e) +
      textBytes (ev_revisionID e) + textBytes (ev_slot e) + 89" for e :: StateEvent
  have pos: "0 \<le> cost e" for e
    by (simp add: cost_def)
  have "\<forall>e \<in> set page. cost e \<le> 3500"
    unfolding cost_def using page validStateEvent_cost by blast
  then have "sum_list (map cost page) \<le> 3500 * int (length page)"
    by (rule sum_list_le_bound)
  also have "\<dots> \<le> 3500000" using n by simp
  finally have sum: "sum_list (map cost page) \<le> 3500000" .
  have nonneg: "0 \<le> sum_list (map cost page)"
    using pos by (simp add: sum_list_nonneg_map)
  have eq: "addStateEventCost b e = budgetAdd b (cost e)" for b e
    by (simp add: addStateEventCost_eq cost_def)
  have "addEventPageCost (newBudget MaxEventPageBytes) page c =
      budgetAdd (newBudget MaxEventPageBytes) (8 + textBytes c + sum_list (map cost page))"
    using nonneg
    by (simp add: addEventPageCost_def addTextCost_eq cost_consts budgetAdd_seq
        budgetAdd_eachB [of addStateEventCost cost, OF eq pos] add.assoc)
  with nonneg have "isOk (addEventPageCost (newBudget MaxEventPageBytes) page c)"
    using sum c by (simp add: isOk_iff budgetAdd_Inr_iff textBytes_def limit_defs)
  then obtain b where "addEventPageCost (newBudget MaxEventPageBytes) page c = Inr b"
    by (auto simp: isOk_iff)
  then show ?thesis
    using req len n page dist next'
    by (simp add: NewListEventsResponse_def validEventPage_def validEventPageLoop_iff limit_defs)
qed

section \<open>Listing\<close>

definition eventLog :: "Store \<Rightarrow> string \<Rightarrow> eventRecord list" where
  "eventLog s n = (case st_events s n of None \<Rightarrow> [] | Some es \<Rightarrow> es_values es)"

definition expiredMark :: "Store \<Rightarrow> string \<Rightarrow> uint64" where
  "expiredMark s n = (case st_events s n of None \<Rightarrow> 0 | Some es \<Rightarrow> es_expiredThrough es)"

definition eventsAfter :: "uint64 \<Rightarrow> eventRecord list \<Rightarrow> eventRecord list" where
  "eventsAfter position es = filter (\<lambda>e. er_sequence e > position) es"

lemma effectiveTimeLocked_spec:
  assumes "effectiveTimeLocked t s = (t', s')"
  shows "t' = st_effectiveTime s'" "st_effectiveTime s \<le> st_effectiveTime s'" "s' = s\<lparr>st_effectiveTime := t'\<rparr>"
    "t \<le> t'"
  using assms by (auto simp: effectiveTimeLocked_def split: if_splits)

lemma eventLog_inv:
  assumes "eventsInv sha256 s"
  shows "sorted_wrt (\<lambda>a b. er_sequence a < er_sequence b) (eventLog s n)"
    and "\<forall>e \<in> set (eventLog s n). eventOK sha256 s n e"
    and "\<forall>e \<in> set (eventLog s n). expiredMark s n < er_sequence e"
proof -
  have "sorted_wrt (\<lambda>a b. er_sequence a < er_sequence b) (es_values es)" if "consecutive es" for es
    using that by (auto simp: consecutive_def sorted_wrt_iff_nth_less word_less_nat_alt)
  moreover have "\<forall>e \<in> set (es_values es). es_expiredThrough es < er_sequence e" if "consecutive es" for es
    using that by (auto simp: consecutive_def in_set_conv_nth word_less_nat_alt)
  ultimately show "sorted_wrt (\<lambda>a b. er_sequence a < er_sequence b) (eventLog s n)"
    "\<forall>e \<in> set (eventLog s n). eventOK sha256 s n e"
    "\<forall>e \<in> set (eventLog s n). expiredMark s n < er_sequence e"
    using assms unfolding eventLog_def expiredMark_def eventsInv_iff
    by (cases "st_events s n"; simp)+
qed

lemma listEventsSection_spec:
  assumes "eventsInv sha256 s" "listEventsSection n t s = ((vals, expired), s')"
  shows "vals = eventLog s' n" "expired = expiredMark s' n" "eventsInv sha256 s'"
    and "st_cursorKey s' = st_cursorKey s" "st_cursorKeyOK s' = st_cursorKeyOK s"
    and "\<And>m. highWater s' m = highWater s m"
proof -
  obtain t1 s1 where e: "effectiveTimeLocked t s = (t1, s1)"
    by (cases "effectiveTimeLocked t s")
  note eff = effectiveTimeLocked_spec [OF e]
  have "s' = pruneEventsLocked n t1 s1" "vals = eventLog s' n" "expired = expiredMark s' n"
    using assms(2)
    by (auto simp: listEventsSection_def e eventLog_def expiredMark_def Let_def split: option.splits)
  moreover have "eventsInv sha256 s1"
    using assms(1) eff by (rule_tac eventsInv_frame) auto
  moreover have "st_events s1 = st_events s" "st_cursorKey s1 = st_cursorKey s" "st_cursorKeyOK s1 = st_cursorKeyOK s"
    by (simp_all add: eff(3))
  ultimately show "vals = eventLog s' n" "expired = expiredMark s' n" "eventsInv sha256 s'"
    "st_cursorKey s' = st_cursorKey s" "st_cursorKeyOK s' = st_cursorKeyOK s"
    "\<And>m. highWater s' m = highWater s m"
    using pruneEventsLocked_inv [of sha256 s1] by (simp_all add: highWater_def)
qed

lemma listEventsPage_spec:
  assumes "sorted_wrt (\<lambda>a b. er_sequence a < er_sequence b) vals" "0 < le_limit request"
    and "listEventsPage request position vals = (page, c)"
  shows "page = map er_value (take (nat (le_limit request)) (eventsAfter position vals))"
    and "c = (if nat (le_limit request) < length (eventsAfter position vals) then ev_cursor (last page) else [])"
proof -
  let ?n = "nat (le_limit request)"
  define start where "start = sortSearch (length vals) (\<lambda>i. er_sequence (vals ! i) > position)"
  have "sorted_wrt (\<lambda>a b. er_sequence a > position \<longrightarrow> er_sequence b > position) vals"
    using assms(1) by (rule sorted_wrt_mono_rel [rotated]) auto
  note search = drop_sortSearch [OF this, folded start_def]
  have after: "drop start vals = eventsAfter position vals"
    by (simp add: search(1) eventsAfter_def)
  then have len: "length vals - start = length (eventsAfter position vals)"
    by (metis length_drop)
  have "take (min (start + ?n) (length vals) - start) (drop start vals) = take ?n (drop start vals)"
    using search(3) by (simp add: min_def)
  then show page: "page = map er_value (take ?n (eventsAfter position vals))"
    using assms(3) by (auto simp: listEventsPage_def Let_def start_def [symmetric] after)
  have "min (start + ?n) (length vals) < length vals \<longleftrightarrow> ?n < length (eventsAfter position vals)"
    using len search(3) by auto
  then show "c = (if ?n < length (eventsAfter position vals) then ev_cursor (last page) else [])"
    using assms(3) page by (auto simp: listEventsPage_def Let_def start_def [symmetric])
qed

lemma NewListEventsRequest_ok_iff:
  "isOk (NewListEventsRequest (le_namespace r) (le_afterCursor r) (le_limit r)) \<longleftrightarrow> validListEventsRequest r"
  by (auto simp: isOk_iff NewListEventsRequest_def validListEventsRequest_def validNamespace_def)

lemma ListEvents_Inr:
  assumes inv: "eventsInv sha256 s" and ok: "ListEvents sha256 env request s = (Inr r, s')"
  obtains position where
    "cursorPositionLocked sha256 (st_cursorKey s) (st_cursorKeyOK s) (le_afterCursor request) ''event''
       (le_namespace request) [] = Inr position"
    "le_afterCursor request \<noteq> [] \<longrightarrow> expiredMark s' (le_namespace request) < position"
    "lv_events r = map er_value (take (nat (le_limit request))
       (eventsAfter position (eventLog s' (le_namespace request))))"
    "lv_nextCursor r = (if nat (le_limit request) < length (eventsAfter position (eventLog s' (le_namespace request)))
       then ev_cursor (last (lv_events r)) else [])"
    "eventsInv sha256 s'" "0 < le_limit request"
    "st_cursorKey s' = st_cursorKey s" "st_cursorKeyOK s' = st_cursorKeyOK s"
proof -
  obtain position t where
    req: "validListEventsRequest request" and
    pos: "cursorPositionLocked sha256 (st_cursorKey s) (st_cursorKeyOK s) (le_afterCursor request) ''event''
       (le_namespace request) [] = Inr position" and
    rest: "(case listEventsSection (le_namespace request) t s of
         ((vals, expired), s) \<Rightarrow>
           if le_afterCursor request \<noteq> [] \<and> position \<le> expired then (Inl ErrorCursorExpired, s)
           else (case listEventsPage request position vals of
                   (page, next') \<Rightarrow>
                     (bindR (safeContextError (en_err env 3))
                        (\<lambda>_. NewListEventsResponse request page next'), s))) = (Inr r, s')"
    using ok unfolding ListEvents_def bindS_Inr_iff NewListEventsRequest_ok_iff actions_Inr_iff
      requireS_Inr_iff by blast
  obtain vals expired s1 where sec1: "listEventsSection (le_namespace request) t s = ((vals, expired), s1)"
    by (metis surj_pair)
  obtain page c where page: "listEventsPage request position vals = (page, c)"
    by (metis surj_pair)
  from rest sec1 page have exp: "\<not> (le_afterCursor request \<noteq> [] \<and> position \<le> expired)"
    and resp: "NewListEventsResponse request page c = Inr r" and sec: "listEventsSection (le_namespace request) t s = ((vals, expired), s')"
    by (auto split: if_splits)
  note sec' = listEventsSection_spec [OF inv sec]
  have lim: "0 < le_limit request"
    using req by (simp add: validListEventsRequest_def)
  have r: "lv_events r = page" "lv_nextCursor r = c"
    using resp by (auto simp: NewListEventsResponse_def split: if_splits)
  have "sorted_wrt (\<lambda>a b. er_sequence a < er_sequence b) vals"
    using eventLog_inv(1) [OF sec'(3)] by (simp add: sec'(1))
  note pg = listEventsPage_spec [OF this lim page]
  show thesis
    using that [OF pos] exp pg sec' lim r by (auto simp: not_le)
qed

lemma event_cursor_position:
  assumes sha: "digests32 sha256" and e: "eventOK sha256 s n e"
  shows "cursorPositionLocked sha256 (st_cursorKey s) (st_cursorKeyOK s) (ev_cursor (er_value e)) ''event'' n [] =
    Inr (er_sequence e)"
proof -
  let ?c = "eventCursor n (er_sequence e)"
  have mint: "newCursorLocked sha256 (st_cursorKey s) (st_cursorKeyOK s) ?c = Inr (ev_cursor (er_value e))"
    using e by (simp add: eventOK_def)
  then have ok: "st_cursorKeyOK s" "wellFormedCursor ?c"
    by (auto simp: newCursorLocked_Inr_iff)
  have c: "cu_domain ?c = ''event''" "cu_namespace ?c = n" "cu_slot ?c = []" "cu_position ?c = er_sequence e"
    "cu_revisionPublishedAt ?c = 0"
    by (simp_all add: eventCursor_def zeroCursor_def)
  have i: "cursorDomainID (cu_domain ?c) = Some 3"
    by (simp add: c cursorDomainID_def)
  have t: "unixRepresentable (cu_revisionPublishedAt ?c)"
    by (simp add: c unixRepresentable_def unixSeconds_def)
  have tok: "ev_cursor (er_value e) = base64EncodeToString (cursorPayload sha256 (st_cursorKey s) 3 ?c @
      hmac sha256 (st_cursorKey s) (cursorPayload sha256 (st_cursorKey s) 3 ?c))"
    using mint i by (auto simp: newCursorLocked_Inr_iff Let_def)
  show ?thesis
    using cursorStateLocked_minted [OF sha ok(2) t i tok, of "''event''" n "[]"] ok(1) i
    by (simp add: cursorPositionLocked_def c)
qed

lemma eventsAfter_resume:
  assumes "sorted_wrt (\<lambda>a b. er_sequence a < er_sequence b) xs" "n < length (eventsAfter p xs)" "0 < n"
  shows "eventsAfter (er_sequence (last (take n (eventsAfter p xs)))) xs = drop n (eventsAfter p xs)"
proof -
  let ?ys = "eventsAfter p xs"
  let ?q = "er_sequence (last (take n ?ys))"
  have sorted: "sorted_wrt (\<lambda>a b. er_sequence a < er_sequence b) ?ys"
    using assms(1) by (simp add: eventsAfter_def sorted_wrt_filter)
  have q: "last (take n ?ys) = ?ys ! (n - 1)"
    using assms(2,3) by (subst last_conv_nth) auto
  then have "last (take n ?ys) \<in> set ?ys"
    using assms(2,3) by simp
  then have "p < ?q" by (simp add: eventsAfter_def)
  then have "eventsAfter ?q xs = eventsAfter ?q ?ys"
    by (auto simp: eventsAfter_def intro: filter_cong)
  also have "\<dots> = drop n ?ys"
    unfolding eventsAfter_def [of ?q]
  proof (rule filter_split_at(1) [symmetric])
    show "\<forall>k < n. \<not> ?q < er_sequence (?ys ! k)"
    proof (intro allI impI)
      fix k assume "k < n"
      then consider "k = n - 1" | "k < n - 1" "n - 1 < length ?ys"
        using assms(2) by linarith
      then show "\<not> ?q < er_sequence (?ys ! k)"
        using sorted_wrt_nth_less [OF sorted, of k "n - 1"] unfolding q by cases (auto dest: less_asym)
    qed
    show "\<forall>k. n \<le> k \<longrightarrow> k < length ?ys \<longrightarrow> ?q < er_sequence (?ys ! k)"
    proof (intro allI impI)
      fix k assume "n \<le> k" "k < length ?ys"
      then show "?q < er_sequence (?ys ! k)"
        using sorted_wrt_nth_less [OF sorted, of "n - 1" k] assms(3) q by auto
    qed
  qed
  finally show ?thesis .
qed

lemma eventLog_complete:
  assumes "eventsInv sha256 s" "expiredMark s n < q" "unat q \<le> highWater s n"
  shows "\<exists>e \<in> set (eventLog s n). er_sequence e = q"
proof (cases "st_events s n")
  case None
  then show ?thesis using assms(2,3) by (simp add: highWater_def expiredMark_def word_less_nat_alt)
next
  case (Some es)
  define i where "i = unat q - unat (es_expiredThrough es) - 1"
  have i: "i < length (es_values es)" "unat q = unat (es_expiredThrough es) + i + 1"
    using assms(2,3) Some by (auto simp: i_def highWater_def expiredMark_def word_less_nat_alt)
  moreover have "consecutive es"
    using assms(1) Some by (simp add: eventsInv_iff)
  ultimately have "er_sequence (es_values es ! i) = q"
    by (simp add: consecutive_def word_unat_eq_iff)
  with i(1) show ?thesis
    using nth_mem by (fastforce simp: eventLog_def Some)
qed

section \<open>Listing always answers\<close>

definition liveEnv :: "Env \<Rightarrow> Time \<Rightarrow> bool" where
  "liveEnv env t \<longleftrightarrow>
     (\<forall>i. en_err env i = CtxLive) \<and> (\<forall>i. \<not> en_done env i) \<and> en_clock env = ClockReads t \<and> t \<noteq> 0"

lemma liveEnv_simps:
  assumes "liveEnv env t"
  shows "safeContextError (en_err env i) = Inr ()" "now (en_clock env) = Inr t" "\<not> en_done env i"
  using assms by (simp_all add: liveEnv_def safeContextError_def ContextError_def now_def isZeroTime_def)

lemma eventLog_cursors_distinct:
  assumes "digests32 sha256" "eventsInv sha256 s"
  shows "distinct (map (\<lambda>e. ev_cursor (er_value e)) (eventLog s n))"
proof -
  have "sorted_wrt (<) (map er_sequence (eventLog s n))"
    using eventLog_inv(1) [OF assms(2), of n] by (simp add: sorted_wrt_map)
  then have "distinct (map er_sequence (eventLog s n))"
    by (simp add: strict_sorted_iff)
  then have dist: "distinct (eventLog s n)" "inj_on er_sequence (set (eventLog s n))"
    by (simp_all add: distinct_map)
  have "a = b" if "a \<in> set (eventLog s n)" "b \<in> set (eventLog s n)"
    "ev_cursor (er_value a) = ev_cursor (er_value b)" for a b
  proof -
    have "Inr (er_sequence a) = (Inr (er_sequence b) :: uint64 result)"
      using event_cursor_position [OF assms(1), of s n a] event_cursor_position [OF assms(1), of s n b]
        eventLog_inv(2) [OF assms(2), of n] that by simp
    then show ?thesis
      using inj_onD [OF dist(2) _ that(1,2)] by simp
  qed
  then have "inj_on (\<lambda>e. ev_cursor (er_value e)) (set (eventLog s n))"
    by (rule inj_onI)
  with dist(1) show ?thesis by (simp add: distinct_map)
qed

lemma ListEvents_answers:
  assumes sha: "digests32 sha256" and inv: "eventsInv sha256 s" and live: "liveEnv env t"
    and req: "validListEventsRequest request"
    and pos: "cursorPositionLocked sha256 (st_cursorKey s) (st_cursorKeyOK s) (le_afterCursor request) ''event''
      (le_namespace request) [] = Inr position"
  shows "\<exists>r s'. ListEvents sha256 env request s =
    (if le_afterCursor request \<noteq> [] \<and> position \<le> expiredMark s' (le_namespace request)
     then Inl ErrorCursorExpired else Inr r, s')"
proof -
  let ?n = "le_namespace request"
  obtain vals expired s' where sec: "listEventsSection ?n t s = ((vals, expired), s')"
    by (metis surj_pair)
  obtain page c where page: "listEventsPage request position vals = (page, c)"
    by (metis surj_pair)
  note sec' = listEventsSection_spec [OF inv sec]
  have lim: "0 < le_limit request"
    using req by (simp add: validListEventsRequest_def)
  have "sorted_wrt (\<lambda>a b. er_sequence a < er_sequence b) vals"
    using eventLog_inv(1) [OF sec'(3)] by (simp add: sec'(1))
  note pg = listEventsPage_spec [OF this lim page]
  let ?es = "take (nat (le_limit request)) (eventsAfter position vals)"
  have sub: "set ?es \<subseteq> set (eventLog s' ?n)"
    using set_take_subset [of "nat (le_limit request)" "eventsAfter position vals"]
    by (auto simp: eventsAfter_def sec'(1))
  then have ok: "\<forall>e \<in> set ?es. eventOK sha256 s' ?n e"
    using eventLog_inv(2) [OF sec'(3), of ?n] by blast
  have dist: "distinct (map ev_cursor page)"
    using eventLog_cursors_distinct [OF sha sec'(3), of ?n]
    by (simp add: pg(1) sec'(1) eventsAfter_def comp_def take_map [symmetric] distinct_take distinct_map_filter)
  have valid: "\<forall>e \<in> set page. validStateEvent e \<and> ev_namespace e = ?n"
    using ok by (auto simp: pg(1) eventOK_def)
  have c: "validateOptionalIdentifier c = Inr ()"
  proof (cases "nat (le_limit request) < length (eventsAfter position vals)")
    case True
    then have "page \<noteq> []" using lim by (auto simp: pg(1))
    then have "validIdentifier (ev_cursor (last page))"
      using valid by (simp add: validStateEvent_iff)
    then show ?thesis
      using True by (simp add: pg(2) validIdentifier_def isOk_Inr_unit validateIdentifier_def
          validateOptionalIdentifier_def validateText_Inr_iff)
  qed (simp add: pg(2) validateOptionalIdentifier_def validateText_ascii)
  have "NewListEventsResponse request page c = Inr \<lparr>lv_request = request, lv_events = page, lv_nextCursor = c\<rparr>"
    using lim by (intro NewListEventsResponse_ok [OF req _ valid dist c]) (simp add: pg(1))
  then show ?thesis
    using sec'(2) req
    by (intro exI [of _ "\<lparr>lv_request = request, lv_events = page, lv_nextCursor = c\<rparr>"] exI [of _ s'])
      (simp add: ListEvents_def liveEnv_simps [OF live] NewListEventsRequest_ok_iff sec page pos)
qed

lemma minted_identifier:
  assumes "digests32 sha256" "newCursorLocked sha256 key ok c = Inr s"
  shows "validIdentifier s"
proof -
  obtain p where p: "s = base64EncodeToString (p @ hmac sha256 key p)" "length p = 40 + length (cu_revisionID c)"
    and c: "base64EncodedLen (72 + length (cu_revisionID c)) \<le> MaxIdentifierBytes"
    using assms(2) by (auto simp: newCursorLocked_Inr_iff wellFormedCursor_def Let_def cursorPayload_parts)
  have "length (p @ hmac sha256 key p) = 72 + length (cu_revisionID c)"
    using p(2) length_hmac [OF assms(1)] by simp
  then show ?thesis
    using base64_identifier [of "p @ hmac sha256 key p"] c p
    by (fastforce simp: validIdentifier_def isOk_Inr_unit)
qed

text \<open>Making an event succeeds unless the namespace has used up its sequence numbers.\<close>

lemma eventShape_stamp [simp]: "eventShape (input\<lparr>ev_cursor := c, ev_occurredAt := t\<rparr>) = eventShape input"
  by (simp add: eventShape_def)

lemma newEventLocked_succeeds:
  assumes sha: "digests32 sha256" and inv: "eventsInv sha256 s" and key: "st_cursorKeyOK s"
    and hw: "highWater s (ev_namespace input) < 2 ^ 64 - 1"
    and input: "validNamespace (ev_namespace input)" "eventShape input" "t \<noteq> 0"
  shows "\<exists>e. newEventLocked sha256 input t s = Inr e"
proof -
  obtain q where q: "nextEventSequenceLocked (ev_namespace input) s = Inr q"
    using nextEventSequenceLocked_spec(3) [OF inv] hw by blast
  then have "q \<noteq> 0"
    using nextEventSequenceLocked_spec(1) [OF inv q] by auto
  then have "wellFormedCursor (eventCursor (ev_namespace input) q)"
    by (simp add: wellFormedCursor_def eventCursor_def zeroCursor_def cursorDomainID_def isZeroTime_def
        base64EncodedLen_def limit_defs)
  then obtain c where c: "newCursorLocked sha256 (st_cursorKey s) (st_cursorKeyOK s)
      (eventCursor (ev_namespace input) q) = Inr c"
    using key by (auto simp: newCursorLocked_Inr_iff Let_def)
  have "validStateEvent (input\<lparr>ev_cursor := c, ev_occurredAt := t\<rparr>)"
    using input minted_identifier [OF sha c] by (simp add: validStateEvent_iff)
  then show ?thesis
    using q c by (simp add: newEventLocked_def eventCursor_def NewStateEvent_Inr_iff)
qed

definition freshStore :: "bytes \<Rightarrow> Store" where
  "freshStore key =
     \<lparr>st_effectiveTime = 0, st_revisions = Map.empty, st_revisionOrder = (\<lambda>_. Nil),
      st_slots = Map.empty, st_data = Map.empty, st_waiters = Map.empty, st_events = Map.empty,
      st_reservations = Map.empty, st_cursorKey = key, st_cursorKeyOK = True,
      st_failNextEvent = False, st_nextRef = 0\<rparr>"

lemma newStore_Inr_iff:
  "newStoreWithCursorKeySource key n failed = Inr s \<longleftrightarrow> \<not> failed \<and> n = 32 \<and> s = freshStore key"
  by (auto simp: newStoreWithCursorKeySource_def freshStore_def)

lemma freshStore_events: "eventsInv sha256 (freshStore key)"
  by (simp add: eventsInv_iff freshStore_def)

definition sampleHash :: "bytes \<Rightarrow> bytes" where
  "sampleHash bs = replicate 32 0"

lemma sampleHash_digests: "digests32 sampleHash"
  by (simp add: digests32_def sampleHash_def)

definition sampleEnv :: Env where
  "sampleEnv = \<lparr>en_err = (\<lambda>_. CtxLive), en_done = (\<lambda>_. False), en_clock = ClockReads 5\<rparr>"

lemma sampleEnv_live: "liveEnv sampleEnv 5"
  by (simp add: liveEnv_def sampleEnv_def)

definition sampleListEvents :: ListEventsRequest where
  "sampleListEvents = \<lparr>le_namespace = ''acme'', le_afterCursor = [], le_limit = 10\<rparr>"

lemma sampleListEvents_valid: "validListEventsRequest sampleListEvents"
  by (simp add: sampleListEvents_def validListEventsRequest_def validNamespace_def sample_texts limit_defs)

definition sampleEvent :: StateEvent where
  "sampleEvent =
     \<lparr>ev_namespace = ''acme'', ev_cursor = [], ev_kind = StateEventDataWritten, ev_revisionID = [],
      ev_slot = [], ev_slotGeneration = 0, ev_dataGeneration = 1, ev_occurredAt = 0\<rparr>"

text \<open>A store with one event in its log.\<close>

lemma sample_log:
  obtains e where
    "eventsInv sampleHash (appendEventLocked e 5 ((freshStore [1])\<lparr>st_effectiveTime := 5\<rparr>))"
    "highWater (appendEventLocked e 5 ((freshStore [1])\<lparr>st_effectiveTime := 5\<rparr>)) ''acme'' = 1"
proof -
  let ?s = "(freshStore [1])\<lparr>st_effectiveTime := 5\<rparr>"
  have inv: "eventsInv sampleHash ?s"
    by (rule eventsInv_frame [OF freshStore_events]) (simp_all add: freshStore_def)
  have hw: "highWater ?s n = 0" for n
    by (simp add: highWater_def freshStore_def)
  have "st_cursorKeyOK ?s" by (simp add: freshStore_def)
  then have "\<exists>e. newEventLocked sampleHash sampleEvent 5 ?s = Inr e"
    by (rule newEventLocked_succeeds [OF sampleHash_digests inv])
      (unfold hw, simp_all add: sampleEvent_def validNamespace_def sample_texts eventShape_def event_kinds)
  then obtain e where e: "newEventLocked sampleHash sampleEvent (st_effectiveTime ?s) ?s = Inr e"
    by auto
  note spec = newEventLocked_spec [OF inv e]
  have n: "ev_namespace sampleEvent = ''acme''" by (simp add: sampleEvent_def)
  note app = appendEventLocked_inv [OF inv spec(1-3) [unfolded n], of 5]
  show thesis
    by (rule that [of e]) (use app(1) app(2) [of "''acme''"] hw in simp_all)
qed

section \<open>Properties\<close>

text \<open>
  C20: ListEvents pages through the log without gaps or repeats. A page is the first limit retained
  events numbered after the cursor's position; it has a next cursor exactly when more follow, and
  the page after that cursor continues with exactly the events left out. A cursor is only served
  while every event numbered after it, up to the newest, is still retained.
\<close>

theorem ListEvents_page:
  assumes "digests32 sha256" and "eventsInv sha256 s"
    and "ListEvents sha256 env request s = (Inr r, s')"
  shows "\<exists>position. let n = le_namespace request; lim = nat (le_limit request);
      rest = eventsAfter position (eventLog s' n) in
    cursorPositionLocked sha256 (st_cursorKey s) (st_cursorKeyOK s) (le_afterCursor request) ''event'' n [] =
      Inr position \<and>
    lv_events r = map er_value (take lim rest) \<and> (lv_nextCursor r \<noteq> [] \<longleftrightarrow> lim < length rest) \<and>
    (lv_nextCursor r \<noteq> [] \<longrightarrow> (\<exists>q. cursorPositionLocked sha256 (st_cursorKey s') (st_cursorKeyOK s')
       (lv_nextCursor r) ''event'' n [] = Inr q \<and> eventsAfter q (eventLog s' n) = drop lim rest)) \<and>
    (le_afterCursor request \<noteq> [] \<longrightarrow> (\<forall>q > position. unat q \<le> highWater s' n \<longrightarrow>
       (\<exists>e \<in> set (eventLog s' n). er_sequence e = q)))"
proof -
  obtain position where p:
    "cursorPositionLocked sha256 (st_cursorKey s) (st_cursorKeyOK s) (le_afterCursor request) ''event''
       (le_namespace request) [] = Inr position"
    "le_afterCursor request \<noteq> [] \<longrightarrow> expiredMark s' (le_namespace request) < position"
    "lv_events r = map er_value (take (nat (le_limit request))
       (eventsAfter position (eventLog s' (le_namespace request))))"
    "lv_nextCursor r = (if nat (le_limit request) < length (eventsAfter position (eventLog s' (le_namespace request)))
       then ev_cursor (last (lv_events r)) else [])"
    "eventsInv sha256 s'" "0 < le_limit request"
    "st_cursorKey s' = st_cursorKey s" "st_cursorKeyOK s' = st_cursorKeyOK s"
    using ListEvents_Inr [OF assms(2,3)] by blast
  let ?n = "le_namespace request" and ?lim = "nat (le_limit request)"
  let ?rest = "eventsAfter position (eventLog s' ?n)"
  have lim: "0 < ?lim" using p(6) by simp
  have more: "ev_cursor (last (lv_events r)) = ev_cursor (er_value (last (take ?lim ?rest))) \<and>
      eventOK sha256 s' ?n (last (take ?lim ?rest))" if "?lim < length ?rest"
  proof -
    have ne: "take ?lim ?rest \<noteq> []" using that lim by auto
    then have "last (take ?lim ?rest) \<in> set ?rest"
      using last_in_set in_set_takeD by metis
    then show ?thesis
      using p(3) ne eventLog_inv(2) [OF p(5), of ?n] by (simp add: last_map eventsAfter_def)
  qed
  have ident: "validIdentifier (ev_cursor (er_value e))" if "eventOK sha256 s' ?n e" for e
    using that by (simp add: eventOK_def validStateEvent_iff)
  have next_iff: "lv_nextCursor r \<noteq> [] \<longleftrightarrow> ?lim < length ?rest"
  proof (cases "?lim < length ?rest")
    case True
    with more ident have "validIdentifier (lv_nextCursor r)" by (simp add: p(4))
    with True validIdentifier_length show ?thesis by blast
  qed (simp add: p(4))
  have resume: "\<exists>q. cursorPositionLocked sha256 (st_cursorKey s') (st_cursorKeyOK s') (lv_nextCursor r) ''event'' ?n [] =
      Inr q \<and> eventsAfter q (eventLog s' ?n) = drop ?lim ?rest" if "lv_nextCursor r \<noteq> []"
    using that next_iff more p(4) event_cursor_position [OF assms(1)]
      eventsAfter_resume [OF eventLog_inv(1) [OF p(5), of ?n] _ lim] by auto
  have complete: "\<exists>e \<in> set (eventLog s' ?n). er_sequence e = q"
    if "le_afterCursor request \<noteq> []" "position < q" "unat q \<le> highWater s' ?n" for q
    using that p(2) eventLog_complete [OF p(5)] by (meson order.strict_trans)
  show ?thesis
    unfolding Let_def using p(1,3) next_iff resume complete by blast
qed

lemma sample_position:
  "cursorPositionLocked sha256 key ok (le_afterCursor sampleListEvents) ''event'' (le_namespace sampleListEvents) [] = Inr 0"
  by (simp add: cursorPositionLocked_def cursorStateLocked_def sampleListEvents_def zeroCursor_def)

theorem ListEvents_page_witness:
  "\<exists>s r s'. eventsInv sampleHash s \<and> highWater s ''acme'' = 1 \<and>
     ListEvents sampleHash sampleEnv sampleListEvents s = (Inr r, s') \<and>
     lv_events r = map er_value (take 10 (eventsAfter 0 (eventLog s' ''acme'')))"
proof -
  obtain e where inv: "eventsInv sampleHash (appendEventLocked e 5 ((freshStore [1])\<lparr>st_effectiveTime := 5\<rparr>))"
    and hw: "highWater (appendEventLocked e 5 ((freshStore [1])\<lparr>st_effectiveTime := 5\<rparr>)) ''acme'' = 1"
    by (rule sample_log)
  let ?s = "appendEventLocked e 5 ((freshStore [1])\<lparr>st_effectiveTime := 5\<rparr>)"
  obtain r s' where r: "ListEvents sampleHash sampleEnv sampleListEvents ?s = (Inr r, s')"
    using ListEvents_answers [OF sampleHash_digests inv sampleEnv_live sampleListEvents_valid
        sample_position]
    by (auto simp: sampleListEvents_def)
  obtain position where "(Inr 0 :: uint64 result) = Inr position"
    "lv_events r = map er_value (take (nat (le_limit sampleListEvents))
       (eventsAfter position (eventLog s' (le_namespace sampleListEvents))))"
    using ListEvents_page [OF sampleHash_digests inv r, unfolded Let_def sample_position] by blast
  then have "lv_events r = map er_value (take 10 (eventsAfter 0 (eventLog s' ''acme'')))"
    by (simp add: sampleListEvents_def)
  with inv hw r show ?thesis by blast
qed

text \<open>
  C21: ListEvents always answers. On a consistent log, for a valid request with an accepted cursor
  and a live context, it returns a page, or reports that the cursor has expired: a page of retained
  events never exceeds the response budget and is never malformed.
\<close>

theorem ListEvents_total:
  assumes "digests32 sha256" and "eventsInv sha256 s" and "liveEnv env t"
    and "validListEventsRequest request"
    and "cursorPositionLocked sha256 (st_cursorKey s) (st_cursorKeyOK s) (le_afterCursor request) ''event''
      (le_namespace request) [] = Inr position"
  shows "\<exists>r s'. ListEvents sha256 env request s =
    (if le_afterCursor request \<noteq> [] \<and> position \<le> expiredMark s' (le_namespace request)
     then Inl ErrorCursorExpired else Inr r, s')"
  by (rule ListEvents_answers [OF assms])

theorem ListEvents_total_witness:
  "\<exists>r s'. ListEvents sampleHash sampleEnv sampleListEvents (freshStore [1]) = (Inr r, s')"
proof -
  show ?thesis
    using ListEvents_total [OF sampleHash_digests freshStore_events sampleEnv_live sampleListEvents_valid
        sample_position]
    by (auto simp: sampleListEvents_def)
qed



end
