(* ===== verification/Memory_Slots.thy ===== *)
theory Memory_Slots
  imports Memory_Events
begin

text \<open>
  store/memory/slots.go: activation of a revision in a slot by compare-and-swap, resolution, and
  the retained activation history.
\<close>

section \<open>Activate\<close>

definition activationExpectationMatches :: "SlotExpectation \<Rightarrow> slotState option \<Rightarrow> bool" where
  "activationExpectationMatches expectation state =
     (if expectationIsUnset expectation then state = None
      else case (expectationActive expectation, state) of
          (Some (revisionID, generation), Some ss) \<Rightarrow>
            ac_revisionID (ss_current ss) = revisionID \<and> ac_generation (ss_current ss) = generation
        | _ \<Rightarrow> False)"

definition slotKey :: "ActivateRequest \<Rightarrow> commitReservationKey" where
  "slotKey request = \<lparr>ck_domain = ''slot'', ck_namespace = ar_namespace request, ck_name = ar_slot request\<rparr>"

text \<open>The preconditions that both sections check, in the same order; the result is the next generation.\<close>

definition activateChecks :: "ActivateRequest \<Rightarrow> Store \<Rightarrow> uint64 result" where
  "activateChecks request s =
     (let state = nested (st_slots s) (ar_namespace request) (ar_slot request)
      in if nested (st_revisions s) (ar_namespace request) (ar_targetRevisionID request) = None
         then Inl ErrorNotFound
         else if \<not> activationExpectationMatches (ar_expectation request) state then Inl ErrorConflict
         else (case state of
                 None \<Rightarrow> Inr 1
               | Some ss \<Rightarrow>
                   if ac_generation (ss_current ss) = MaxUint64 then Inl ErrorResourceExhausted
                   else Inr (ac_generation (ss_current ss) + 1)))"

text \<open>The first section: reserve the slot and check; every failed check releases the reservation.\<close>

definition activateReserve ::
  "ActivateRequest \<Rightarrow> (Store, commitReservation \<times> uint64 \<times> bool) action" where
  "activateReserve request s =
     (case reserveCommitLocked (slotKey request) s of
        (None, s) \<Rightarrow> (Inl ErrorConflict, s)
      | (Some reservation, s) \<Rightarrow>
          onErrorS
            (bindS (readS (activateChecks request))
               (\<lambda>generation. bindS (readS (nextEventSequenceLocked (ar_namespace request)))
               (\<lambda>_ s. (Inr (reservation, generation, st_failNextEvent s), s))))
            (releaseCommitReservationLocked reservation) s)"

definition storeActivation :: "Activation \<Rightarrow> slotState option \<Rightarrow> slotState" where
  "storeActivation activation state =
     (let history = (case state of None \<Rightarrow> [] | Some ss \<Rightarrow> ss_history ss) @ [activation]
      in \<lparr>ss_current = activation,
          ss_history = (if length history > activationHistoryRetention
                        then drop (length history - activationHistoryRetention) history else history)\<rparr>)"

text \<open>The last section: revalidate everything, then store the activation and append its event.\<close>

definition activateCommit ::
  "(bytes \<Rightarrow> bytes) \<Rightarrow> bool \<Rightarrow> ContextState \<Rightarrow> ActivateRequest \<Rightarrow> commitReservation \<Rightarrow> uint64 \<Rightarrow> Time
     \<Rightarrow> (Store, Activation) action" where
  "activateCommit sha256 done' err request reservation generation t =
     bindS (readS (\<lambda>s. requireR (ownsCommitReservationLocked reservation s) ErrorInternal))
     (\<lambda>_. bindS (requireS (\<not> done') (contextWaitError err))
     (\<lambda>_. bindS (readS (activateChecks request))
     (\<lambda>currentGeneration. bindS (requireS (currentGeneration = generation) ErrorConflict)
     (\<lambda>_. bindS (readS (nextEventSequenceLocked (ar_namespace request)))
     (\<lambda>_. bindS (\<lambda>s. case effectiveTimeLocked t s of (t, s) \<Rightarrow> (Inr t, s))
     (\<lambda>t. bindS (liftS (NewActivation (ar_namespace request) (ar_slot request)
                          (ar_targetRevisionID request) generation t))
     (\<lambda>activation. bindS (liftS (NewActivateResponse activation))
     (\<lambda>response. bindS (readS (newEventLocked sha256
          \<lparr>ev_namespace = ar_namespace request, ev_cursor = [], ev_kind = StateEventSlotActivated,
           ev_revisionID = ar_targetRevisionID request, ev_slot = ar_slot request,
           ev_slotGeneration = generation, ev_dataGeneration = 0, ev_occurredAt = 0\<rparr> t))
     (\<lambda>event s.
        (Inr response,
         appendEventLocked event t
           (s\<lparr>st_slots := nestedSet (st_slots s) (ar_namespace request) (ar_slot request)
                (storeActivation activation
                   (nested (st_slots s) (ar_namespace request) (ar_slot request)))\<rparr>)))))))))))"

text \<open>
  The code between reserving and committing, run without the lock: cancellation, the armed event
  failure, and the clock.
\<close>

definition commitPreparation :: "Env \<Rightarrow> commitReservation \<Rightarrow> bool \<Rightarrow> (Store, Time) action" where
  "commitPreparation env reservation failEvent =
     bindS (requireS (\<not> en_done env 0) (contextWaitError (en_err env 2)))
     (\<lambda>_. bindS (if failEvent then consumeEventFailure reservation else returnS ())
     (\<lambda>_. bindS (liftS (now (en_clock env)))
     (\<lambda>t. bindS (requireS (\<not> en_done env 1) (contextWaitError (en_err env 3)))
     (\<lambda>_. returnS t))))"

definition Activate ::
  "(bytes \<Rightarrow> bytes) \<Rightarrow> Env \<Rightarrow> ActivateRequest \<Rightarrow> (Store, Activation) action" where
  "Activate sha256 env request =
     bindS (liftS (safeContextError (en_err env 0)))
     (\<lambda>_. bindS (requireS (isOk (NewActivateRequest (ar_namespace request) (ar_slot request)
                                   (ar_targetRevisionID request) (ar_expectation request)))
                 ErrorInvalidArgument)
     (\<lambda>_. bindS (liftS (safeContextError (en_err env 1)))
     (\<lambda>_. bindS (activateReserve request)
     (\<lambda>(reservation, generation, failEvent).
        deferS
          (bindS (commitPreparation env reservation failEvent)
             (activateCommit sha256 (en_done env 2) (en_err env 4) request reservation generation))
          (releaseCommitReservationLocked reservation)))))"

section \<open>Resolve and ListActivationHistory\<close>

definition Resolve :: "Env \<Rightarrow> ResolveRequest \<Rightarrow> (Store, Activation) action" where
  "Resolve env request =
     bindS (liftS (safeContextError (en_err env 0)))
     (\<lambda>_. bindS (requireS (isOk (NewResolveRequest (rr_namespace request) (rr_slot request))) ErrorInvalidArgument)
     (\<lambda>_. bindS (liftS (safeContextError (en_err env 1)))
     (\<lambda>_. bindS (readS (\<lambda>s. Inr (nested (st_slots s) (rr_namespace request) (rr_slot request))))
     (\<lambda>state. bindS (liftS (safeContextError (en_err env 2)))
     (\<lambda>_. case state of
             None \<Rightarrow> failS ErrorNotFound
           | Some ss \<Rightarrow> liftS (NewResolveResponse (ss_current ss)))))))"

definition historyPage ::
  "(bytes \<Rightarrow> bytes) \<Rightarrow> ListActivationHistoryRequest \<Rightarrow> uint64 \<Rightarrow> Activation list \<Rightarrow> Store
     \<Rightarrow> (Activation list \<times> string) result" where
  "historyPage sha256 request position history s =
     (let start = sortSearch (length history) (\<lambda>i. ac_generation (history ! i) > position);
          end' = min (start + nat (lh_limit request)) (length history);
          page = take (end' - start) (drop start history)
      in bindR (if end' < length history
                then newCursorLocked sha256 (st_cursorKey s) (st_cursorKeyOK s)
                  (zeroCursor\<lparr>cu_domain := ''history'', cu_namespace := lh_namespace request,
                     cu_slot := lh_slot request, cu_position := ac_generation (last page)\<rparr>)
                else Inr [])
           (\<lambda>next'. Inr (page, next')))"

definition ListActivationHistory ::
  "(bytes \<Rightarrow> bytes) \<Rightarrow> Env \<Rightarrow> ListActivationHistoryRequest \<Rightarrow> (Store, ListActivationHistoryResponse) action" where
  "ListActivationHistory sha256 env request =
     bindS (liftS (safeContextError (en_err env 0)))
     (\<lambda>_. bindS (requireS (isOk (NewListActivationHistoryRequest (lh_namespace request) (lh_slot request)
                                   (lh_cursor request) (lh_limit request))) ErrorInvalidArgument)
     (\<lambda>_. bindS (readS (\<lambda>s. cursorPositionLocked sha256 (st_cursorKey s) (st_cursorKeyOK s)
                        (lh_cursor request) ''history'' (lh_namespace request) (lh_slot request)))
     (\<lambda>position. bindS (liftS (safeContextError (en_err env 1)))
     (\<lambda>_. bindS (readS (\<lambda>s. Inr (case nested (st_slots s) (lh_namespace request) (lh_slot request) of
                                     None \<Rightarrow> [] | Some ss \<Rightarrow> ss_history ss)))
     (\<lambda>history. bindS (requireS (\<not> (lh_cursor request \<noteq> [] \<and> history \<noteq> [] \<and>
                                      position < ac_generation (hd history))) ErrorCursorExpired)
     (\<lambda>_. bindS (readS (historyPage sha256 request position history))
     (\<lambda>(page, next'). bindS (liftS (safeContextError (en_err env 2)))
     (\<lambda>_. liftS (NewListActivationHistoryResponse request page next')))))))))"

section \<open>What the sections do\<close>

text \<open>
  Two states with the same contents: what readers can see and the cursor key are equal and the
  effective time has not gone back. Reservations, waiters and the test hook may differ.
\<close>

definition sameContents :: "Store \<Rightarrow> Store \<Rightarrow> bool" where
  "sameContents s s' \<longleftrightarrow>
     st_revisions s' = st_revisions s \<and> st_revisionOrder s' = st_revisionOrder s \<and>
     st_slots s' = st_slots s \<and> st_data s' = st_data s \<and> st_events s' = st_events s \<and>
     st_cursorKey s' = st_cursorKey s \<and> st_cursorKeyOK s' = st_cursorKeyOK s \<and>
     st_effectiveTime s \<le> st_effectiveTime s'"

lemma sameContents_refl [simp]: "sameContents s s"
  by (simp add: sameContents_def)

lemma sameContents_trans: "sameContents a b \<Longrightarrow> sameContents b c \<Longrightarrow> sameContents a c"
  by (simp add: sameContents_def)

lemma sameContents_upd [simp]:
  "sameContents s (s'\<lparr>st_reservations := m\<rparr>) \<longleftrightarrow> sameContents s s'"
  "sameContents s (s'\<lparr>st_nextRef := n\<rparr>) \<longleftrightarrow> sameContents s s'"
  "sameContents s (s'\<lparr>st_failNextEvent := b\<rparr>) \<longleftrightarrow> sameContents s s'"
  "sameContents s (s'\<lparr>st_waiters := w\<rparr>) \<longleftrightarrow> sameContents s s'"
  by (simp_all add: sameContents_def)

lemma sameContents_events: "sameContents s s' \<Longrightarrow> eventsInv sha256 s \<Longrightarrow> eventsInv sha256 s'"
  by (rule eventsInv_frame) (auto simp: sameContents_def)

lemma reserveCommitLocked_spec:
  "reserveCommitLocked key s = (Some r, s') \<longleftrightarrow>
     st_reservations s key = None \<and>
     r = \<lparr>cr_ref = st_nextRef s, cr_key = key, cr_operation = [], cr_idempotencyKey = [], cr_fingerprint = []\<rparr> \<and>
     s' = s\<lparr>st_reservations := (st_reservations s)(key \<mapsto> r), st_nextRef := st_nextRef s + 1\<rparr>"
  "reserveCommitLocked key s = (None, s') \<longleftrightarrow> st_reservations s key \<noteq> None \<and> s' = s"
  by (auto simp: reserveCommitLocked_def Let_def)

lemma releaseCommitReservationLocked_own:
  "st_reservations s (cr_key r) = Some q \<Longrightarrow> cr_ref q = cr_ref r \<Longrightarrow>
   releaseCommitReservationLocked r s = s\<lparr>st_reservations := (st_reservations s)(cr_key r := None)\<rparr>"
  by (simp add: releaseCommitReservationLocked_def ownsCommitReservationLocked_def)

lemma releaseCommitReservationLocked_contents [simp]:
  "sameContents s (releaseCommitReservationLocked r s') \<longleftrightarrow> sameContents s s'"
  by (simp add: releaseCommitReservationLocked_def)

lemma onErrorS_iff:
  "onErrorS m u s = (Inr x, s') \<longleftrightarrow> m s = (Inr x, s')"
  "onErrorS m u s = (Inl e, s') \<longleftrightarrow> (\<exists>s1. m s = (Inl e, s1) \<and> s' = u s1)"
  by (auto simp: onErrorS_def split: prod.splits sum.splits)

lemma bindS_Inl_iff:
  "bindS m f s = (Inl e, s'') \<longleftrightarrow>
     m s = (Inl e, s'') \<or> (\<exists>x s'. m s = (Inr x, s') \<and> f x s' = (Inl e, s''))"
  by (auto simp: bindS_def split: prod.splits sum.splits)

definition reserved :: "commitReservationKey \<Rightarrow> Store \<Rightarrow> commitReservation" where
  "reserved key s =
     \<lparr>cr_ref = st_nextRef s, cr_key = key, cr_operation = [], cr_idempotencyKey = [], cr_fingerprint = []\<rparr>"

lemma activateReserve_Inr:
  assumes "activateReserve request s = (Inr (r, g, f), s')"
  shows "st_reservations s (slotKey request) = None" "r = reserved (slotKey request) s"
    and "s' = s\<lparr>st_reservations := (st_reservations s)(slotKey request \<mapsto> r), st_nextRef := st_nextRef s + 1\<rparr>"
    and "activateChecks request s = Inr g" "f = st_failNextEvent s"
    and "\<exists>q. nextEventSequenceLocked (ar_namespace request) s = Inr q"
  using assms
  by (auto simp: activateReserve_def reserveCommitLocked_def reserved_def Let_def onErrorS_iff activateChecks_def
      nextEventSequenceLocked_def split: if_splits sum.splits)

lemma activateReserve_Inl:
  assumes "activateReserve request s = (Inl e, s')"
  shows "s' = s\<lparr>st_nextRef := st_nextRef s'\<rparr>"
    and "st_reservations s (slotKey request) = None \<Longrightarrow>
      activateChecks request s = Inl e \<or> nextEventSequenceLocked (ar_namespace request) s = Inl e"
proof -
  show "s' = s\<lparr>st_nextRef := st_nextRef s'\<rparr>"
  proof (cases "st_reservations s (slotKey request)")
    case None
    then show ?thesis
      using assms
      by (auto simp: activateReserve_def reserveCommitLocked_def Let_def onErrorS_iff
          releaseCommitReservationLocked_def ownsCommitReservationLocked_def fun_upd_idem split: sum.splits)
  qed (use assms in \<open>simp add: activateReserve_def reserveCommitLocked_def\<close>)
  show "activateChecks request s = Inl e \<or> nextEventSequenceLocked (ar_namespace request) s = Inl e"
    if "st_reservations s (slotKey request) = None"
    using assms that
    by (auto simp: activateReserve_def reserveCommitLocked_def Let_def onErrorS_iff activateChecks_def
        nextEventSequenceLocked_def split: sum.splits if_splits)
qed

lemma actions_apply [simp]:
  "returnS x s = (Inr x, s)" "failS e s = (Inl e, s)" "liftS r s = (r, s)" "readS f s = (f s, s)"
  by (simp_all add: returnS_def failS_def liftS_def readS_def)

lemma consumeEventFailure_contents:
  "consumeEventFailure r s = (x, s') \<Longrightarrow> sameContents s s' \<and> st_reservations s' = st_reservations s"
  by (auto simp: consumeEventFailure_def split: if_splits)

lemma commitPreparation_contents:
  assumes "commitPreparation env r f s = (x, s')"
  shows "sameContents s s' \<and> st_reservations s' = st_reservations s"
proof (cases "consumeEventFailure r s")
  case (Pair y s1)
  with consumeEventFailure_contents [OF this] assms show ?thesis
    by (cases f) (auto simp: commitPreparation_def bindS_def [of "consumeEventFailure r"]
        split: if_splits sum.splits)
qed

definition slotEvent :: "ActivateRequest \<Rightarrow> uint64 \<Rightarrow> StateEvent" where
  "slotEvent request generation =
     \<lparr>ev_namespace = ar_namespace request, ev_cursor = [], ev_kind = StateEventSlotActivated,
      ev_revisionID = ar_targetRevisionID request, ev_slot = ar_slot request,
      ev_slotGeneration = generation, ev_dataGeneration = 0, ev_occurredAt = 0\<rparr>"

lemma activateChecks_frame [simp]:
  "activateChecks request (s\<lparr>st_effectiveTime := t\<rparr>) = activateChecks request s"
  "activateChecks request (s\<lparr>st_reservations := m\<rparr>) = activateChecks request s"
  by (simp_all add: activateChecks_def)

lemma sameContents_checks: "sameContents s s' \<Longrightarrow> activateChecks request s' = activateChecks request s"
  by (simp add: activateChecks_def sameContents_def)

lemma sameContents_sequence:
  "sameContents s s' \<Longrightarrow> nextEventSequenceLocked n s' = nextEventSequenceLocked n s"
  by (simp add: nextEventSequenceLocked_def sameContents_def)

lemma activateCommit_Inl:
  assumes "activateCommit sha256 d err request r g t s = (Inl e, s')"
  shows "sameContents s s' \<and> st_reservations s' = st_reservations s"
proof -
  obtain t1 s1 where eff: "effectiveTimeLocked t s = (t1, s1)"
    by (cases "effectiveTimeLocked t s")
  then have "sameContents s s1 \<and> st_reservations s1 = st_reservations s"
    by (auto simp: effectiveTimeLocked_def sameContents_def split: if_splits)
  with assms eff show ?thesis
    by (auto simp: activateCommit_def bindS_def [of "\<lambda>s. case effectiveTimeLocked t s of (t, s) \<Rightarrow> (Inr t, s)"]
        split: if_splits sum.splits)
qed

lemma activateCommit_Inr:
  assumes "activateCommit sha256 d err request r g t s = (Inr a, s')"
  obtains t1 s1 e where "effectiveTimeLocked t s = (t1, s1)" "activateChecks request s = Inr g"
    "ownsCommitReservationLocked r s"
    "NewActivation (ar_namespace request) (ar_slot request) (ar_targetRevisionID request) g t1 = Inr a"
    "newEventLocked sha256 (slotEvent request g) t1 s1 = Inr e"
    "s' = appendEventLocked e t1 (s1\<lparr>st_slots := nestedSet (st_slots s1) (ar_namespace request) (ar_slot request)
       (storeActivation a (nested (st_slots s1) (ar_namespace request) (ar_slot request)))\<rparr>)"
proof -
  obtain t1 s1 where eff: "effectiveTimeLocked t s = (t1, s1)"
    by (cases "effectiveTimeLocked t s")
  with assms that show thesis
    by (auto simp: activateCommit_def bindS_def [of "\<lambda>s. case effectiveTimeLocked t s of (t, s) \<Rightarrow> (Inr t, s)"]
        NewActivateResponse_def slotEvent_def requireR_def split: if_splits sum.splits)
qed

section \<open>The invariant of the slots\<close>

text \<open>
  A slot's history holds its last three activations, or all of them if it has had fewer, with
  consecutive generations that end in the current one; each is valid, belongs to the slot, names a
  stored revision and is not dated after the effective time.
\<close>

definition slotOK :: "Store \<Rightarrow> string \<Rightarrow> string \<Rightarrow> slotState \<Rightarrow> bool" where
  "slotOK s n sl ss \<longleftrightarrow>
     (let h = ss_history ss; top = unat (ac_generation (ss_current ss)) in
      h \<noteq> [] \<and> last h = ss_current ss \<and> length h = min 3 top \<and>
      (\<forall>i < length h. unat (ac_generation (h ! i)) + length h = top + i + 1) \<and>
      (\<forall>a \<in> set h. validActivation a \<and> ac_namespace a = n \<and> ac_slot a = sl \<and>
         nested (st_revisions s) n (ac_revisionID a) \<noteq> None \<and> ac_activatedAt a \<le> st_effectiveTime s))"

definition slotsInv :: "Store \<Rightarrow> bool" where
  "slotsInv s \<longleftrightarrow> (\<forall>n sl ss. nested (st_slots s) n sl = Some ss \<longrightarrow> slotOK s n sl ss)"

lemma nested_nestedSet:
  "nested (nestedSet m a b c) x y = (if x = a \<and> y = b then Some c else nested m x y)"
  by (auto simp: nested_def nestedSet_def split: option.split)

lemma slotsInv_frame:
  assumes "slotsInv s" "st_slots s' = st_slots s" "st_effectiveTime s \<le> st_effectiveTime s'"
    and "\<And>n i. nested (st_revisions s) n i \<noteq> None \<Longrightarrow> nested (st_revisions s') n i \<noteq> None"
  shows "slotsInv s'"
  unfolding slotsInv_def
proof (intro allI impI)
  fix n sl ss
  assume "nested (st_slots s') n sl = Some ss"
  then have "slotOK s n sl ss"
    using assms(1,2) by (simp add: slotsInv_def)
  moreover have "ac_activatedAt a \<le> st_effectiveTime s \<Longrightarrow> ac_activatedAt a \<le> st_effectiveTime s'" for a :: Activation
    using assms(3) by simp
  ultimately show "slotOK s' n sl ss"
    using assms(4) unfolding slotOK_def Let_def by blast
qed

lemma sameContents_slots: "sameContents s s' \<Longrightarrow> slotsInv s \<Longrightarrow> slotsInv s'"
  by (rule slotsInv_frame) (auto simp: sameContents_def)

lemma unat_succ: "(w :: uint64) \<noteq> MaxUint64 \<Longrightarrow> unat (w + 1) = unat w + 1"
proof -
  assume "w \<noteq> MaxUint64"
  then have "unat w \<noteq> 2 ^ 64 - 1" by (simp add: MaxUint64_def word_unat_eq_iff)
  moreover have "unat w < 2 ^ 64"
    using unsigned_less [of w, where 'a = nat] by simp
  ultimately show ?thesis by (simp add: unat_word_ariths)
qed

lemma storeActivation_ok:
  assumes old: "\<And>ss. state = Some ss \<Longrightarrow> slotOK s n sl ss"
    and g: "unat (ac_generation a) = (case state of None \<Rightarrow> 1 | Some ss \<Rightarrow> unat (ac_generation (ss_current ss)) + 1)"
    and a: "validActivation a" "ac_namespace a = n" "ac_slot a = sl"
      "nested (st_revisions s) n (ac_revisionID a) \<noteq> None" "ac_activatedAt a \<le> st_effectiveTime s"
  shows "slotOK s n sl (storeActivation a state)"
proof (cases state)
  case None
  then show ?thesis
    using g a by (simp add: slotOK_def storeActivation_def Let_def activationHistoryRetention_def)
next
  case (Some ss)
  let ?h = "ss_history ss" and ?top = "unat (ac_generation (ss_current ss))"
  have h: "?h \<noteq> []" "length ?h = min 3 ?top"
    "\<forall>i < length ?h. unat (ac_generation (?h ! i)) + length ?h = ?top + i + 1"
    using old [OF Some] unfolding slotOK_def Let_def by blast+
  have ok: "\<forall>x \<in> set (?h @ [a]). validActivation x \<and> ac_namespace x = n \<and> ac_slot x = sl \<and>
      nested (st_revisions s) n (ac_revisionID x) \<noteq> None \<and> ac_activatedAt x \<le> st_effectiveTime s"
    using old [OF Some] a by (auto simp: slotOK_def Let_def)
  define k where "k = length ?h + 1 - 3"
  have st: "ss_current (storeActivation a state) = a" "ss_history (storeActivation a state) = drop k (?h @ [a])"
    by (auto simp: storeActivation_def Some Let_def activationHistoryRetention_def k_def)
  have k: "k \<le> length ?h" "length ?h + 1 - k = min 3 (?top + 1)"
    using h(1,2) by (auto simp: k_def)
  have gens: "unat (ac_generation (drop k (?h @ [a]) ! i)) + (length ?h + 1 - k) = ?top + 1 + i + 1"
    if "i < length ?h + 1 - k" for i
  proof (cases "k + i < length ?h")
    case True
    then have "drop k (?h @ [a]) ! i = ?h ! (k + i)" by (simp add: nth_append)
    with True h(3) k show ?thesis by (auto simp: algebra_simps)
  next
    case False
    then have ki: "k + i = length ?h" using that by simp
    then have "drop k (?h @ [a]) ! i = a" "length ?h + 1 - k = i + 1"
      using k(1) by (simp_all add: nth_append)
    then show ?thesis using g Some by simp
  qed
  define h' where "h' = drop k (?h @ [a])"
  have len: "length h' = length ?h + 1 - k" using k(1) by (simp add: h'_def)
  have top: "unat (ac_generation a) = ?top + 1" using g Some by simp
  have "h' \<noteq> []" "last h' = a" using k(1) by (simp_all add: h'_def)
  moreover have "length h' = min 3 (unat (ac_generation a))" using len k(2) top by simp
  moreover have "\<forall>i < length h'. unat (ac_generation (h' ! i)) + length h' = unat (ac_generation a) + i + 1"
    using gens [folded h'_def] unfolding len top by blast
  moreover have "\<forall>x \<in> set h'. x \<in> set (?h @ [a])"
    using set_drop_subset [of k "?h @ [a]"] by (auto simp: h'_def)
  ultimately show ?thesis
    using ok unfolding slotOK_def Let_def st h'_def [symmetric] by blast
qed

lemma appendEventLocked_last:
  assumes inv: "eventsInv sha256 s" and e: "eventOK sha256 s n e" "unat (er_sequence e) = highWater s n + 1"
    and latest: "ev_occurredAt (er_value e) = st_effectiveTime s"
  shows "eventLog (appendEventLocked e (st_effectiveTime s) s) n \<noteq> [] \<and>
    last (eventLog (appendEventLocked e (st_effectiveTime s) s) n) = e"
proof -
  define es0 where "es0 = (case st_events s n of None \<Rightarrow> \<lparr>es_values = [], es_expiredThrough = 0\<rparr> | Some es \<Rightarrow> es)"
  define es where "es = es0\<lparr>es_values := es_values es0 @ [e]\<rparr>"
  let ?t = "st_effectiveTime s"
  have n: "ev_namespace (er_value e) = n"
    using e(1) by (simp add: eventOK_def)
  have log: "eventLog (appendEventLocked e ?t s) n = es_values (pruneEventState ?t es)"
    by (simp add: appendEventLocked_def Let_def n pruneEventsLocked_def eventLog_def es_def es0_def)
  have old: "consecutive es0" "timesSorted es0" "\<forall>x \<in> set (es_values es0). eventOK sha256 s n x"
    using inv by (auto simp: es0_def eventsInv_iff consecutive_def timesSorted_def split: option.split)
  have hw: "highWater s n = unat (es_expiredThrough es0) + length (es_values es0)"
    by (simp add: highWater_def es0_def split: option.split)
  have "consecutive es"
    using old(1) e(2) hw by (auto simp: consecutive_def es_def nth_append less_Suc_eq)
  moreover have "timesSorted es"
    using old(2,3) latest by (auto simp: timesSorted_def es_def sorted_append eventOK_def)
  ultimately have spec: "es_values (pruneEventState ?t es) = drop (pruneCut ?t es) (es_values es)"
    by (rule pruneEventState_spec(1))
  have "\<not> expiredAt ?t e"
    using latest by (simp add: expiredAt_def cutoff_def defaultEventRetention_def)
  then have "pruneCut ?t es \<le> length (es_values es0)"
    by (auto simp: pruneCut_def es_def eventRetentionLimit_def limit_defs)
  then show ?thesis
    unfolding log spec by (simp add: es_def)
qed

section \<open>The effect of an activation\<close>

text \<open>
  What a committed activation does: the precondition held, the slot moves to the next generation,
  every other slot and all other contents stay, and exactly one event, describing the activation,
  is appended.
\<close>

definition activated :: "ActivateRequest \<Rightarrow> Activation \<Rightarrow> Store \<Rightarrow> Store \<Rightarrow> bool" where
  "activated request a s s' \<longleftrightarrow>
     (let n = ar_namespace request; sl = ar_slot request; state = nested (st_slots s) n sl in
      activationExpectationMatches (ar_expectation request) state \<and>
      nested (st_revisions s) n (ar_targetRevisionID request) \<noteq> None \<and>
      ac_namespace a = n \<and> ac_slot a = sl \<and> ac_revisionID a = ar_targetRevisionID request \<and>
      ac_activatedAt a = st_effectiveTime s' \<and>
      unat (ac_generation a) = (case state of None \<Rightarrow> 1 | Some ss \<Rightarrow> unat (ac_generation (ss_current ss)) + 1) \<and>
      (\<forall>m x. nested (st_slots s') m x =
         (if m = n \<and> x = sl then Some (storeActivation a state) else nested (st_slots s) m x)) \<and>
      st_revisions s' = st_revisions s \<and> st_revisionOrder s' = st_revisionOrder s \<and>
      st_data s' = st_data s \<and> st_effectiveTime s \<le> st_effectiveTime s' \<and>
      (\<forall>m. highWater s' m = highWater s m + (if m = n then 1 else 0)) \<and>
      eventLog s' n \<noteq> [] \<and>
      er_value (last (eventLog s' n)) =
        (slotEvent request (ac_generation a))\<lparr>ev_cursor := ev_cursor (er_value (last (eventLog s' n))),
           ev_occurredAt := st_effectiveTime s'\<rparr>)"

lemma activateChecks_Inr:
  assumes "activateChecks request s = Inr g"
  shows "activationExpectationMatches (ar_expectation request) (nested (st_slots s) (ar_namespace request) (ar_slot request))"
    and "nested (st_revisions s) (ar_namespace request) (ar_targetRevisionID request) \<noteq> None"
    and "unat g = (case nested (st_slots s) (ar_namespace request) (ar_slot request) of
      None \<Rightarrow> 1 | Some ss \<Rightarrow> unat (ac_generation (ss_current ss)) + 1)"
  using assms unat_succ by (auto simp: activateChecks_def Let_def split: if_splits option.splits)

lemma activateCommit_effect:
  assumes inv: "eventsInv sha256 s" "slotsInv s"
    and ok: "activateCommit sha256 d err request r g t s = (Inr a, s')"
  shows "activated request a s s'" "slotsInv s'" "eventsInv sha256 s'" "st_reservations s' = st_reservations s"
    and "st_cursorKey s' = st_cursorKey s" "st_cursorKeyOK s' = st_cursorKeyOK s"
proof -
  let ?n = "ar_namespace request" and ?sl = "ar_slot request"
  obtain t1 s1 e where c: "effectiveTimeLocked t s = (t1, s1)" "activateChecks request s = Inr g"
    "NewActivation ?n ?sl (ar_targetRevisionID request) g t1 = Inr a"
    "newEventLocked sha256 (slotEvent request g) t1 s1 = Inr e"
    "s' = appendEventLocked e t1 (s1\<lparr>st_slots := nestedSet (st_slots s1) ?n ?sl
       (storeActivation a (nested (st_slots s1) ?n ?sl))\<rparr>)"
    using activateCommit_Inr [OF ok] by metis
  note eff = effectiveTimeLocked_spec [OF c(1)]
  have s1: "sameContents s s1" "st_reservations s1 = st_reservations s"
    using eff(2,3) by (simp_all add: sameContents_def)
  note checks = activateChecks_Inr [OF c(2)]
  have slots: "st_slots s1 = st_slots s" "st_revisions s1 = st_revisions s"
    using s1(1) by (simp_all add: sameContents_def)
  define s2 where "s2 = s1\<lparr>st_slots := nestedSet (st_slots s1) ?n ?sl
       (storeActivation a (nested (st_slots s1) ?n ?sl))\<rparr>"
  have e1: "newEventLocked sha256 (slotEvent request g) (st_effectiveTime s2) s2 = Inr e"
    using c(4) eff(1) by (simp add: s2_def newEventLocked_def nextEventSequenceLocked_def)
  have inv2: "eventsInv sha256 s2"
    by (rule eventsInv_frame [OF sameContents_events [OF s1(1) inv(1)]]) (simp_all add: s2_def)
  note ev = newEventLocked_spec [OF inv2 e1]
  have n: "ev_namespace (slotEvent request g) = ?n" by (simp add: slotEvent_def)
  note ev' = ev(1,2) [unfolded n] ev(3)
  have s': "s' = appendEventLocked e (st_effectiveTime s2) s2"
    by (simp add: c(5) s2_def eff(1))
  note app = appendEventLocked_inv [OF inv2 ev', of "st_effectiveTime s2"]
  note lst = appendEventLocked_last [OF inv2 ev']
  have a: "a = \<lparr>ac_namespace = ?n, ac_slot = ?sl, ac_revisionID = ar_targetRevisionID request,
      ac_generation = g, ac_activatedAt = t1\<rparr>" "validActivation a"
    using c(3) unfolding NewActivation_Inr_iff by blast+
  have hw: "highWater s2 m = highWater s m" for m
    using s1(1) by (simp add: highWater_def s2_def sameContents_def)
  show "eventsInv sha256 s'"
    using app(1) by (simp add: s')
  show "st_reservations s' = st_reservations s"
    by (simp add: s' s2_def s1(2))
  show "st_cursorKey s' = st_cursorKey s" "st_cursorKeyOK s' = st_cursorKeyOK s"
    using s1(1) by (simp_all add: s' s2_def sameContents_def)
  have slots': "nested (st_slots s') m x =
      (if m = ?n \<and> x = ?sl then Some (storeActivation a (nested (st_slots s) ?n ?sl)) else nested (st_slots s) m x)" for m x
    by (simp add: s' s2_def nested_nestedSet slots)
  have eff': "st_effectiveTime s' = t1" "st_revisions s' = st_revisions s"
    using s1(1) by (simp_all add: s' s2_def eff(1) sameContents_def)
  have fields: "ac_namespace a = ?n" "ac_slot a = ?sl" "ac_revisionID a = ar_targetRevisionID request"
    "ac_generation a = g" "ac_activatedAt a = st_effectiveTime s'"
    by (simp_all add: a(1) eff'(1))
  have frames: "st_revisionOrder s' = st_revisionOrder s" "st_data s' = st_data s"
    "st_effectiveTime s \<le> st_effectiveTime s'"
    using s1(1) by (simp_all add: s' s2_def sameContents_def)
  have hw': "highWater s' m = highWater s m + (if m = ?n then 1 else 0)" for m
    using app(2) hw by (simp add: s')
  have lst': "eventLog s' ?n \<noteq> []" "last (eventLog s' ?n) = e"
    using lst by (simp_all add: s')
  have "er_value e = (slotEvent request g)\<lparr>ev_cursor := ev_cursor (er_value e), ev_occurredAt := st_effectiveTime s'\<rparr>"
    using ev(4) by (simp only: s' appendEventLocked_frame)
  then show "activated request a s s'"
    unfolding activated_def Let_def fields(4) lst'(2)
    by (intro conjI allI checks slots' eff'(2) frames hw' lst'(1) fields)
  have inv1: "slotsInv s1" by (rule sameContents_slots [OF s1(1) inv(2)])
  show "slotsInv s'"
    unfolding slotsInv_def
  proof (intro allI impI)
    fix m x ss
    assume ss: "nested (st_slots s') m x = Some ss"
    have frame: "slotOK s' m x y" if "slotOK s m x y" for y
      using that eff(1,2) eff' unfolding slotOK_def Let_def by fastforce
    show "slotOK s' m x ss"
    proof (cases "m = ?n \<and> x = ?sl")
      case True
      then have "ss = storeActivation a (nested (st_slots s) ?n ?sl)" using ss slots' by simp
      moreover have "slotOK s' ?n ?sl (storeActivation a (nested (st_slots s) ?n ?sl))"
        by (rule storeActivation_ok)
          (use frame True inv(2) checks a eff' in \<open>auto simp: slotsInv_def\<close>)
      ultimately show ?thesis using True by simp
    next
      case False
      then have "nested (st_slots s) m x = Some ss" using ss slots' by metis
      then show ?thesis using inv(2) frame by (simp add: slotsInv_def)
    qed
  qed
qed

lemma sameContents_reads:
  assumes "sameContents s s'"
  shows "eventLog s' = eventLog s" "highWater s' = highWater s" "expiredMark s' = expiredMark s"
  using assms by (auto simp: sameContents_def eventLog_def highWater_def expiredMark_def fun_eq_iff)

lemma activated_before:
  assumes "sameContents s s1" "activated request a s1 s'"
  shows "activated request a s s'"
proof -
  have "st_slots s1 = st_slots s" "st_revisions s1 = st_revisions s" "st_revisionOrder s1 = st_revisionOrder s"
    "st_data s1 = st_data s" "st_effectiveTime s \<le> st_effectiveTime s1" "highWater s1 = highWater s"
    using assms(1) sameContents_reads(2) by (auto simp: sameContents_def)
  then show ?thesis
    using assms(2) order_trans unfolding activated_def Let_def by auto
qed

lemma activated_after:
  assumes "activated request a s s1"
    and "s' = s1\<lparr>st_reservations := m\<rparr>"
  shows "activated request a s s'"
  using assms(1) unfolding activated_def assms(2) eventLog_def highWater_def Let_def by simp

lemma Activate_steps:
  assumes "Activate sha256 env request s = (r, s')"
  obtains (early) e where "r = Inl e" "s' = s"
  | (refused) e where "r = Inl e" "activateReserve request s = (Inl e, s')"
  | (unprepared) q g f s1 e s2 where "activateReserve request s = (Inr (q, g, f), s1)"
      "commitPreparation env q f s1 = (Inl e, s2)" "r = Inl e" "s' = releaseCommitReservationLocked q s2"
  | (prepared) q g f s1 t s2 s3 where "activateReserve request s = (Inr (q, g, f), s1)"
      "commitPreparation env q f s1 = (Inr t, s2)"
      "activateCommit sha256 (en_done env 2) (en_err env 4) request q g t s2 = (r, s3)"
      "s' = releaseCommitReservationLocked q s3"
proof -
  have early_or: "(\<exists>e. r = Inl e \<and> s' = s) \<or>
      bindS (activateReserve request) (\<lambda>(reservation, generation, failEvent).
        deferS
          (bindS (commitPreparation env reservation failEvent)
             (activateCommit sha256 (en_done env 2) (en_err env 4) request reservation generation))
          (releaseCommitReservationLocked reservation)) s = (r, s')"
    using assms unfolding Activate_def by (auto split: sum.splits if_splits)
  show thesis
  proof (cases "activateReserve request s")
    case (Pair x s1)
    show thesis
    proof (cases x)
      case (Inl e)
      with Pair early_or early refused show thesis by (auto simp: bindS_def)
    next
      case (Inr y)
      obtain q g f where y: "y = (q, g, f)" by (cases y)
      obtain z s2 where prep: "commitPreparation env q f s1 = (z, s2)"
        by (cases "commitPreparation env q f s1")
      show thesis
      proof (cases z)
        case (Inl e)
        with Pair Inr y prep early_or early unprepared show thesis by (auto simp: bindS_def deferS_def)
      next
        case (Inr t)
        obtain r3 s3 where "activateCommit sha256 (en_done env 2) (en_err env 4) request q g t s2 = (r3, s3)"
          by (cases "activateCommit sha256 (en_done env 2) (en_err env 4) request q g t s2")
        with Pair Inr \<open>x = Inr y\<close> y prep early_or early prepared show thesis
          by (auto simp: bindS_def deferS_def)
      qed
    qed
  qed
qed

lemma reserved_release:
  assumes "st_reservations s key = None" "st_reservations s' = (st_reservations s)(key \<mapsto> reserved key s)"
  shows "releaseCommitReservationLocked (reserved key s) s' = s'\<lparr>st_reservations := st_reservations s\<rparr>"
  using assms by (simp add: releaseCommitReservationLocked_def ownsCommitReservationLocked_def reserved_def fun_upd_idem)

lemma Activate_outcome:
  assumes inv: "eventsInv sha256 s" "slotsInv s" and run: "Activate sha256 env request s = (r, s')"
  shows "eventsInv sha256 s' \<and> slotsInv s' \<and> st_reservations s' = st_reservations s \<and>
    (case r of Inl e \<Rightarrow> sameContents s s' | Inr a \<Rightarrow> activated request a s s')"
  using run
proof (cases rule: Activate_steps)
  case early
  then show ?thesis using inv by simp
next
  case (refused e)
  then have "s' = s\<lparr>st_nextRef := st_nextRef s'\<rparr>" by (intro activateReserve_Inl)
  then have "sameContents s s'" "st_reservations s' = st_reservations s"
    by (metis sameContents_upd(2) sameContents_refl, metis Store.select_convs(8) Store.surjective Store.update_convs(12))
  with refused inv show ?thesis
    by (simp add: sameContents_events sameContents_slots)
next
  case (unprepared q g f s1 e s2)
  note res = activateReserve_Inr [OF unprepared(1)]
  have s1: "sameContents s s1" by (simp add: res(3))
  with commitPreparation_contents [OF unprepared(2)] have s2: "sameContents s s2" "st_reservations s2 = st_reservations s1"
    by (auto intro: sameContents_trans)
  have rel: "s' = s2\<lparr>st_reservations := st_reservations s\<rparr>"
    unfolding unprepared(4) res(2) by (rule reserved_release [OF res(1)]) (simp add: s2(2) res(3) res(2))
  then have "sameContents s s'" using s2(1) by simp
  then show ?thesis
    using unprepared(3) inv rel by (simp add: sameContents_events sameContents_slots)
next
  case (prepared q g f s1 t s2 s3)
  note res = activateReserve_Inr [OF prepared(1)]
  have s1: "sameContents s s1" by (simp add: res(3))
  with commitPreparation_contents [OF prepared(2)] have s2: "sameContents s s2" "st_reservations s2 = st_reservations s1"
    by (auto intro: sameContents_trans)
  note inv2 = sameContents_events [OF s2(1) inv(1)] sameContents_slots [OF s2(1) inv(2)]
  have rel: "s' = s3\<lparr>st_reservations := st_reservations s\<rparr>" if "st_reservations s3 = st_reservations s2"
    unfolding prepared(4) res(2) by (rule reserved_release [OF res(1)]) (simp add: that s2(2) res(3) res(2))
  show ?thesis
  proof (cases r)
    case (Inl e)
    with activateCommit_Inl prepared(3) have s3: "sameContents s2 s3" "st_reservations s3 = st_reservations s2"
      by blast+
    then have "sameContents s s'" using rel sameContents_trans [OF s2(1) s3(1)] by simp
    then show ?thesis using Inl inv rel [OF s3(2)] by (simp add: sameContents_events sameContents_slots)
  next
    case (Inr a)
    note eff = activateCommit_effect [OF inv2 prepared(3) [unfolded Inr]]
    note s' = rel [OF eff(4)]
    have "activated request a s s'"
      by (rule activated_after [OF activated_before [OF s2(1) eff(1)] s'])
    moreover have "slotsInv s'"
      by (rule slotsInv_frame [OF eff(2)]) (simp_all add: s')
    moreover have "eventsInv sha256 s'"
      by (rule eventsInv_frame [OF eff(3)]) (simp_all add: s')
    ultimately show ?thesis using Inr s' by simp
  qed
qed

section \<open>When an activation succeeds\<close>

lemma effectiveTimeLocked_pos: "0 < t \<Longrightarrow> effectiveTimeLocked t s = (t1, s1) \<Longrightarrow> 0 < t1"
  by (auto simp: effectiveTimeLocked_def split: if_splits)

lemma activateCommit_live:
  assumes sha: "digests32 sha256" and inv: "eventsInv sha256 s" and key: "st_cursorKeyOK s"
    and req: "isOk (NewActivateRequest (ar_namespace request) (ar_slot request) (ar_targetRevisionID request)
      (ar_expectation request))"
    and own: "ownsCommitReservationLocked r s" and checks: "activateChecks request s = Inr g"
    and hw: "highWater s (ar_namespace request) < 2 ^ 64 - 1" and t: "0 < t"
  shows "\<exists>a s'. activateCommit sha256 False err request r g t s = (Inr a, s')"
proof -
  let ?n = "ar_namespace request"
  obtain t1 s1 where eff: "effectiveTimeLocked t s = (t1, s1)"
    by (cases "effectiveTimeLocked t s")
  note eff' = effectiveTimeLocked_spec [OF eff]
  have s1: "sameContents s s1" using eff'(2,3) by (simp add: sameContents_def)
  have valid: "validNamespace ?n" "validIdentifier (ar_slot request)" "validRevisionIDString (ar_targetRevisionID request)"
    using req by (auto simp: NewActivateRequest_def isOk_iff validNamespace_def validIdentifier_def)
  have "g \<noteq> 0"
    using activateChecks_Inr(3) [OF checks] by (auto split: option.splits)
  then have act: "validActivation \<lparr>ac_namespace = ?n, ac_slot = ar_slot request,
      ac_revisionID = ar_targetRevisionID request, ac_generation = g, ac_activatedAt = t1\<rparr>"
    using valid effectiveTimeLocked_pos [OF t eff] by (simp add: validActivation_iff)
  have "\<exists>e. newEventLocked sha256 (slotEvent request g) t1 s1 = Inr e"
    using sameContents_reads(2) [OF s1] key s1 valid \<open>g \<noteq> 0\<close> effectiveTimeLocked_pos [OF t eff] hw
    by (intro newEventLocked_succeeds [OF sha sameContents_events [OF s1 inv]])
      (auto simp: slotEvent_def eventShape_def event_kinds sameContents_def)
  moreover obtain q where "nextEventSequenceLocked ?n s = Inr q"
    using nextEventSequenceLocked_spec(3) [OF inv] hw by blast
  moreover have "NewActivation ?n (ar_slot request) (ar_targetRevisionID request) g t1 = Inr \<lparr>ac_namespace = ?n,
      ac_slot = ar_slot request, ac_revisionID = ar_targetRevisionID request, ac_generation = g, ac_activatedAt = t1\<rparr>"
    using act by (simp add: NewActivation_Inr_iff)
  ultimately show ?thesis
    using own checks eff act
    by (auto simp: activateCommit_def requireR_def NewActivateResponse_def slotEvent_def
        bindS_def [of "\<lambda>s. case effectiveTimeLocked t s of (t, s) \<Rightarrow> (Inr t, s)"])
qed

lemma commitPreparation_live:
  "liveEnv env t \<Longrightarrow> commitPreparation env r False s = (Inr t, s)"
  by (simp add: commitPreparation_def liveEnv_simps)

lemma Activate_live:
  assumes sha: "digests32 sha256" and inv: "eventsInv sha256 s" and key: "st_cursorKeyOK s"
    and live: "liveEnv env t" "0 < t" and fail: "\<not> st_failNextEvent s"
    and req: "isOk (NewActivateRequest (ar_namespace request) (ar_slot request) (ar_targetRevisionID request)
      (ar_expectation request))"
  shows "(\<exists>a s'. Activate sha256 env request s = (Inr a, s')) \<longleftrightarrow>
    st_reservations s (slotKey request) = None \<and> isOk (activateChecks request s) \<and>
    highWater s (ar_namespace request) < 2 ^ 64 - 1" (is "?l \<longleftrightarrow> ?r")
proof
  assume ?l
  then obtain a s' where "Activate sha256 env request s = (Inr a, s')" by blast
  then show ?r
  proof (cases rule: Activate_steps)
    case (prepared q g f s1 t s2 s3)
    note res = activateReserve_Inr [OF prepared(1)]
    then show ?thesis
      using nextEventSequenceLocked_spec(3) [OF inv] by (simp add: isOk_iff)
  qed auto
next
  assume r: ?r
  then obtain g where g: "activateChecks request s = Inr g" by (auto simp: isOk_iff)
  obtain q where q: "nextEventSequenceLocked (ar_namespace request) s = Inr q"
    using nextEventSequenceLocked_spec(3) [OF inv] r by blast
  let ?q = "reserved (slotKey request) s"
  let ?s1 = "s\<lparr>st_reservations := (st_reservations s)(slotKey request \<mapsto> ?q), st_nextRef := st_nextRef s + 1\<rparr>"
  have same: "sameContents s ?s1" by simp
  have res: "activateReserve request s = (Inr (?q, g, False), ?s1)"
    using r g q fail sameContents_checks [OF same] sameContents_sequence [OF same]
    by (simp add: activateReserve_def reserveCommitLocked_def reserved_def onErrorS_def Let_def bindS_def readS_def)
  have "\<exists>a s'. activateCommit sha256 False err request ?q g t ?s1 = (Inr a, s')" for err
    using r g key sameContents_checks [OF same] sameContents_reads(2) [OF same]
    by (intro activateCommit_live [OF sha sameContents_events [OF same inv] _ req])
      (auto simp: ownsCommitReservationLocked_def reserved_def live(2))
  then obtain a s' where "activateCommit sha256 False (en_err env 4) request ?q g t ?s1 = (Inr a, s')" by blast
  then show ?l
    using req live
    by (simp add: Activate_def liveEnv_simps [OF live(1)] bindS_def [of "activateReserve request"] res deferS_def
        bindS_def [of "commitPreparation env ?q False"] commitPreparation_live [OF live(1)])
qed

lemma Resolve_live:
  assumes "slotsInv s" "liveEnv env t" "isOk (NewResolveRequest (rr_namespace request) (rr_slot request))"
  shows "Resolve env request s =
    (case nested (st_slots s) (rr_namespace request) (rr_slot request) of
       None \<Rightarrow> (Inl ErrorNotFound, s) | Some ss \<Rightarrow> (Inr (ss_current ss), s))"
proof (cases "nested (st_slots s) (rr_namespace request) (rr_slot request)")
  case (Some ss)
  then have "slotOK s (rr_namespace request) (rr_slot request) ss"
    using assms(1) by (simp add: slotsInv_def)
  then have "validActivation (ss_current ss)"
    unfolding slotOK_def Let_def by (metis last_in_set)
  then show ?thesis
    using assms(3) Some by (simp add: Resolve_def liveEnv_simps [OF assms(2)] NewResolveResponse_def)
qed (use assms(3) in \<open>simp add: Resolve_def liveEnv_simps [OF assms(2)]\<close>)

section \<open>Pages of the activation history\<close>

definition slotHistory :: "Store \<Rightarrow> string \<Rightarrow> string \<Rightarrow> Activation list" where
  "slotHistory s n sl = (case nested (st_slots s) n sl of None \<Rightarrow> [] | Some ss \<Rightarrow> ss_history ss)"

definition activationsAfter :: "uint64 \<Rightarrow> Activation list \<Rightarrow> Activation list" where
  "activationsAfter p = filter (\<lambda>a. p < ac_generation a)"

lemma slotHistory_sorted:
  assumes "slotsInv s"
  shows "sorted_wrt (\<lambda>a b. ac_generation a < ac_generation b) (slotHistory s n sl)"
proof (cases "nested (st_slots s) n sl")
  case (Some ss)
  then have ok: "slotOK s n sl ss" using assms by (simp add: slotsInv_def)
  have "ac_generation (ss_history ss ! i) < ac_generation (ss_history ss ! j)"
    if "i < j" "j < length (ss_history ss)" for i j
  proof -
    have "\<forall>k < length (ss_history ss). unat (ac_generation (ss_history ss ! k)) + length (ss_history ss) =
        unat (ac_generation (ss_current ss)) + k + 1"
      using ok unfolding slotOK_def Let_def by blast
    note this [rule_format, of i] this [rule_format, of j]
    then show ?thesis
      using that unfolding word_less_nat_alt by linarith
  qed
  then show ?thesis by (simp add: slotHistory_def Some sorted_wrt_iff_nth_less)
qed (simp add: slotHistory_def)

text \<open>Items numbered increasingly: a page that ends at an item is continued after its number.\<close>

lemma filter_resume:
  fixes f :: "'a \<Rightarrow> 'b :: linorder"
  assumes "sorted_wrt (\<lambda>a b. f a < f b) xs" "n < length (filter (\<lambda>a. p < f a) xs)" "0 < n"
  shows "filter (\<lambda>a. f (last (take n (filter (\<lambda>a. p < f a) xs))) < f a) xs = drop n (filter (\<lambda>a. p < f a) xs)"
proof -
  let ?ys = "filter (\<lambda>a. p < f a) xs"
  let ?q = "f (last (take n ?ys))"
  have sorted: "sorted_wrt (\<lambda>a b. f a < f b) ?ys"
    using assms(1) by (simp add: sorted_wrt_filter)
  have q: "last (take n ?ys) = ?ys ! (n - 1)"
    using assms(2,3) by (subst last_conv_nth) auto
  then have "last (take n ?ys) \<in> set ?ys"
    using nth_mem [of "n - 1" ?ys] assms(2,3) by (simp del: set_filter)
  then have "p < ?q" by simp
  then have "filter (\<lambda>a. ?q < f a) xs = filter (\<lambda>a. ?q < f a) ?ys"
    by (auto intro: filter_cong)
  also have "\<dots> = drop n ?ys"
  proof -
    have lo: "\<forall>k < n. \<not> ?q < f (?ys ! k)"
    proof (intro allI impI)
      fix k assume "k < n"
      then show "\<not> ?q < f (?ys ! k)"
        using sorted_wrt_nth_less [OF sorted, of k "n - 1"] assms(2) q
        by (cases "k = n - 1") (auto dest: order.asym)
    qed
    have hi: "\<forall>k. n \<le> k \<longrightarrow> k < length ?ys \<longrightarrow> ?q < f (?ys ! k)"
      using sorted_wrt_nth_less [OF sorted, of "n - 1"] assms(3) q by simp
    show ?thesis by (rule filter_split_at(1) [OF lo hi, symmetric])
  qed
  finally show ?thesis .
qed

lemma historyPage_spec:
  assumes "sorted_wrt (\<lambda>a b. ac_generation a < ac_generation b) h" "0 < lh_limit request"
  shows "historyPage sha256 request p h s =
    (let rest = activationsAfter p h; page = take (nat (lh_limit request)) rest in
     bindR (if nat (lh_limit request) < length rest
            then newCursorLocked sha256 (st_cursorKey s) (st_cursorKeyOK s)
              (zeroCursor\<lparr>cu_domain := ''history'', cu_namespace := lh_namespace request,
                 cu_slot := lh_slot request, cu_position := ac_generation (last page)\<rparr>)
            else Inr []) (\<lambda>next'. Inr (page, next')))"
proof -
  have "sorted_wrt (\<lambda>a b. p < ac_generation a \<longrightarrow> p < ac_generation b) h"
    using assms(1) by (rule sorted_wrt_mono_rel [rotated]) (blast intro: order.strict_trans)
  note search = drop_sortSearch [OF this]
  let ?st = "sortSearch (length h) (\<lambda>i. p < ac_generation (h ! i))"
  let ?l = "nat (lh_limit request)"
  have rest: "drop ?st h = activationsAfter p h"
    using search(1) by (simp add: activationsAfter_def)
  then have len: "length (activationsAfter p h) = length h - ?st"
    by (metis length_drop)
  have "take (min (?st + ?l) (length h) - ?st) (activationsAfter p h) = take ?l (activationsAfter p h)"
    by (auto simp: len min_def)
  moreover have "min (?st + ?l) (length h) < length h \<longleftrightarrow> ?l < length (activationsAfter p h)"
    using len search(3) by auto
  ultimately show ?thesis
    by (simp add: historyPage_def Let_def rest)
qed

lemma ListActivationHistory_Inr:
  assumes inv: "slotsInv s" and ok: "ListActivationHistory sha256 env request s = (Inr r, s')"
  obtains position where
    "cursorPositionLocked sha256 (st_cursorKey s) (st_cursorKeyOK s) (lh_cursor request) ''history''
       (lh_namespace request) (lh_slot request) = Inr position"
    "s' = s" "0 < lh_limit request"
    "historyPage sha256 request position (slotHistory s (lh_namespace request) (lh_slot request)) s =
       Inr (lq_activations r, lq_nextCursor r)"
    "lh_cursor request \<noteq> [] \<Longrightarrow> slotHistory s (lh_namespace request) (lh_slot request) \<noteq> [] \<Longrightarrow>
       ac_generation (hd (slotHistory s (lh_namespace request) (lh_slot request))) \<le> position"
proof -
  have "0 < lh_limit request" if "isOk (NewListActivationHistoryRequest (lh_namespace request) (lh_slot request)
      (lh_cursor request) (lh_limit request))"
    using that by (auto simp: NewListActivationHistoryRequest_def isOk_iff split: if_splits)
  moreover have "a = lq_activations r \<and> c = lq_nextCursor r"
    if "NewListActivationHistoryResponse request a c = Inr r" for a c
    using that by (auto simp: NewListActivationHistoryResponse_def bindR_Inr_iff split: if_splits)
  moreover obtain position page c where
    "isOk (NewListActivationHistoryRequest (lh_namespace request) (lh_slot request) (lh_cursor request)
       (lh_limit request))"
    "cursorPositionLocked sha256 (st_cursorKey s) (st_cursorKeyOK s) (lh_cursor request) ''history''
       (lh_namespace request) (lh_slot request) = Inr position"
    "\<not> (lh_cursor request \<noteq> [] \<and> slotHistory s (lh_namespace request) (lh_slot request) \<noteq> [] \<and>
       position < ac_generation (hd (slotHistory s (lh_namespace request) (lh_slot request))))"
    "historyPage sha256 request position (slotHistory s (lh_namespace request) (lh_slot request)) s = Inr (page, c)"
    "NewListActivationHistoryResponse request page c = Inr r" "s' = s"
    using ok unfolding ListActivationHistory_def bindS_Inr_iff actions_Inr_iff requireS_Inr_iff
      slotHistory_def [symmetric] split_beta Inr_inject by (elim exE conjE) (rule that, assumption+, simp_all add: prod_eq_iff)
  ultimately show ?thesis
    using that [of position] by (metis linorder_not_less)
qed

lemma minted_position:
  assumes sha: "digests32 sha256" and "newCursorLocked sha256 key ok c = Inr t"
    and "unixRepresentable (cu_revisionPublishedAt c)"
  shows "t \<noteq> []"
    and "cursorPositionLocked sha256 key ok t (cu_domain c) (cu_namespace c) (cu_slot c) = Inr (cu_position c)"
proof -
  obtain i where i: "cursorDomainID (cu_domain c) = Some i" and ok: "ok" "wellFormedCursor c"
    and t: "t = base64EncodeToString (cursorPayload sha256 key i c @ hmac sha256 key (cursorPayload sha256 key i c))"
    using assms(2) by (auto simp: newCursorLocked_Inr_iff wellFormedCursor_def Let_def)
  show "cursorPositionLocked sha256 key ok t (cu_domain c) (cu_namespace c) (cu_slot c) = Inr (cu_position c)"
    using ok(1) i by (simp add: cursorPositionLocked_def cursorStateLocked_minted [OF sha ok(2) assms(3) i t])
  show "t \<noteq> []"
    unfolding t length_greater_0_conv [symmetric] length_base64
    by (simp add: cursorPayload_parts base64EncodedLen_def div_greater_zero_iff)
qed

section \<open>A store to run on\<close>

definition sampleRevisionID :: string where
  "sampleRevisionID = replicate 64 (CHR ''a'')"

definition storedRevision :: RevisionRecord where
  "storedRevision =
     \<lparr>rc_metadata = \<lparr>rm_namespace = ''acme'', rm_id = \<lparr>ri_digest = replicate 32 170, ri_valid = True\<rparr>,
        rm_publishedAt = 3\<rparr>,
      rc_artifact = [1], rc_provenance = zeroProvenance\<rparr>"

definition sampleSlotStore :: Store where
  "sampleSlotStore =
     (freshStore [1])\<lparr>st_effectiveTime := 4, st_revisions := nestedSet Map.empty ''acme'' sampleRevisionID storedRevision\<rparr>"

definition sampleActivate :: ActivateRequest where
  "sampleActivate =
     \<lparr>ar_namespace = ''acme'', ar_slot = ''doc'', ar_targetRevisionID = sampleRevisionID,
      ar_expectation = NewUnsetSlotExpectation\<rparr>"

lemma sampleSlotStore_inv:
  "eventsInv sampleHash sampleSlotStore" "slotsInv sampleSlotStore" "st_cursorKeyOK sampleSlotStore"
  "\<not> st_failNextEvent sampleSlotStore" "highWater sampleSlotStore n = 0"
  "st_reservations sampleSlotStore k = None" "nested (st_slots sampleSlotStore) n sl = None"
  by (simp_all add: sampleSlotStore_def eventsInv_iff slotsInv_def freshStore_def highWater_def nested_def)

lemma sampleActivate_valid:
  "isOk (NewActivateRequest (ar_namespace sampleActivate) (ar_slot sampleActivate)
     (ar_targetRevisionID sampleActivate) (ar_expectation sampleActivate))"
  by (simp add: sampleActivate_def NewActivateRequest_def sample_texts sampleRevisionID_def validRevisionIDString_def
      list_all_iff char_le_of_char validSlotExpectation_def NewUnsetSlotExpectation_def isOk_iff
      expectationIsUnset_def slotExpectationUnset_def)

lemma sampleActivate_checks: "activateChecks sampleActivate sampleSlotStore = Inr 1"
  using sampleSlotStore_inv(7) [of "''acme''" "''doc''"]
  by (simp add: activateChecks_def sampleActivate_def activationExpectationMatches_def
      NewUnsetSlotExpectation_def expectationIsUnset_def slotExpectationUnset_def)
    (simp add: sampleSlotStore_def nested_nestedSet)

lemma sampleActivate_runs:
  obtains a s' where "Activate sampleHash sampleEnv sampleActivate sampleSlotStore = (Inr a, s')"
  using Activate_live [OF sampleHash_digests sampleSlotStore_inv(1,3) sampleEnv_live _
      sampleSlotStore_inv(4) sampleActivate_valid]
  by (auto simp: sampleSlotStore_inv sampleActivate_checks isOk_iff)

definition sampleHistory :: ListActivationHistoryRequest where
  "sampleHistory = \<lparr>lh_namespace = ''acme'', lh_slot = ''doc'', lh_cursor = [], lh_limit = 10\<rparr>"

lemma sampleHistory_valid:
  "isOk (NewListActivationHistoryRequest (lh_namespace sampleHistory) (lh_slot sampleHistory)
     (lh_cursor sampleHistory) (lh_limit sampleHistory))"
  "validListActivationHistoryRequest sampleHistory"
  by (simp_all add: sampleHistory_def NewListActivationHistoryRequest_def validListActivationHistoryRequest_def
      sample_texts limit_defs isOk_iff validNamespace_def validIdentifier_def)

lemma sampleHistory_response:
  assumes "validActivation a" "ac_namespace a = ''acme''" "ac_slot a = ''doc''"
  shows "\<exists>r. NewListActivationHistoryResponse sampleHistory [a] [] = Inr r"
proof -
  have "length (ac_revisionID a) = 64"
    using assms(1) by (simp add: validActivation_iff validRevisionIDString_def)
  then have "isOk (addActivationHistoryPageCost (newBudget MaxAggregateOutputBytes) [a] [])"
    using assms(2,3)
    by (simp add: addActivationHistoryPageCost_def addActivationCost_def charge_simps cost_consts limit_defs isOk_iff
        budgetAdd_Inr_iff newBudget_def textBytes_def)
  then show ?thesis
    using assms sampleHistory_valid
    by (auto simp: NewListActivationHistoryResponse_def isOk_iff validActivationHistoryPage_def limit_defs sample_texts
        simp: sampleHistory_def)
qed

section \<open>Properties\<close>

text \<open>
  C23: an activation is atomic. Whatever the context, the clock and the event writer do, an Activate
  call that fails leaves revisions, slots, data and events as they were, and one that returns an
  activation has checked its expectation and its revision against the state it changed, gave the slot
  the next generation, touched no other slot, and appended exactly the matching event. Either way the
  reservation is gone and the invariants of the slots and of the event log hold again.
\<close>

theorem Activate_atomic:
  assumes "eventsInv sha256 s" "slotsInv s" and "Activate sha256 env request s = (r, s')"
  shows "eventsInv sha256 s' \<and> slotsInv s' \<and> st_reservations s' = st_reservations s \<and>
    (case r of Inl e \<Rightarrow> sameContents s s' | Inr a \<Rightarrow> activated request a s s')"
  using assms by (rule Activate_outcome)

theorem Activate_atomic_witness:
  "\<exists>a s'. Activate sampleHash sampleEnv sampleActivate sampleSlotStore = (Inr a, s') \<and> slotsInv s' \<and>
     activated sampleActivate a sampleSlotStore s' \<and> highWater s' ''acme'' = 1"
proof -
  obtain a s' where run: "Activate sampleHash sampleEnv sampleActivate sampleSlotStore = (Inr a, s')"
    by (rule sampleActivate_runs)
  have post: "slotsInv s'" "activated sampleActivate a sampleSlotStore s'"
    using Activate_atomic [OF sampleSlotStore_inv(1,2) run] by simp_all
  from post(2) have "highWater s' ''acme'' = 1"
    by (simp add: activated_def Let_def sampleSlotStore_inv(5)) (simp add: sampleActivate_def)
  with run post show ?thesis by blast
qed



text \<open>
  C25: read your own activation. After a successful Activate, Resolve on the slot returns that very
  activation, and every other slot resolves as before.
\<close>

theorem Activate_then_Resolve:
  assumes "eventsInv sha256 s" "slotsInv s" and "Activate sha256 env request s = (Inr a, s')"
    and "liveEnv env' t" and "isOk (NewResolveRequest (rr_namespace query) (rr_slot query))"
  shows "fst (Resolve env' query s') =
    (if rr_namespace query = ar_namespace request \<and> rr_slot query = ar_slot request then Inr a
     else fst (Resolve env' query s))"
proof -
  have post: "slotsInv s'" "activated request a s s'"
    using Activate_outcome [OF assms(1-3)] by simp_all
  have "nested (st_slots s') (rr_namespace query) (rr_slot query) =
    (if rr_namespace query = ar_namespace request \<and> rr_slot query = ar_slot request
     then Some (storeActivation a (nested (st_slots s) (ar_namespace request) (ar_slot request)))
     else nested (st_slots s) (rr_namespace query) (rr_slot query))"
    using post(2) unfolding activated_def Let_def by blast
  then show ?thesis
    unfolding Resolve_live [OF assms(2,4,5)] Resolve_live [OF post(1) assms(4,5)]
    by (simp add: storeActivation_def Let_def split: option.split)
qed

theorem Activate_then_Resolve_witness:
  "\<exists>a s'. Activate sampleHash sampleEnv sampleActivate sampleSlotStore = (Inr a, s') \<and>
     fst (Resolve sampleEnv \<lparr>rr_namespace = ''acme'', rr_slot = ''doc''\<rparr> s') = Inr a"
proof -
  obtain a s' where run: "Activate sampleHash sampleEnv sampleActivate sampleSlotStore = (Inr a, s')"
    by (rule sampleActivate_runs)
  have "isOk (NewResolveRequest (rr_namespace \<lparr>rr_namespace = ''acme'', rr_slot = ''doc''\<rparr>)
      (rr_slot \<lparr>rr_namespace = ''acme'', rr_slot = ''doc''\<rparr>))"
    by (simp add: NewResolveRequest_def sample_texts isOk_iff)
  from Activate_then_Resolve [OF sampleSlotStore_inv(1,2) run sampleEnv_live this] run show ?thesis
    by (auto simp: sampleActivate_def)
qed

text \<open>
  C26: ListActivationHistory pages through a slot's retained activations in order of generation. A
  page is the first limit activations after the cursor's position; it has a next cursor exactly when
  more follow, and the page after that cursor continues with exactly the activations left out.
\<close>

theorem ListActivationHistory_page:
  assumes "digests32 sha256" "slotsInv s" and "ListActivationHistory sha256 env request s = (Inr r, s')"
  shows "\<exists>position. let n = lh_namespace request; sl = lh_slot request; lim = nat (lh_limit request);
      rest = activationsAfter position (slotHistory s n sl) in
    s' = s \<and>
    cursorPositionLocked sha256 (st_cursorKey s) (st_cursorKeyOK s) (lh_cursor request) ''history'' n sl =
      Inr position \<and>
    lq_activations r = take lim rest \<and> (lq_nextCursor r \<noteq> [] \<longleftrightarrow> lim < length rest) \<and>
    (lq_nextCursor r \<noteq> [] \<longrightarrow> (\<exists>q. cursorPositionLocked sha256 (st_cursorKey s) (st_cursorKeyOK s)
       (lq_nextCursor r) ''history'' n sl = Inr q \<and>
       activationsAfter q (slotHistory s n sl) = drop lim rest))"
proof -
  obtain position where p:
    "cursorPositionLocked sha256 (st_cursorKey s) (st_cursorKeyOK s) (lh_cursor request) ''history''
       (lh_namespace request) (lh_slot request) = Inr position"
    "s' = s" "0 < lh_limit request"
    "historyPage sha256 request position (slotHistory s (lh_namespace request) (lh_slot request)) s =
       Inr (lq_activations r, lq_nextCursor r)"
    using ListActivationHistory_Inr [OF assms(2,3)] by metis
  let ?h = "slotHistory s (lh_namespace request) (lh_slot request)"
  let ?lim = "nat (lh_limit request)" and ?rest = "activationsAfter position ?h"
  note sorted = slotHistory_sorted [OF assms(2), of "lh_namespace request" "lh_slot request"]
  let ?c = "zeroCursor\<lparr>cu_domain := ''history'', cu_namespace := lh_namespace request,
    cu_slot := lh_slot request, cu_position := ac_generation (last (take ?lim ?rest))\<rparr>"
  have page: "lq_activations r = take ?lim ?rest"
    "if ?lim < length ?rest
     then newCursorLocked sha256 (st_cursorKey s) (st_cursorKeyOK s) ?c = Inr (lq_nextCursor r)
     else lq_nextCursor r = []"
    using p(4) unfolding historyPage_spec [OF sorted p(3)] Let_def by (auto simp: bindR_Inr_iff split: if_splits)
  have more: "lq_nextCursor r \<noteq> [] \<and> cursorPositionLocked sha256 (st_cursorKey s) (st_cursorKeyOK s)
       (lq_nextCursor r) ''history'' (lh_namespace request) (lh_slot request) =
       Inr (ac_generation (last (take ?lim ?rest)))" if "?lim < length ?rest"
  proof -
    have "newCursorLocked sha256 (st_cursorKey s) (st_cursorKeyOK s) ?c = Inr (lq_nextCursor r)"
      using page(2) that by simp
    moreover have "unixRepresentable (cu_revisionPublishedAt ?c)"
      by (simp add: zeroCursor_def unixRepresentable_def unixSeconds_def)
    ultimately show ?thesis
      using minted_position [OF assms(1), of _ _ ?c] by simp
  qed
  have "lq_nextCursor r \<noteq> [] \<longleftrightarrow> ?lim < length ?rest"
    using page(2) more by (cases "?lim < length ?rest") simp_all
  moreover have "activationsAfter (ac_generation (last (take ?lim ?rest))) ?h = drop ?lim ?rest"
    if "?lim < length ?rest"
    using filter_resume [OF sorted] that p(3) by (simp add: activationsAfter_def)
  ultimately show ?thesis
    unfolding Let_def using p(1,2) page(1) more by blast
qed

theorem ListActivationHistory_page_witness:
  "\<exists>s a r s'. slotsInv s \<and> slotHistory s ''acme'' ''doc'' = [a] \<and>
     ListActivationHistory sampleHash sampleEnv sampleHistory s = (Inr r, s') \<and> lq_activations r = [a]"
proof -
  obtain a s where run: "Activate sampleHash sampleEnv sampleActivate sampleSlotStore = (Inr a, s)"
    by (rule sampleActivate_runs)
  have post: "slotsInv s" "activated sampleActivate a sampleSlotStore s"
    using Activate_outcome [OF sampleSlotStore_inv(1,2) run] by simp_all
  then have h: "slotHistory s ''acme'' ''doc'' = [a]"
    by (simp add: activated_def Let_def slotHistory_def sampleSlotStore_inv(7))
      (simp add: sampleActivate_def storeActivation_def activationHistoryRetention_def)
  obtain ss where ss: "nested (st_slots s) ''acme'' ''doc'' = Some ss" "ss_history ss = [a]"
    using h by (auto simp: slotHistory_def split: option.splits)
  have "slotOK s ''acme'' ''doc'' ss" using post(1) ss(1) by (simp add: slotsInv_def)
  then have a: "validActivation a" "ac_namespace a = ''acme''" "ac_slot a = ''doc''"
    using ss(2) unfolding slotOK_def Let_def by auto
  have pos: "cursorPositionLocked sha256 key ok (lh_cursor sampleHistory) d n sl = Inr 0" for sha256 key ok d n sl
    by (simp add: cursorPositionLocked_def cursorStateLocked_def sampleHistory_def zeroCursor_def)
  have "historyPage sampleHash sampleHistory 0 [a] s = Inr ([a], [])"
    using a(1) by (subst historyPage_spec) (simp_all add: sampleHistory_def activationsAfter_def validActivation_iff
        word_gt_0 Let_def)
  then obtain r where run': "ListActivationHistory sampleHash sampleEnv sampleHistory s = (Inr r, s)"
    using sampleHistory_response [OF a]
    by (auto simp: ListActivationHistory_def liveEnv_simps [OF sampleEnv_live] pos slotHistory_def [symmetric]
        sampleHistory_valid) (simp add: sampleHistory_def h)
  have "lq_activations r = take (nat (lh_limit sampleHistory)) (activationsAfter 0
      (slotHistory s (lh_namespace sampleHistory) (lh_slot sampleHistory)))"
    using ListActivationHistory_page [OF sampleHash_digests post(1) run'] by (auto simp: Let_def pos)
  then have "lq_activations r = [a]"
    using a(1) by (simp add: sampleHistory_def h activationsAfter_def validActivation_iff word_gt_0)
  with post(1) h run' show ?thesis by blast
qed

end
