(* ===== verification/Memory_Revisions.thy ===== *)
theory Memory_Revisions
  imports Memory_Slots
begin

text \<open>
  store/memory/revisions.go: PutRevision, GetRevision and ListRevisions. PutRevision reserves the
  revision domain of its namespace and waits while another publication holds it; the wait is given
  by the list of its wake-ups, each with the store it finds. The lemmas give the invariant that ties
  the revision map to its publication order and what each operation does to it.
\<close>

section \<open>PutRevision\<close>

definition revisionReservationKey :: "string \<Rightarrow> commitReservationKey" where
  "revisionReservationKey namespace = \<lparr>ck_domain = ''revision'', ck_namespace = namespace, ck_name = []\<rparr>"

text \<open>How one attempt of the reservation loop ends.\<close>

datatype putAttempt =
    PutWaits
  | PutFound RevisionRecord
  | PutFails ErrorCategory
  | PutReserved commitReservation bool

definition putRevisionReserve :: "RevisionRecord \<Rightarrow> Store \<Rightarrow> putAttempt \<times> Store" where
  "putRevisionReserve write s =
     (let namespace = rm_namespace (rc_metadata write) in
      case reserveCommitLocked (revisionReservationKey namespace) s of
        (None, s) \<Rightarrow> (PutWaits, s)
      | (Some reservation, s) \<Rightarrow>
          (case nested (st_revisions s) namespace (rm_ID (rc_metadata write)) of
             Some existing \<Rightarrow> (PutFound existing, releaseCommitReservationLocked reservation s)
           | None \<Rightarrow>
               (case nextEventSequenceLocked namespace s of
                  Inl e \<Rightarrow> (PutFails e, releaseCommitReservationLocked reservation s)
                | Inr _ \<Rightarrow> (PutReserved reservation (st_failNextEvent s), s))))"

text \<open>
  A wait ends when the context is done, or when the holder releases: then the caller looks at its
  context and tries again on the store it finds. With no wake-up left the caller is still waiting.
\<close>

datatype Wake = WakeDone ContextState | WakeReleased ContextState Store

fun putRevisionAcquire :: "RevisionRecord \<Rightarrow> Wake list \<Rightarrow> Store \<Rightarrow> (putAttempt \<times> Store) option" where
  "putRevisionAcquire write wakes s =
     (case putRevisionReserve write s of
        (PutWaits, s) \<Rightarrow>
          (case wakes of
             [] \<Rightarrow> None
           | WakeDone c # _ \<Rightarrow> Some (PutFails (contextWaitError c), s)
           | WakeReleased c s' # rest \<Rightarrow>
               (case safeContextError c of
                  Inl e \<Rightarrow> Some (PutFails e, s')
                | Inr _ \<Rightarrow> putRevisionAcquire write rest s'))
      | attempt \<Rightarrow> Some attempt)"

definition putRevisionExisting ::
  "(bytes \<Rightarrow> bytes) \<Rightarrow> ('art, 'm) Dsl_scheme \<Rightarrow> RevisionRecord \<Rightarrow> RevisionRecord \<Rightarrow> PutRevisionResult result" where
  "putRevisionExisting sha256 dsl write existing =
     (if rc_artifact existing \<noteq> rc_artifact write then Inl ErrorIntegrity
      else NewPutRevisionResult sha256 dsl existing False)"

definition putRevisionCommit ::
  "(bytes \<Rightarrow> bytes) \<Rightarrow> ('art, 'm) Dsl_scheme \<Rightarrow> bool \<Rightarrow> ContextState \<Rightarrow> RevisionRecord \<Rightarrow> PutRevisionResult
     \<Rightarrow> commitReservation \<Rightarrow> Time \<Rightarrow> (Store, PutRevisionResult) action" where
  "putRevisionCommit sha256 dsl done' err record createdResult reservation t =
     (let namespace = rm_namespace (rc_metadata record); i = rm_ID (rc_metadata record) in
      bindS (readS (\<lambda>s. requireR (ownsCommitReservationLocked reservation s) ErrorInternal))
      (\<lambda>_. bindS (requireS (\<not> done') (contextWaitError err))
      (\<lambda>_. bindS (readS (\<lambda>s. Inr (nested (st_revisions s) namespace i)))
      (\<lambda>existing. case existing of
          Some existing \<Rightarrow> liftS (putRevisionExisting sha256 dsl record existing)
        | None \<Rightarrow>
            bindS (readS (nextEventSequenceLocked namespace))
            (\<lambda>_. bindS (\<lambda>s. case effectiveTimeLocked t s of (t, s) \<Rightarrow> (Inr t, s))
            (\<lambda>t. bindS (readS (newEventLocked sha256
                \<lparr>ev_namespace = namespace, ev_cursor = [], ev_kind = StateEventRevisionPublished,
                 ev_revisionID = i, ev_slot = [], ev_slotGeneration = 0, ev_dataGeneration = 0,
                 ev_occurredAt = 0\<rparr> t))
            (\<lambda>event s.
               (Inr createdResult,
                appendEventLocked event t
                  (s\<lparr>st_revisions := nestedSet (st_revisions s) namespace i record,
                    st_revisionOrder := (st_revisionOrder s)
                      (namespace := revisionSet (st_revisionOrder s namespace) record)\<rparr>)))))))))"

definition PutRevision ::
  "(bytes \<Rightarrow> bytes) \<Rightarrow> ('art, 'm) Dsl_scheme \<Rightarrow> Env \<Rightarrow> Wake list \<Rightarrow> RevisionRecord \<Rightarrow> Store
     \<Rightarrow> (PutRevisionResult result \<times> Store) option" where
  "PutRevision sha256 dsl env wakes write s =
     (case bindR (safeContextError (en_err env 0))
        (\<lambda>_. bindR (requireR (validRevisionWrite sha256 dsl write) ErrorInvalidArgument)
        (\<lambda>_. bindR (NewRevisionRecordFromWrite sha256 dsl write)
        (\<lambda>record. bindR (NewPutRevisionResult sha256 dsl record True)
        (\<lambda>createdResult. bindR (safeContextError (en_err env 1))
        (\<lambda>_. Inr (record, createdResult)))))) of
        Inl e \<Rightarrow> Some (Inl e, s)
      | Inr (record, createdResult) \<Rightarrow>
          map_option (\<lambda>(attempt, s).
            case attempt of
              PutWaits \<Rightarrow> (Inl ErrorInternal, s)
            | PutFound existing \<Rightarrow>
                (bindR (safeContextError (en_err env 2))
                   (\<lambda>_. putRevisionExisting sha256 dsl write existing), s)
            | PutFails e \<Rightarrow> (Inl e, s)
            | PutReserved reservation failEvent \<Rightarrow>
                deferS
                  (bindS (commitPreparation env reservation failEvent)
                     (putRevisionCommit sha256 dsl (en_done env 2) (en_err env 4) record createdResult reservation))
                  (releaseCommitReservationLocked reservation) s)
            (putRevisionAcquire write wakes s))"

section \<open>GetRevision and ListRevisions\<close>

definition GetRevision :: "Env \<Rightarrow> GetRevisionRequest \<Rightarrow> (Store, RevisionRecord) action" where
  "GetRevision env request =
     bindS (liftS (safeContextError (en_err env 0)))
     (\<lambda>_. bindS (requireS (isOk (NewGetRevisionRequest (gr_namespace request) (gr_revisionID request))) ErrorInvalidArgument)
     (\<lambda>_. bindS (liftS (safeContextError (en_err env 1)))
     (\<lambda>_. bindS (readS (\<lambda>s. Inr (nested (st_revisions s) (gr_namespace request) (gr_revisionID request))))
     (\<lambda>record. bindS (liftS (safeContextError (en_err env 2)))
     (\<lambda>_. case record of None \<Rightarrow> failS ErrorNotFound | Some record \<Rightarrow> returnS record)))))"

definition afterKey :: "ListRevisionsRequest \<Rightarrow> cursorState \<Rightarrow> revisionKey option" where
  "afterKey request cursor =
     (if lr_cursor request \<noteq> []
      then Some \<lparr>rk_publishedAt = cu_revisionPublishedAt cursor, rk_id = cu_revisionID cursor\<rparr> else None)"

definition revisionsPage ::
  "(bytes \<Rightarrow> bytes) \<Rightarrow> ListRevisionsRequest \<Rightarrow> cursorState \<Rightarrow> revisionNode \<Rightarrow> Store
     \<Rightarrow> (RevisionMetadata list \<times> string) result" where
  "revisionsPage sha256 request cursor root s =
     (let page = revisionPage root (afterKey request cursor) (lr_limit request)
            (\<lambda>record metadata. (True, metadata @ [rc_metadata record])) [];
          metadata = pg_state page
      in bindR (if pg_more page
                then newCursorLocked sha256 (st_cursorKey s) (st_cursorKeyOK s)
                  (zeroCursor\<lparr>cu_domain := ''revision'', cu_namespace := lr_namespace request,
                     cu_revisionPublishedAt := rm_publishedAt (last metadata),
                     cu_revisionID := rm_ID (last metadata)\<rparr>)
                else Inr [])
           (\<lambda>next'. Inr (metadata, next')))"

definition ListRevisions ::
  "(bytes \<Rightarrow> bytes) \<Rightarrow> Env \<Rightarrow> ListRevisionsRequest \<Rightarrow> (Store, ListRevisionsResponse) action" where
  "ListRevisions sha256 env request =
     bindS (liftS (safeContextError (en_err env 0)))
     (\<lambda>_. bindS (requireS (isOk (NewListRevisionsRequest (lr_namespace request) (lr_cursor request) (lr_limit request)))
                 ErrorInvalidArgument)
     (\<lambda>_. bindS (readS (\<lambda>s. cursorStateLocked sha256 (st_cursorKey s) (st_cursorKeyOK s)
                        (lr_cursor request) ''revision'' (lr_namespace request) []))
     (\<lambda>cursor. bindS (liftS (safeContextError (en_err env 1)))
     (\<lambda>_. bindS (readS (\<lambda>s. Inr (st_revisionOrder s (lr_namespace request))))
     (\<lambda>root. bindS (readS (revisionsPage sha256 request cursor root))
     (\<lambda>(metadata, next'). bindS (liftS (safeContextError (en_err env 2)))
     (\<lambda>_. liftS (NewListRevisionsResponse request metadata next'))))))))"

section \<open>Appending the event of a commit\<close>

lemma commitEvent_effect:
  assumes inv: "eventsInv sha256 s" and eff: "effectiveTimeLocked t s = (t1, s1)"
    and ev: "newEventLocked sha256 input t1 s1 = Inr e"
    and upd: "st_events s2 = st_events s1" "st_effectiveTime s2 = st_effectiveTime s1"
      "st_cursorKey s2 = st_cursorKey s1" "st_cursorKeyOK s2 = st_cursorKeyOK s1"
  shows "eventsInv sha256 (appendEventLocked e t1 s2)"
    and "highWater (appendEventLocked e t1 s2) m = highWater s m + (if m = ev_namespace input then 1 else 0)"
    and "eventLog (appendEventLocked e t1 s2) (ev_namespace input) \<noteq> []"
    and "er_value (last (eventLog (appendEventLocked e t1 s2) (ev_namespace input))) =
      input\<lparr>ev_cursor := ev_cursor (er_value (last (eventLog (appendEventLocked e t1 s2) (ev_namespace input)))),
        ev_occurredAt := t1\<rparr>"
proof -
  note eff' = effectiveTimeLocked_spec [OF eff]
  have same: "sameContents s s1" using eff'(2,3) by (simp add: sameContents_def)
  have inv1: "eventsInv sha256 s1" by (rule sameContents_events [OF same inv])
  have inv2: "eventsInv sha256 s2" by (rule eventsInv_frame [OF inv1 upd(1) _ upd(3,4)]) (simp add: upd(2))
  note spec = newEventLocked_spec [OF inv1 ev [unfolded eff'(1)]]
  have hw: "highWater s2 = highWater s"
    using upd(1) sameContents_reads(2) [OF same] by (simp add: highWater_def fun_eq_iff)
  have ok: "eventOK sha256 s2 (ev_namespace input) e"
    by (rule eventOK_frame [OF _ upd(3,4) spec(1)]) (simp add: upd(2))
  have seq: "unat (er_sequence e) = highWater s2 (ev_namespace input) + 1"
    using spec(2) sameContents_reads(2) [OF same] hw by simp
  have time: "ev_occurredAt (er_value e) = st_effectiveTime s2" using spec(3) upd(2) by simp
  have t1: "t1 = st_effectiveTime s2" using eff'(1) upd(2) by simp
  note app = appendEventLocked_inv [OF inv2 ok seq time, of t1]
  show "eventsInv sha256 (appendEventLocked e t1 s2)" by (rule app(1))
  show "highWater (appendEventLocked e t1 s2) m = highWater s m + (if m = ev_namespace input then 1 else 0)"
    using app(2) hw by simp
  note last = appendEventLocked_last [OF inv2 ok seq time]
  show "eventLog (appendEventLocked e t1 s2) (ev_namespace input) \<noteq> []"
    using last unfolding t1 by simp
  have "last (eventLog (appendEventLocked e t1 s2) (ev_namespace input)) = e"
    using last unfolding t1 by simp
  then show "er_value (last (eventLog (appendEventLocked e t1 s2) (ev_namespace input))) =
      input\<lparr>ev_cursor := ev_cursor (er_value (last (eventLog (appendEventLocked e t1 s2) (ev_namespace input)))),
        ev_occurredAt := t1\<rparr>"
    using spec(4) eff'(1) by (simp only:)
qed

section \<open>The invariant of the revisions\<close>

text \<open>
  Every stored revision is a verified record kept under its own namespace and identifier, and the
  publication order of a namespace is a balanced search tree of exactly its stored revisions.
\<close>

definition revisionsInv :: "(bytes \<Rightarrow> bytes) \<Rightarrow> ('art, 'm) Dsl_scheme \<Rightarrow> Store \<Rightarrow> bool" where
  "revisionsInv sha256 dsl s \<longleftrightarrow>
     (\<forall>n i r. nested (st_revisions s) n i = Some r \<longrightarrow>
        validRevisionRecord sha256 dsl r \<and> rm_namespace (rc_metadata r) = n \<and> rm_ID (rc_metadata r) = i) \<and>
     (\<forall>n. avlInv compareRevisionKey (st_revisionOrder s n) \<and>
        set (inorder (st_revisionOrder s n)) =
          {(revisionKeyFor r, r) | r i. nested (st_revisions s) n i = Some r})"

lemma revisionsInv_frame:
  "revisionsInv sha256 dsl s \<Longrightarrow> st_revisions s' = st_revisions s \<Longrightarrow> st_revisionOrder s' = st_revisionOrder s \<Longrightarrow>
   revisionsInv sha256 dsl s'"
  by (simp add: revisionsInv_def)

lemma sameContents_revisions: "sameContents s s' \<Longrightarrow> revisionsInv sha256 dsl s \<Longrightarrow> revisionsInv sha256 dsl s'"
  by (rule revisionsInv_frame) (simp_all add: sameContents_def)

lemma revisionSet_inorder:
  assumes "avlInv compareRevisionKey t" "\<forall>p \<in> set (inorder t). fst p \<noteq> revisionKeyFor r"
  shows "avlInv compareRevisionKey (revisionSet t r)"
    and "set (inorder (revisionSet t r)) = insert (revisionKeyFor r, r) (set (inorder t))"
proof -
  show "avlInv compareRevisionKey (revisionSet t r)"
    unfolding revisionSet_def by (rule revisionIndex.avlInv_avlSet [OF assms(1)])
  have "inorder (revisionSet t r) = listSet compareRevisionKey (revisionKeyFor r) r (inorder t)"
    using assms(1) by (simp add: revisionSet_def revisionIndex.inorder_avlSet avlInv_def)
  then show "set (inorder (revisionSet t r)) = insert (revisionKeyFor r, r) (set (inorder t))"
    using assms(2) by (auto simp: revisionIndex.set_listSet)
qed

lemma revisionsInv_insert:
  assumes inv: "revisionsInv sha256 dsl s" and r: "validRevisionRecord sha256 dsl r"
    and n: "n = rm_namespace (rc_metadata r)" and i: "i = rm_ID (rc_metadata r)"
    and new: "nested (st_revisions s) n i = None"
    and s': "st_revisions s' = nestedSet (st_revisions s) n i r"
      "st_revisionOrder s' = (st_revisionOrder s)(n := revisionSet (st_revisionOrder s n) r)"
  shows "revisionsInv sha256 dsl s'"
proof -
  have old: "avlInv compareRevisionKey (st_revisionOrder s m)"
    "set (inorder (st_revisionOrder s m)) = {(revisionKeyFor r, r) | r i. nested (st_revisions s) m i = Some r}" for m
    using inv by (simp_all add: revisionsInv_def)
  have fresh: "\<forall>p \<in> set (inorder (st_revisionOrder s n)). fst p \<noteq> revisionKeyFor r"
  proof
    fix p assume "p \<in> set (inorder (st_revisionOrder s n))"
    then obtain q j where q: "p = (revisionKeyFor q, q)" "nested (st_revisions s) n j = Some q"
      using old(2) [of n] by auto
    then have "rm_ID (rc_metadata q) = j" using inv by (simp add: revisionsInv_def)
    with q new i show "fst p \<noteq> revisionKeyFor r" by (auto simp: revisionKeyFor_def)
  qed
  note set' = revisionSet_inorder [OF old(1) fresh]
  have "{(revisionKeyFor q, q) | q j. nested (st_revisions s') n j = Some q} =
      insert (revisionKeyFor r, r) {(revisionKeyFor q, q) | q j. nested (st_revisions s) n j = Some q}"
    using new by (auto simp: s'(1) nested_nestedSet split: if_splits) (metis option.distinct(1))
  moreover have "{(revisionKeyFor q, q) | q j. nested (st_revisions s') m j = Some q} =
      {(revisionKeyFor q, q) | q j. nested (st_revisions s) m j = Some q}" if "m \<noteq> n" for m
    using that by (simp add: s'(1) nested_nestedSet)
  ultimately have "\<forall>m. avlInv compareRevisionKey (st_revisionOrder s' m) \<and> set (inorder (st_revisionOrder s' m)) =
      {(revisionKeyFor q, q) | q j. nested (st_revisions s') m j = Some q}"
    using set' old by (simp add: s'(2))
  moreover have "\<forall>m j q. nested (st_revisions s') m j = Some q \<longrightarrow>
      validRevisionRecord sha256 dsl q \<and> rm_namespace (rc_metadata q) = m \<and> rm_ID (rc_metadata q) = j"
    using inv r n i by (simp add: s'(1) nested_nestedSet revisionsInv_def)
  ultimately show ?thesis unfolding revisionsInv_def by blast
qed

section \<open>What PutRevision does\<close>

definition revisionEvent :: "RevisionRecord \<Rightarrow> StateEvent" where
  "revisionEvent r =
     \<lparr>ev_namespace = rm_namespace (rc_metadata r), ev_cursor = [], ev_kind = StateEventRevisionPublished,
      ev_revisionID = rm_ID (rc_metadata r), ev_slot = [], ev_slotGeneration = 0, ev_dataGeneration = 0,
      ev_occurredAt = 0\<rparr>"

text \<open>The record was not stored, now it is, nothing else changed, and one event says so.\<close>

definition published :: "RevisionRecord \<Rightarrow> Store \<Rightarrow> Store \<Rightarrow> bool" where
  "published r s s' \<longleftrightarrow>
     (let n = rm_namespace (rc_metadata r); i = rm_ID (rc_metadata r) in
      nested (st_revisions s) n i = None \<and>
      (\<forall>m j. nested (st_revisions s') m j = (if m = n \<and> j = i then Some r else nested (st_revisions s) m j)) \<and>
      st_slots s' = st_slots s \<and> st_data s' = st_data s \<and> st_effectiveTime s \<le> st_effectiveTime s' \<and>
      (\<forall>m. highWater s' m = highWater s m + (if m = n then 1 else 0)) \<and>
      eventLog s' n \<noteq> [] \<and>
      er_value (last (eventLog s' n)) =
        (revisionEvent r)\<lparr>ev_cursor := ev_cursor (er_value (last (eventLog s' n))),
          ev_occurredAt := st_effectiveTime s'\<rparr>)"

lemma putRevisionReserve_cases:
  assumes "putRevisionReserve write s = (a, s')"
  obtains (waits) "a = PutWaits" "s' = s" "st_reservations s (revisionReservationKey (rm_namespace (rc_metadata write))) \<noteq> None"
  | (found) existing where "a = PutFound existing" "s' = s\<lparr>st_nextRef := st_nextRef s + 1\<rparr>"
      "nested (st_revisions s) (rm_namespace (rc_metadata write)) (rm_ID (rc_metadata write)) = Some existing"
  | (fails) e where "a = PutFails e" "s' = s\<lparr>st_nextRef := st_nextRef s + 1\<rparr>"
      "nextEventSequenceLocked (rm_namespace (rc_metadata write)) s = Inl e"
  | (reserves) r where "a = PutReserved r (st_failNextEvent s)"
      "r = reserved (revisionReservationKey (rm_namespace (rc_metadata write))) s"
      "st_reservations s (revisionReservationKey (rm_namespace (rc_metadata write))) = None"
      "s' = s\<lparr>st_reservations := (st_reservations s)(revisionReservationKey (rm_namespace (rc_metadata write)) \<mapsto> r),
        st_nextRef := st_nextRef s + 1\<rparr>"
      "nested (st_revisions s) (rm_namespace (rc_metadata write)) (rm_ID (rc_metadata write)) = None"
proof -
  let ?k = "revisionReservationKey (rm_namespace (rc_metadata write))"
  have seq: "nextEventSequenceLocked n (s\<lparr>st_reservations := m, st_nextRef := q\<rparr>) = nextEventSequenceLocked n s" for n m q
    by (simp add: nextEventSequenceLocked_def)
  have rel: "releaseCommitReservationLocked (reserved ?k s)
      (s\<lparr>st_reservations := (st_reservations s)(?k \<mapsto> reserved ?k s), st_nextRef := st_nextRef s + 1\<rparr>) =
      s\<lparr>st_nextRef := st_nextRef s + 1\<rparr>" if "st_reservations s ?k = None"
    using that by (simp add: reserved_release)
  show thesis
  proof (cases "st_reservations s ?k = None")
    case True
    note rel = rel [OF True]
    have res: "reserveCommitLocked ?k s = (Some (reserved ?k s),
        s\<lparr>st_reservations := (st_reservations s)(?k \<mapsto> reserved ?k s), st_nextRef := st_nextRef s + 1\<rparr>)"
      using True by (simp add: reserveCommitLocked_def reserved_def Let_def)
    note run = assms [unfolded putRevisionReserve_def Let_def res prod.case option.case rel]
    show thesis
    proof (cases "nested (st_revisions s) (rm_namespace (rc_metadata write)) (rm_ID (rc_metadata write))")
      case (Some existing)
      with run show thesis by (intro that(2) [of existing]) simp_all
    next
      case None
      with run that(3) that(4) [OF _ refl True _ None] show thesis
        by (auto simp: seq split: sum.splits)
    qed
  qed (use assms that(1) in \<open>auto simp: putRevisionReserve_def reserveCommitLocked_def\<close>)
qed

lemma putRevisionAcquire_Some:
  assumes "putRevisionAcquire write wakes s = Some (a, s')"
  obtains s0 where "s0 = s \<or> (\<exists>c. WakeReleased c s0 \<in> set wakes)"
    "putRevisionReserve write s0 = (a, s') \<or> (\<exists>e. a = PutFails e \<and> s' = s0)" "a \<noteq> PutWaits"
  using assms
proof (induction wakes arbitrary: s thesis)
  case Nil
  then show ?case
    by (auto split: prod.splits putAttempt.splits dest: spec [of _ s])
next
  case (Cons w wakes)
  obtain b s1 where b: "putRevisionReserve write s = (b, s1)" by fastforce
  show ?case
  proof (cases "b = PutWaits")
    case False
    with b Cons.prems(2) have "(a, s') = (b, s1)" by (cases b) simp_all
    with b False show ?thesis by (intro Cons.prems(1) [of s]) simp_all
  next
    case True
    then have s1: "s1 = s" using b by (auto elim: putRevisionReserve_cases)
    show ?thesis
    proof (cases w)
      case (WakeDone c)
      with b True Cons.prems(2) s1 show ?thesis by (intro Cons.prems(1) [of s]) auto
    next
      case (WakeReleased c s2)
      show ?thesis
      proof (cases "safeContextError c")
        case (Inl e)
        with b True Cons.prems(2) WakeReleased show ?thesis by (intro Cons.prems(1) [of s2]) auto
      next
        case (Inr u)
        with b True Cons.prems(2) WakeReleased have "putRevisionAcquire write wakes s2 = Some (a, s')" by simp
        then show ?thesis
          by (rule Cons.IH [rotated]) (use WakeReleased Cons.prems(1) in auto)
      qed
    qed
  qed
qed

lemma putRevisionCommit_cases:
  assumes "putRevisionCommit sha256 dsl d err r created q t s = (x, s')"
  obtains (fails) e where "x = Inl e" "sameContents s s'" "st_reservations s' = st_reservations s"
  | (exists) existing where "s' = s" "x = putRevisionExisting sha256 dsl r existing"
      "nested (st_revisions s) (rm_namespace (rc_metadata r)) (rm_ID (rc_metadata r)) = Some existing"
  | (commits) t1 s1 e where "x = Inr created" "effectiveTimeLocked t s = (t1, s1)"
      "nested (st_revisions s) (rm_namespace (rc_metadata r)) (rm_ID (rc_metadata r)) = None"
      "newEventLocked sha256 (revisionEvent r) t1 s1 = Inr e"
      "s' = appendEventLocked e t1
        (s1\<lparr>st_revisions := nestedSet (st_revisions s1) (rm_namespace (rc_metadata r)) (rm_ID (rc_metadata r)) r,
          st_revisionOrder := (st_revisionOrder s1)(rm_namespace (rc_metadata r) :=
            revisionSet (st_revisionOrder s1 (rm_namespace (rc_metadata r))) r)\<rparr>)"
proof -
  let ?n = "rm_namespace (rc_metadata r)" and ?i = "rm_ID (rc_metadata r)"
  obtain t1 s1 where eff: "effectiveTimeLocked t s = (t1, s1)"
    by (cases "effectiveTimeLocked t s")
  then have s1: "sameContents s s1" "st_reservations s1 = st_reservations s"
    by (auto simp: effectiveTimeLocked_def sameContents_def split: if_splits)
  show thesis
  proof (cases "ownsCommitReservationLocked q s \<and> \<not> d")
    case False
    with assms fails show thesis
      by (auto simp: putRevisionCommit_def Let_def requireR_def split: if_splits)
  next
    case own: True
    show thesis
    proof (cases "nested (st_revisions s) ?n ?i")
      case (Some existing)
      with assms own show thesis
        by (intro exists) (auto simp: putRevisionCommit_def Let_def requireR_def)
    next
      case None
      show thesis
      proof (cases "nextEventSequenceLocked ?n s")
        case (Inl e)
        with assms own None fails show thesis
          by (auto simp: putRevisionCommit_def Let_def requireR_def)
      next
        case (Inr sq)
        note run = assms [unfolded putRevisionCommit_def Let_def revisionEvent_def [symmetric]]
        show thesis
        proof (cases "newEventLocked sha256 (revisionEvent r) t1 s1")
          case (Inl e)
          with run own None Inr eff s1 fails [of e] show thesis
            by (simp add: requireR_def bindS_def [of "\<lambda>s. case effectiveTimeLocked t s of (t, s) \<Rightarrow> (Inr t, s)"])
        next
          case (Inr e)
          with run own None \<open>nextEventSequenceLocked ?n s = Inr sq\<close> eff commits [OF _ eff None Inr] show thesis
            by (simp add: requireR_def bindS_def [of "\<lambda>s. case effectiveTimeLocked t s of (t, s) \<Rightarrow> (Inr t, s)"])
        qed
      qed
    qed
  qed
qed

lemma putRevisionCommit_published:
  assumes inv: "eventsInv sha256 s" "revisionsInv sha256 dsl s" "slotsInv s"
    and r: "validRevisionRecord sha256 dsl r"
    and new: "nested (st_revisions s) (rm_namespace (rc_metadata r)) (rm_ID (rc_metadata r)) = None"
    and eff: "effectiveTimeLocked t s = (t1, s1)" and ev: "newEventLocked sha256 (revisionEvent r) t1 s1 = Inr e"
    and s': "s' = appendEventLocked e t1
        (s1\<lparr>st_revisions := nestedSet (st_revisions s1) (rm_namespace (rc_metadata r)) (rm_ID (rc_metadata r)) r,
          st_revisionOrder := (st_revisionOrder s1)(rm_namespace (rc_metadata r) :=
            revisionSet (st_revisionOrder s1 (rm_namespace (rc_metadata r))) r)\<rparr>)"
  shows "published r s s'" "eventsInv sha256 s'" "revisionsInv sha256 dsl s'" "slotsInv s'"
    "st_reservations s' = st_reservations s"
proof -
  let ?n = "rm_namespace (rc_metadata r)" and ?i = "rm_ID (rc_metadata r)"
  note eff' = effectiveTimeLocked_spec [OF eff]
  have s1: "st_revisions s1 = st_revisions s" "st_revisionOrder s1 = st_revisionOrder s" "st_slots s1 = st_slots s"
    "st_data s1 = st_data s" "st_reservations s1 = st_reservations s"
    using eff'(3) by simp_all
  have n: "ev_namespace (revisionEvent r) = ?n" by (simp add: revisionEvent_def)
  note ce = commitEvent_effect [OF inv(1) eff ev, of "s1\<lparr>st_revisions := nestedSet (st_revisions s1) ?n ?i r,
          st_revisionOrder := (st_revisionOrder s1)(?n := revisionSet (st_revisionOrder s1 ?n) r)\<rparr>",
        folded s', unfolded n, simplified]
  have time: "st_effectiveTime s' = t1" using eff'(1) by (simp add: s')
  show "published r s s'"
    unfolding published_def Let_def time
    using new ce(2,3) eff'(1,2) by (intro conjI ce(4)) (simp_all add: s' s1 nested_nestedSet)
  show "eventsInv sha256 s'" by (rule ce(1))
  show "revisionsInv sha256 dsl s'"
    by (rule revisionsInv_insert [OF inv(2) r refl refl new]) (simp_all add: s' s1)
  show "slotsInv s'"
    by (rule slotsInv_frame [OF inv(3)]) (use eff'(1,2) in \<open>simp_all add: s' s1 nested_nestedSet time\<close>)
  show "st_reservations s' = st_reservations s" by (simp add: s' s1)
qed

text \<open>
  A call ends either without touching the contents, having found the revision stored with the same
  artifact, or having published it.
\<close>

definition putOutcome ::
  "RevisionRecord \<Rightarrow> PutRevisionResult result \<Rightarrow> Store \<Rightarrow> Store \<Rightarrow> bool" where
  "putOutcome write x s s' \<longleftrightarrow>
     (case x of
        Inl e \<Rightarrow> sameContents s s'
      | Inr result \<Rightarrow>
          (if pp_created result then pp_record result = write \<and> published write s s'
           else sameContents s s' \<and>
             nested (st_revisions s) (rm_namespace (rc_metadata write)) (rm_ID (rc_metadata write)) =
               Some (pp_record result) \<and>
             rc_artifact (pp_record result) = rc_artifact write))"

lemma putOutcome_Inl [simp]: "putOutcome w (Inl e) s s' \<longleftrightarrow> sameContents s s'"
  by (simp add: putOutcome_def)

lemma putRevisionExisting_outcome:
  assumes "nested (st_revisions s) (rm_namespace (rc_metadata w)) (rm_ID (rc_metadata w)) = Some existing"
    "sameContents s s'"
  shows "putOutcome w (putRevisionExisting sha256 dsl w existing) s s'"
  using assms by (auto simp: putOutcome_def putRevisionExisting_def NewPutRevisionResult_def)

lemma sameContents_putOutcome:
  assumes "sameContents s s1" "putOutcome w x s1 s2" "s' = s2\<lparr>st_reservations := m\<rparr>"
  shows "putOutcome w x s s'"
proof -
  have eqs: "st_slots s1 = st_slots s" "st_revisions s1 = st_revisions s" "st_data s1 = st_data s"
    "highWater s1 = highWater s" and le: "st_effectiveTime s \<le> st_effectiveTime s1"
    using assms(1) sameContents_reads(2) by (auto simp: sameContents_def)
  have fields: "st_revisions s' = st_revisions s2" "st_slots s' = st_slots s2" "st_data s' = st_data s2"
    "st_effectiveTime s' = st_effectiveTime s2" "highWater s' = highWater s2" "eventLog s' = eventLog s2"
    by (simp_all add: assms(3) highWater_def eventLog_def fun_eq_iff)
  have "published w s s'" if "published w s1 s2"
    using that le unfolding published_def Let_def eqs fields by (blast intro: order_trans)
  moreover have "sameContents s s'" if "sameContents s1 s2"
    using that assms(1,3) sameContents_trans by simp
  moreover have "st_revisions s1 = st_revisions s" using assms(1) by (simp add: sameContents_def)
  ultimately show ?thesis
    using assms(2) unfolding putOutcome_def by (simp split: sum.splits if_splits)
qed

lemma putReserved_outcome:
  assumes inv: "eventsInv sha256 s" "revisionsInv sha256 dsl s" "slotsInv s"
    and w: "validRevisionRecord sha256 dsl w" and created: "created = \<lparr>pp_record = w, pp_created = True\<rparr>"
    and q: "q = reserved (revisionReservationKey (rm_namespace (rc_metadata w))) s"
      "st_reservations s (revisionReservationKey (rm_namespace (rc_metadata w))) = None"
    and s1: "s1 = s\<lparr>st_reservations := (st_reservations s)(revisionReservationKey (rm_namespace (rc_metadata w)) \<mapsto> q),
        st_nextRef := st_nextRef s + 1\<rparr>"
    and run: "deferS (bindS (commitPreparation env q f) (putRevisionCommit sha256 dsl d err w created q))
      (releaseCommitReservationLocked q) s1 = (x, s')"
  shows "eventsInv sha256 s' \<and> revisionsInv sha256 dsl s' \<and> slotsInv s' \<and>
    st_reservations s' = st_reservations s \<and> putOutcome w x s s'"
proof -
  let ?k = "revisionReservationKey (rm_namespace (rc_metadata w))"
  obtain y s2 where prep: "commitPreparation env q f s1 = (y, s2)" by fastforce
  have s01: "sameContents s s1" by (simp add: s1)
  have s02: "sameContents s s2" "st_reservations s2 = (st_reservations s)(?k \<mapsto> q)"
    using commitPreparation_contents [OF prep] sameContents_trans [OF s01] by (simp_all add: s1)
  have inv2: "eventsInv sha256 s2" "revisionsInv sha256 dsl s2" "slotsInv s2"
    using sameContents_events [OF s02(1) inv(1)] sameContents_revisions [OF s02(1) inv(2)]
      sameContents_slots [OF s02(1) inv(3)] by simp_all
  obtain s3 where s3: "putOutcome w x s2 s3" "eventsInv sha256 s3" "revisionsInv sha256 dsl s3" "slotsInv s3"
      "st_reservations s3 = (st_reservations s)(?k \<mapsto> q)" "s' = releaseCommitReservationLocked q s3"
  proof (cases y)
    case (Inl e)
    with run prep have "x = Inl e" "s' = releaseCommitReservationLocked q s2"
      by (simp_all add: deferS_def bindS_def)
    then show thesis using that [of s2] inv2 s02(2) by (simp add: putOutcome_def)
  next
    case (Inr t)
    obtain s3 where c: "putRevisionCommit sha256 dsl d err w created q t s2 = (x, s3)"
        "s' = releaseCommitReservationLocked q s3"
      using run prep Inr by (cases "putRevisionCommit sha256 dsl d err w created q t s2") (simp add: deferS_def bindS_def)
    from c(1) show thesis
    proof (cases rule: putRevisionCommit_cases)
      case (fails e)
      then show thesis
        using that [of s3] c(2) s02(2) sameContents_events [OF fails(2) inv2(1)]
          sameContents_revisions [OF fails(2) inv2(2)] sameContents_slots [OF fails(2) inv2(3)]
        by (simp add: putOutcome_def)
    next
      case (exists existing)
      then show thesis
        using that [of s3] c(2) s02(2) inv2 putRevisionExisting_outcome [OF exists(3) sameContents_refl, of sha256 dsl] by simp
    next
      case (commits t1 s4 e)
      note pub = putRevisionCommit_published [OF inv2 w commits(3,2,4,5)]
      show thesis
        using that [of s3] c(2) s02(2) pub commits(1) by (simp add: putOutcome_def created)
    qed
  qed
  have s': "s' = s3\<lparr>st_reservations := st_reservations s\<rparr>"
    unfolding s3(6) q(1) by (rule reserved_release [OF q(2)]) (use s3(5) q(1) in simp)
  have "sameContents s3 s'" by (simp add: s')
  then show ?thesis
    using sameContents_events [OF _ s3(2)] sameContents_revisions [OF _ s3(3)] sameContents_slots [OF _ s3(4)]
      sameContents_putOutcome [OF s02(1) s3(1) s'] s' by simp
qed

lemma PutRevision_outcome:
  assumes inv: "\<forall>s0. s0 = s \<or> (\<exists>c. WakeReleased c s0 \<in> set wakes) \<longrightarrow>
      eventsInv sha256 s0 \<and> revisionsInv sha256 dsl s0 \<and> slotsInv s0"
    and run: "PutRevision sha256 dsl env wakes w s = Some (x, s')"
  shows "\<exists>s0. (s0 = s \<or> (\<exists>c. WakeReleased c s0 \<in> set wakes)) \<and> eventsInv sha256 s' \<and> revisionsInv sha256 dsl s' \<and>
    slotsInv s' \<and> st_reservations s' = st_reservations s0 \<and> putOutcome w x s0 s'"
proof (cases "bindR (safeContextError (en_err env 0))
        (\<lambda>_. bindR (requireR (validRevisionWrite sha256 dsl w) ErrorInvalidArgument)
        (\<lambda>_. bindR (NewRevisionRecordFromWrite sha256 dsl w)
        (\<lambda>record. bindR (NewPutRevisionResult sha256 dsl record True)
        (\<lambda>createdResult. bindR (safeContextError (en_err env 1))
        (\<lambda>_. Inr (record, createdResult))))))")
  case (Inl e)
  with run have "x = Inl e" "s' = s" by (simp_all add: PutRevision_def)
  with inv show ?thesis by (auto simp: putOutcome_def)
next
  case (Inr rc)
  obtain r created where rc: "rc = (r, created)" by fastforce
  then have w: "validRevisionRecord sha256 dsl w" and r: "r = w" and created: "created = \<lparr>pp_record = w, pp_created = True\<rparr>"
    using Inr by (auto simp: bindR_Inr_iff NewRevisionRecordFromWrite_Inr_iff NewPutRevisionResult_def)
  from run Inr rc obtain a s1 where acq: "putRevisionAcquire w wakes s = Some (a, s1)"
    by (auto simp del: putRevisionAcquire.simps simp: PutRevision_def)
  note run' = run [unfolded PutRevision_def Inr rc r acq, simplified]
  from acq obtain s0 where s0: "s0 = s \<or> (\<exists>c. WakeReleased c s0 \<in> set wakes)"
    and res: "putRevisionReserve w s0 = (a, s1) \<or> (\<exists>e. a = PutFails e \<and> s1 = s0)" "a \<noteq> PutWaits"
    by (rule putRevisionAcquire_Some)
  have inv0: "eventsInv sha256 s0" "revisionsInv sha256 dsl s0" "slotsInv s0" using inv s0 by blast+
  have unchanged: ?thesis if "x = Inl e" "s' = s0 \<or> s' = s0\<lparr>st_nextRef := st_nextRef s0 + 1\<rparr>" for e
  proof -
    have same: "sameContents s0 s'" "st_reservations s' = st_reservations s0" using that(2) by auto
    then show ?thesis
      using s0 that(1) sameContents_events [OF same(1) inv0(1)] sameContents_revisions [OF same(1) inv0(2)]
        sameContents_slots [OF same(1) inv0(3)] by (auto simp: putOutcome_def)
  qed
  show ?thesis
  proof (cases "\<exists>e. a = PutFails e \<and> s1 = s0")
    case True
    with run' unchanged show ?thesis by auto
  next
    case False
    with res have "putRevisionReserve w s0 = (a, s1)" by blast
    then show ?thesis
    proof (cases rule: putRevisionReserve_cases)
      case waits
      with res(2) show ?thesis by simp
    next
      case (found existing)
      have same: "sameContents s0 s'" "st_reservations s' = st_reservations s0"
        using run' found(1,2) by auto
      have "x = putRevisionExisting sha256 dsl w existing \<or> (\<exists>e. x = Inl e)"
        using run' found(1) by (cases "safeContextError (en_err env 2)") auto
      then have "putOutcome w x s0 s'"
        using putRevisionExisting_outcome [OF found(3) same(1), of sha256 dsl] same(1) by auto
      then show ?thesis
        using s0 same sameContents_events [OF same(1) inv0(1)] sameContents_revisions [OF same(1) inv0(2)]
          sameContents_slots [OF same(1) inv0(3)] by blast
    next
      case (fails e)
      with run' show ?thesis by (intro unchanged [of e]) auto
    next
      case (reserves q)
      from run' reserves(1) have "deferS (bindS (commitPreparation env q (st_failNextEvent s0))
          (putRevisionCommit sha256 dsl (en_done env 2) (en_err env 4) w created q)) (releaseCommitReservationLocked q) s1 = (x, s')"
        by simp
      from putReserved_outcome [OF inv0 w created reserves(2,3,4) this] s0 show ?thesis by blast
    qed
  qed
qed

section \<open>Reading revisions\<close>

lemma GetRevision_live:
  assumes "liveEnv env t" "isOk (NewGetRevisionRequest (gr_namespace request) (gr_revisionID request))"
  shows "GetRevision env request s =
    (case nested (st_revisions s) (gr_namespace request) (gr_revisionID request) of
       None \<Rightarrow> (Inl ErrorNotFound, s) | Some r \<Rightarrow> (Inr r, s))"
  using assms(2) by (simp add: GetRevision_def liveEnv_simps [OF assms(1)] split: option.split)

lemma validRevisionRecord_request:
  assumes "validRevisionRecord sha256 dsl r"
  shows "isOk (NewGetRevisionRequest (rm_namespace (rc_metadata r)) (rm_ID (rc_metadata r)))"
    and "\<not> isZeroTime (rm_publishedAt (rc_metadata r))" "rm_ID (rc_metadata r) \<noteq> []"
  using assms
  by (auto simp: validRevisionRecord_def validRevisionWrite_def validateRevisionMetadata_def isOk_iff bindR_Inr_iff
      split: if_splits)

text \<open>Publishing what is already stored, uncontended, reports the stored record.\<close>

lemma PutRevision_again:
  assumes live: "liveEnv env t" and w: "validRevisionRecord sha256 dsl w"
    and free: "st_reservations s (revisionReservationKey (rm_namespace (rc_metadata w))) = None"
    and old: "nested (st_revisions s) (rm_namespace (rc_metadata w)) (rm_ID (rc_metadata w)) = Some existing"
      "validRevisionRecord sha256 dsl existing" "rc_artifact existing = rc_artifact w"
  shows "PutRevision sha256 dsl env [] w s =
    Some (Inr \<lparr>pp_record = existing, pp_created = False\<rparr>, s\<lparr>st_nextRef := st_nextRef s + 1\<rparr>)"
proof -
  obtain a s' where res: "putRevisionReserve w s = (a, s')" by fastforce
  then have "a = PutFound existing \<and> s' = s\<lparr>st_nextRef := st_nextRef s + 1\<rparr>"
  proof (cases rule: putRevisionReserve_cases)
    case (fails e)
    then show ?thesis using res free old(1)
      by (auto simp: putRevisionReserve_def reserveCommitLocked_def Let_def split: option.splits)
  qed (use free old(1) in auto)
  moreover have "validRevisionWrite sha256 dsl w" using w by (simp add: validRevisionRecord_def)
  ultimately show ?thesis
    using res w old
    by (simp add: PutRevision_def liveEnv_simps [OF live] requireR_def NewPutRevisionResult_def putRevisionExisting_def
        NewRevisionRecordFromWrite_Inr_iff [THEN iffD2, OF conjI [OF refl w]])
qed

text \<open>A page that ends at an item of a sorted list is continued by the items after it.\<close>

lemma sorted_resume:
  assumes sorted: "sorted_wrt R xs" and order: "\<forall>x y. R x y \<longrightarrow> \<not> R y x" and up: "\<forall>x y. P x \<longrightarrow> R x y \<longrightarrow> P y"
    and n: "n < length (filter P xs)" "0 < n"
  shows "filter (R (last (take n (filter P xs)))) xs = drop n (filter P xs)"
proof -
  let ?ys = "filter P xs" and ?q = "last (take n (filter P xs))"
  have sorted': "sorted_wrt R ?ys" using sorted by (rule sorted_wrt_filter)
  have q: "?q = ?ys ! (n - 1)" using n by (subst last_conv_nth) auto
  then have "P ?q" using nth_mem [of "n - 1" ?ys] n by simp
  with up have "R ?q x \<longleftrightarrow> P x \<and> R ?q x" for x by blast
  then have "filter (R ?q) xs = filter (R ?q) ?ys"
    unfolding filter_filter by (rule filter_cong [OF refl])
  also have "\<dots> = drop n ?ys"
  proof -
    have lo: "\<forall>k < n. \<not> R ?q (?ys ! k)"
    proof (intro allI impI)
      fix k assume "k < n"
      then show "\<not> R ?q (?ys ! k)"
        using sorted_wrt_nth_less [OF sorted', of k "n - 1"] n order q
        by (cases "k = n - 1") auto
    qed
    have hi: "\<forall>k. n \<le> k \<longrightarrow> k < length ?ys \<longrightarrow> R ?q (?ys ! k)"
      using sorted_wrt_nth_less [OF sorted', of "n - 1"] n q by simp
    show ?thesis by (rule filter_split_at(1) [OF lo hi, symmetric])
  qed
  finally show ?thesis .
qed

lemma revisionsAfter_resume:
  assumes "keysSorted compareRevisionKey root" "\<forall>p \<in> set (inorder root). fst p = revisionKeyFor (snd p)"
    and n: "n < length (revisionsAfter after root)" "0 < n"
  shows "revisionsAfter (Some (revisionKeyFor (last (take n (revisionsAfter after root))))) root =
    drop n (revisionsAfter after root)"
proof -
  let ?P = "\<lambda>p. case after of None \<Rightarrow> True | Some a \<Rightarrow> compareRevisionKey a (fst p) < 0"
  let ?R = "\<lambda>p q :: revisionKey \<times> RevisionRecord. compareRevisionKey (fst p) (fst q) < 0"
  let ?ys = "filter ?P (inorder root)"
  have ra: "revisionsAfter after root = map snd ?ys" by (simp add: revisionsAfter_def)
  have n': "n < length ?ys" using n(1) by (simp add: ra)
  have ne: "take n ?ys \<noteq> []" using n' n(2) by (metis gr_implies_not_zero length_0_conv length_take min.absorb4)
  then have last: "last (take n (map snd ?ys)) = snd (last (take n ?ys))"
    unfolding take_map by (rule last_map)
  have "last (take n ?ys) \<in> set (inorder root)"
    using last_in_set [OF ne] by (meson filter_is_subset in_set_takeD subsetD)
  then have key: "revisionKeyFor (snd (last (take n ?ys))) = fst (last (take n ?ys))"
    using assms(2) by simp
  have "filter (?R (last (take n ?ys))) (inorder root) = drop n ?ys"
  proof (rule sorted_resume [OF _ _ _ n' n(2)])
    show "sorted_wrt ?R (inorder root)" using assms(1) by (simp add: keysSorted_def)
    show "\<forall>x y. ?R x y \<longrightarrow> \<not> ?R y x" using revisionIndex.cmp_asym by blast
    show "\<forall>x y. ?P x \<longrightarrow> ?R x y \<longrightarrow> ?P y"
      using revisionIndex.cmp_trans by (auto split: option.splits)
  qed
  then show ?thesis
    unfolding ra last key revisionsAfter_def by (simp add: drop_map)
qed

lemma revisionsPage_Inr:
  assumes "keysSorted compareRevisionKey root" "0 < lr_limit request"
    and "revisionsPage sha256 request cursor root s = Inr (metadata, c)"
  defines "rest \<equiv> revisionsAfter (afterKey request cursor) root"
  shows "metadata = map rc_metadata (take (nat (lr_limit request)) rest)"
    and "if nat (lr_limit request) < length rest
      then newCursorLocked sha256 (st_cursorKey s) (st_cursorKeyOK s)
        (zeroCursor\<lparr>cu_domain := ''revision'', cu_namespace := lr_namespace request,
           cu_revisionPublishedAt := rm_publishedAt (last metadata), cu_revisionID := rm_ID (last metadata)\<rparr>) = Inr c
      else c = []"
proof -
  have lim: "0 \<le> lr_limit request" "lr_limit request < int (length rest) \<longleftrightarrow> nat (lr_limit request) < length rest"
    using assms(2) by (simp_all add: nat_less_iff)
  note page = revisionPage_take [OF assms(1) lim(1), where f = rc_metadata and after = "afterKey request cursor",
      folded rest_def, unfolded lim(2)]
  from assms(3) show "metadata = map rc_metadata (take (nat (lr_limit request)) rest)"
    unfolding revisionsPage_def Let_def page by (simp add: bindR_Inr_iff)
  from assms(3) show "if nat (lr_limit request) < length rest
      then newCursorLocked sha256 (st_cursorKey s) (st_cursorKeyOK s)
        (zeroCursor\<lparr>cu_domain := ''revision'', cu_namespace := lr_namespace request,
           cu_revisionPublishedAt := rm_publishedAt (last metadata), cu_revisionID := rm_ID (last metadata)\<rparr>) = Inr c
      else c = []"
    unfolding revisionsPage_def Let_def page by (auto simp: bindR_Inr_iff split: if_splits)
qed

lemma ListRevisions_Inr:
  assumes ok: "ListRevisions sha256 env request s = (Inr r, s')"
  obtains cursor where
    "cursorStateLocked sha256 (st_cursorKey s) (st_cursorKeyOK s) (lr_cursor request) ''revision''
       (lr_namespace request) [] = Inr cursor"
    "s' = s" "0 < lr_limit request"
    "revisionsPage sha256 request cursor (st_revisionOrder s (lr_namespace request)) s =
       Inr (lp_revisions r, lp_nextCursor r)"
proof -
  have lim: "0 < lr_limit request"
    if "isOk (NewListRevisionsRequest (lr_namespace request) (lr_cursor request) (lr_limit request))"
    using that by (auto simp: NewListRevisionsRequest_def isOk_iff split: if_splits)
  have resp: "a = lp_revisions r \<and> c = lp_nextCursor r" if "NewListRevisionsResponse request a c = Inr r" for a c
    using that by (auto simp: NewListRevisionsResponse_def bindR_Inr_iff split: if_splits)
  obtain cursor a c where
    "isOk (NewListRevisionsRequest (lr_namespace request) (lr_cursor request) (lr_limit request))"
    "cursorStateLocked sha256 (st_cursorKey s) (st_cursorKeyOK s) (lr_cursor request) ''revision''
       (lr_namespace request) [] = Inr cursor"
    "revisionsPage sha256 request cursor (st_revisionOrder s (lr_namespace request)) s = Inr (a, c)"
    "NewListRevisionsResponse request a c = Inr r" "s' = s"
    using ok unfolding ListRevisions_def bindS_Inr_iff actions_Inr_iff requireS_Inr_iff split_beta Inr_inject
    by (elim exE conjE) (rule that, assumption+, simp_all add: prod_eq_iff)
  then show thesis using that [of cursor] lim resp by metis
qed

lemma minted_state:
  assumes sha: "digests32 sha256" and "newCursorLocked sha256 key ok c = Inr t"
    and "unixRepresentable (cu_revisionPublishedAt c)"
  shows "cursorStateLocked sha256 key ok t (cu_domain c) (cu_namespace c) (cu_slot c) = Inr c"
proof -
  obtain i where i: "cursorDomainID (cu_domain c) = Some i" and ok: "ok" "wellFormedCursor c"
    and t: "t = base64EncodeToString (cursorPayload sha256 key i c @ hmac sha256 key (cursorPayload sha256 key i c))"
    using assms(2) by (auto simp: newCursorLocked_Inr_iff wellFormedCursor_def Let_def)
  show ?thesis
    using ok(1) i by (simp add: cursorStateLocked_minted [OF sha ok(2) assms(3) i t])
qed

section \<open>Uncontended publication succeeds\<close>

lemma putRevisionCommit_live:
  assumes sha: "digests32 sha256" and inv: "eventsInv sha256 s" and key: "st_cursorKeyOK s"
    and w: "validRevisionRecord sha256 dsl w"
    and own: "ownsCommitReservationLocked q s"
    and new: "nested (st_revisions s) (rm_namespace (rc_metadata w)) (rm_ID (rc_metadata w)) = None"
    and hw: "highWater s (rm_namespace (rc_metadata w)) < 2 ^ 64 - 1" and t: "0 < t"
  shows "\<exists>s'. putRevisionCommit sha256 dsl False err w created q t s = (Inr created, s')"
proof -
  let ?n = "rm_namespace (rc_metadata w)"
  obtain t1 s1 where eff: "effectiveTimeLocked t s = (t1, s1)"
    by (cases "effectiveTimeLocked t s")
  note eff' = effectiveTimeLocked_spec [OF eff]
  have s1: "sameContents s s1" using eff'(2,3) by (simp add: sameContents_def)
  have valid: "validNamespace ?n" "validRevisionIDString (rm_ID (rc_metadata w))"
    using validRevisionRecord_request(1) [OF w]
    by (auto simp: NewGetRevisionRequest_def isOk_iff bindR_Inr_iff validNamespace_def split: if_splits)
  obtain e where e: "newEventLocked sha256 (revisionEvent w) t1 s1 = Inr e"
    using newEventLocked_succeeds [OF sha sameContents_events [OF s1 inv], of "revisionEvent w" t1]
      sameContents_reads(2) [OF s1] key s1 valid effectiveTimeLocked_pos [OF t eff] hw
    by (auto simp: revisionEvent_def eventShape_def event_kinds sameContents_def)
  obtain sq where "nextEventSequenceLocked ?n s = Inr sq"
    using nextEventSequenceLocked_spec(3) [OF inv] hw by blast
  then show ?thesis
    using own new eff e
    by (auto simp: putRevisionCommit_def Let_def requireR_def revisionEvent_def
        bindS_def [of "\<lambda>s. case effectiveTimeLocked t s of (t, s) \<Rightarrow> (Inr t, s)"])
qed

lemma PutRevision_live:
  assumes sha: "digests32 sha256" and inv: "eventsInv sha256 s" and key: "st_cursorKeyOK s"
    and live: "liveEnv env t" "0 < t" and fail: "\<not> st_failNextEvent s"
    and w: "validRevisionRecord sha256 dsl w"
    and free: "st_reservations s (revisionReservationKey (rm_namespace (rc_metadata w))) = None"
    and new: "nested (st_revisions s) (rm_namespace (rc_metadata w)) (rm_ID (rc_metadata w)) = None"
    and hw: "highWater s (rm_namespace (rc_metadata w)) < 2 ^ 64 - 1"
  shows "\<exists>s'. PutRevision sha256 dsl env [] w s = Some (Inr \<lparr>pp_record = w, pp_created = True\<rparr>, s')"
proof -
  let ?n = "rm_namespace (rc_metadata w)" and ?c = "\<lparr>pp_record = w, pp_created = True\<rparr>"
  let ?k = "revisionReservationKey ?n"
  let ?q = "reserved ?k s"
  let ?s1 = "s\<lparr>st_reservations := (st_reservations s)(?k \<mapsto> ?q), st_nextRef := st_nextRef s + 1\<rparr>"
  have same: "sameContents s ?s1" by simp
  obtain sq where sq: "nextEventSequenceLocked ?n s = Inr sq"
    using nextEventSequenceLocked_spec(3) [OF inv] hw by blast
  have res: "putRevisionReserve w s = (PutReserved ?q False, ?s1)"
    using free new sq fail sameContents_sequence [OF same]
    by (simp add: putRevisionReserve_def reserveCommitLocked_def reserved_def Let_def)
  have "\<exists>s'. putRevisionCommit sha256 dsl False err w ?c ?q t ?s1 = (Inr ?c, s')" for err
    by (rule putRevisionCommit_live [OF sha sameContents_events [OF same inv] _ w])
      (use key new hw live(2) sameContents_reads(2) [OF same] in
        \<open>auto simp: ownsCommitReservationLocked_def reserved_def\<close>)
  then obtain s' where "putRevisionCommit sha256 dsl False (en_err env 4) w ?c ?q t ?s1 = (Inr ?c, s')" by blast
  moreover have "validRevisionWrite sha256 dsl w" using w by (simp add: validRevisionRecord_def)
  ultimately show ?thesis
    using w live(1)
    by (simp add: PutRevision_def liveEnv_simps [OF live(1)] requireR_def NewPutRevisionResult_def res deferS_def
        NewRevisionRecordFromWrite_Inr_iff [THEN iffD2, OF conjI [OF refl w]]
        bindS_def [of "commitPreparation env ?q False"] commitPreparation_live [OF live(1)])
qed

lemma freshStore_invs:
  "eventsInv sha256 (freshStore k)" "revisionsInv sha256 dsl (freshStore k)" "slotsInv (freshStore k)"
  "st_cursorKeyOK (freshStore k)" "\<not> st_failNextEvent (freshStore k)" "highWater (freshStore k) n = 0"
  "st_reservations (freshStore k) c = None" "nested (st_revisions (freshStore k)) n i = None"
  by (simp_all add: freshStore_def eventsInv_iff slotsInv_def revisionsInv_def highWater_def nested_def
      revisionIndex.avlInv_Nil)

lemma sampleSha256_digests: "digests32 sampleSha256"
  by (simp add: digests32_def sampleSha256_def zeroDigest_def min_def)

lemma samplePut_runs:
  obtains s' where "PutRevision sampleSha256 sampleDsl sampleEnv [] (sampleRevision 7) (freshStore [1]) =
    Some (Inr \<lparr>pp_record = sampleRevision 7, pp_created = True\<rparr>, s')"
  using PutRevision_live [OF sampleSha256_digests freshStore_invs(1,4) sampleEnv_live _ freshStore_invs(5)
      sampleRevision_valid freshStore_invs(7,8)] freshStore_invs(6) by simp blast

section \<open>Properties\<close>

text \<open>
  C27: publication is atomic. However often a PutRevision call waits for another one, it acts on one
  state it found when it got its turn: it fails and leaves the contents as they were, or it reports the
  record stored there under the same identifier with the same artifact, or it stores exactly its own
  record and appends exactly the matching event. The invariants of the revisions, the slots and the
  event log hold again and the reservation is gone.
\<close>

theorem PutRevision_atomic:
  assumes "\<forall>s0. s0 = s \<or> (\<exists>c. WakeReleased c s0 \<in> set wakes) \<longrightarrow>
      eventsInv sha256 s0 \<and> revisionsInv sha256 dsl s0 \<and> slotsInv s0"
    and "PutRevision sha256 dsl env wakes write s = Some (r, s')"
  shows "\<exists>s0. (s0 = s \<or> (\<exists>c. WakeReleased c s0 \<in> set wakes)) \<and> putOutcome write r s0 s' \<and>
    eventsInv sha256 s' \<and> revisionsInv sha256 dsl s' \<and> slotsInv s' \<and> st_reservations s' = st_reservations s0"
  using PutRevision_outcome [OF assms] by blast

theorem PutRevision_atomic_witness:
  "\<exists>s'. PutRevision sampleSha256 sampleDsl sampleEnv [] (sampleRevision 7) (freshStore [1]) =
      Some (Inr \<lparr>pp_record = sampleRevision 7, pp_created = True\<rparr>, s') \<and>
     published (sampleRevision 7) (freshStore [1]) s' \<and> revisionsInv sampleSha256 sampleDsl s'"
proof -
  obtain s' where run: "PutRevision sampleSha256 sampleDsl sampleEnv [] (sampleRevision 7) (freshStore [1]) =
      Some (Inr \<lparr>pp_record = sampleRevision 7, pp_created = True\<rparr>, s')"
    by (rule samplePut_runs)
  from PutRevision_atomic [OF _ run] run show ?thesis
    by (auto simp: putOutcome_def freshStore_invs)
qed

text \<open>
  C28: a published revision is immutable and read back as stored. After any successful PutRevision,
  GetRevision returns the record the call reported, with the artifact that was written; and writing it
  again, once nobody holds the reservation, changes nothing and reports the same record as not created.
\<close>

theorem PutRevision_read_back:
  assumes "\<forall>s0. s0 = s \<or> (\<exists>c. WakeReleased c s0 \<in> set wakes) \<longrightarrow>
      eventsInv sha256 s0 \<and> revisionsInv sha256 dsl s0 \<and> slotsInv s0"
    and run: "PutRevision sha256 dsl env wakes write s = Some (Inr result, s')"
    and live: "liveEnv env' t"
  shows "GetRevision env' \<lparr>gr_namespace = rm_namespace (rc_metadata write), gr_revisionID = rm_ID (rc_metadata write)\<rparr> s' =
      (Inr (pp_record result), s') \<and>
    rc_artifact (pp_record result) = rc_artifact write \<and>
    (st_reservations s' (revisionReservationKey (rm_namespace (rc_metadata write))) = None \<longrightarrow>
     (\<exists>s''. PutRevision sha256 dsl env' [] write s' =
        Some (Inr \<lparr>pp_record = pp_record result, pp_created = False\<rparr>, s'') \<and> sameContents s' s''))"
proof -
  obtain s0 where out: "putOutcome write (Inr result) s0 s'" and inv: "revisionsInv sha256 dsl s'"
    using PutRevision_outcome [OF assms(1) run] by blast
  have w: "validRevisionRecord sha256 dsl write"
    using run by (auto simp: PutRevision_def NewRevisionRecordFromWrite_Inr_iff bindR_Inr_iff split: sum.splits)
  have stored: "nested (st_revisions s') (rm_namespace (rc_metadata write)) (rm_ID (rc_metadata write)) =
      Some (pp_record result)" and art: "rc_artifact (pp_record result) = rc_artifact write"
    using out by (auto simp: putOutcome_def published_def sameContents_def Let_def split: if_splits)
  then have "validRevisionRecord sha256 dsl (pp_record result)" using inv by (simp add: revisionsInv_def)
  note again = PutRevision_again [OF live w _ stored this art]
  show ?thesis
    using GetRevision_live [OF live, of "\<lparr>gr_namespace = rm_namespace (rc_metadata write),
        gr_revisionID = rm_ID (rc_metadata write)\<rparr>"] validRevisionRecord_request(1) [OF w] stored art again
    by simp
qed

theorem PutRevision_read_back_witness:
  "\<exists>s'. PutRevision sampleSha256 sampleDsl sampleEnv [] (sampleRevision 7) (freshStore [1]) =
      Some (Inr \<lparr>pp_record = sampleRevision 7, pp_created = True\<rparr>, s') \<and>
     GetRevision sampleEnv \<lparr>gr_namespace = rm_namespace (rc_metadata (sampleRevision 7)),
       gr_revisionID = rm_ID (rc_metadata (sampleRevision 7))\<rparr> s' = (Inr (sampleRevision 7), s')"
proof -
  obtain s' where run: "PutRevision sampleSha256 sampleDsl sampleEnv [] (sampleRevision 7) (freshStore [1]) =
      Some (Inr \<lparr>pp_record = sampleRevision 7, pp_created = True\<rparr>, s')"
    by (rule samplePut_runs)
  from PutRevision_read_back [OF _ run sampleEnv_live] run show ?thesis by (auto simp: freshStore_invs)
qed

text \<open>
  C29: ListRevisions pages through exactly the stored revisions, ordered by publication time and
  identifier. A page is the first limit revisions after the cursor; it has a next cursor exactly when
  more follow, and the page after that cursor continues with exactly the revisions left out.
\<close>

theorem ListRevisions_page:
  assumes "digests32 sha256" "revisionsInv sha256 dsl s"
    and "\<forall>i q. nested (st_revisions s) (lr_namespace request) i = Some q \<longrightarrow>
      unixRepresentable (rm_publishedAt (rc_metadata q))"
    and "ListRevisions sha256 env request s = (Inr r, s')"
  shows "\<exists>cursor. let n = lr_namespace request; root = st_revisionOrder s n; lim = nat (lr_limit request);
      rest = revisionsAfter (afterKey request cursor) root in
    s' = s \<and> set (revisionsAfter None root) = ran (nested (st_revisions s) n) \<and>
    cursorStateLocked sha256 (st_cursorKey s) (st_cursorKeyOK s) (lr_cursor request) ''revision'' n [] = Inr cursor \<and>
    lp_revisions r = map rc_metadata (take lim rest) \<and> (lp_nextCursor r \<noteq> [] \<longleftrightarrow> lim < length rest) \<and>
    (lp_nextCursor r \<noteq> [] \<longrightarrow> (\<exists>cursor'. cursorStateLocked sha256 (st_cursorKey s) (st_cursorKeyOK s)
       (lp_nextCursor r) ''revision'' n [] = Inr cursor' \<and>
       revisionsAfter (afterKey (request\<lparr>lr_cursor := lp_nextCursor r\<rparr>) cursor') root = drop lim rest))"
proof -
  let ?n = "lr_namespace request" and ?lim = "nat (lr_limit request)"
  let ?root = "st_revisionOrder s ?n"
  obtain cursor where c: "cursorStateLocked sha256 (st_cursorKey s) (st_cursorKeyOK s) (lr_cursor request)
       ''revision'' ?n [] = Inr cursor" and s': "s' = s" and lim: "0 < lr_limit request"
    and page: "revisionsPage sha256 request cursor ?root s = Inr (lp_revisions r, lp_nextCursor r)"
    using ListRevisions_Inr [OF assms(4)] by metis
  have root: "keysSorted compareRevisionKey ?root"
    "set (inorder ?root) = {(revisionKeyFor q, q) | q i. nested (st_revisions s) ?n i = Some q}"
    using assms(2) by (simp_all add: revisionsInv_def avlInv_def)
  let ?rest = "revisionsAfter (afterKey request cursor) ?root"
  note page' = revisionsPage_Inr [OF root(1) lim page]
  have all: "set (revisionsAfter None ?root) = ran (nested (st_revisions s) ?n)"
    using root(2) by (force simp: revisionsAfter_def ran_def)
  have more: "lp_nextCursor r \<noteq> [] \<and> (\<exists>cursor'. cursorStateLocked sha256 (st_cursorKey s) (st_cursorKeyOK s)
       (lp_nextCursor r) ''revision'' ?n [] = Inr cursor' \<and>
       revisionsAfter (afterKey (request\<lparr>lr_cursor := lp_nextCursor r\<rparr>) cursor') ?root = drop ?lim ?rest)"
    if m: "?lim < length ?rest"
  proof -
    let ?last = "last (take ?lim ?rest)"
    let ?c = "zeroCursor\<lparr>cu_domain := ''revision'', cu_namespace := ?n,
      cu_revisionPublishedAt := rm_publishedAt (rc_metadata ?last), cu_revisionID := rm_ID (rc_metadata ?last)\<rparr>"
    have ne: "take ?lim ?rest \<noteq> []" using m lim by (metis length_0_conv length_take min.absorb4 nat_0_iff not_le)
    have "?last \<in> set ?rest" using last_in_set [OF ne] by (rule in_set_takeD)
    then have "?last \<in> ran (nested (st_revisions s) ?n)"
      using all by (auto simp: revisionsAfter_def)
    then have unix: "unixRepresentable (cu_revisionPublishedAt ?c)" using assms(3) by (auto simp: ran_def)
    have mint: "newCursorLocked sha256 (st_cursorKey s) (st_cursorKeyOK s) ?c = Inr (lp_nextCursor r)"
      using page'(2) m unfolding page'(1) last_map [OF ne] by simp
    have key: "\<lparr>rk_publishedAt = cu_revisionPublishedAt ?c, rk_id = cu_revisionID ?c\<rparr> = revisionKeyFor ?last"
      by (simp add: revisionKeyFor_def)
    have "cursorStateLocked sha256 (st_cursorKey s) (st_cursorKeyOK s) (lp_nextCursor r) ''revision'' ?n [] = Inr ?c"
      using minted_state [OF assms(1) mint unix] by (simp add: zeroCursor_def)
    moreover have "lp_nextCursor r \<noteq> []" by (rule minted_position(1) [OF assms(1) mint unix])
    moreover have "revisionsAfter (Some (revisionKeyFor ?last)) ?root = drop ?lim ?rest"
      using revisionsAfter_resume [OF root(1) _ m] lim root(2) by auto
    ultimately show ?thesis
      using key by (auto simp: afterKey_def)
  qed
  have "lp_nextCursor r \<noteq> [] \<longleftrightarrow> ?lim < length ?rest"
    using page'(2) more by (cases "?lim < length ?rest") simp_all
  with s' all c page'(1) more show ?thesis
    unfolding Let_def by blast
qed

definition sampleListRevisions :: ListRevisionsRequest where
  "sampleListRevisions = \<lparr>lr_namespace = ''acme'', lr_cursor = [], lr_limit = 10\<rparr>"

lemma sampleListRevisions_valid:
  "isOk (NewListRevisionsRequest (lr_namespace sampleListRevisions) (lr_cursor sampleListRevisions)
     (lr_limit sampleListRevisions))"
  "validListRevisionsRequest sampleListRevisions"
  by (simp_all add: sampleListRevisions_def NewListRevisionsRequest_def validListRevisionsRequest_def
      sample_texts limit_defs isOk_iff validNamespace_def)

lemma sampleListRevisions_response:
  "\<exists>r. NewListRevisionsResponse sampleListRevisions [rc_metadata (sampleRevision 7)] [] = Inr r"
proof -
  have "validateRevisionMetadata (rc_metadata (sampleRevision 7)) = Inr ()"
    using sampleRevision_valid [of 7]
    by (simp add: validRevisionRecord_def validRevisionWrite_def isOk_Inr_unit)
  then have "validRevisionMetadata (rc_metadata (sampleRevision 7))"
    by (simp add: validateRevisionMetadata_Inr_iff)
  moreover have "rm_namespace (rc_metadata (sampleRevision 7)) = ''acme''" by (simp add: sampleRevision_def)
  moreover from this have "isOk (addRevisionPageCost (newBudget MaxAggregateOutputBytes)
      [rc_metadata (sampleRevision 7)] [])"
    by (simp add: addRevisionPageCost_def addRevisionMetadataCost_def charge_simps cost_consts limit_defs isOk_iff
        budgetAdd_Inr_iff newBudget_def textBytes_def)
  ultimately show ?thesis
    using sampleListRevisions_valid
    by (auto simp: NewListRevisionsResponse_def isOk_iff validRevisionPage_def limit_defs sample_texts
        simp: sampleListRevisions_def)
qed

lemma sorted_singleton:
  assumes "sorted_wrt R xs" "set xs = {x}" "\<not> R x x"
  shows "xs = [x]"
  using assms by (cases xs rule: remdups_adj.cases) auto

theorem ListRevisions_page_witness:
  "\<exists>s r s'. revisionsInv sampleSha256 sampleDsl s \<and>
     ListRevisions sampleSha256 sampleEnv sampleListRevisions s = (Inr r, s') \<and>
     lp_revisions r = [rc_metadata (sampleRevision 7)]"
proof -
  obtain s where run: "PutRevision sampleSha256 sampleDsl sampleEnv [] (sampleRevision 7) (freshStore [1]) =
      Some (Inr \<lparr>pp_record = sampleRevision 7, pp_created = True\<rparr>, s)"
    by (rule samplePut_runs)
  have inv: "revisionsInv sampleSha256 sampleDsl s" and pub: "published (sampleRevision 7) (freshStore [1]) s"
    using PutRevision_outcome [OF _ run] by (auto simp: putOutcome_def freshStore_invs)
  have stored: "nested (st_revisions s) ''acme'' i = Some q \<longleftrightarrow>
      i = rm_ID (rc_metadata (sampleRevision 7)) \<and> q = sampleRevision 7" for i q
    using pub by (auto simp: published_def Let_def freshStore_invs sampleRevision_def split: if_splits)
  let ?root = "st_revisionOrder s ''acme''"
  have root: "inorder ?root = [(revisionKeyFor (sampleRevision 7), sampleRevision 7)]"
    by (rule sorted_singleton [of "\<lambda>p q. compareRevisionKey (fst p) (fst q) < 0"])
      (use inv in \<open>auto simp: revisionsInv_def avlInv_def keysSorted_def stored revisionIndex.cmp_irrefl\<close>)
  have cur: "cursorStateLocked h k ok (lr_cursor sampleListRevisions) d n sl = Inr zeroCursor" for h k ok d n sl
    by (simp add: cursorStateLocked_def sampleListRevisions_def)
  have sorted: "keysSorted compareRevisionKey ?root" using root by (simp add: keysSorted_def)
  have "revisionsPage sampleSha256 sampleListRevisions zeroCursor ?root s =
      Inr ([rc_metadata (sampleRevision 7)], [])"
    using revisionPage_take [OF sorted, where limit = 10 and f = rc_metadata and after = None] root
    by (simp add: revisionsPage_def afterKey_def sampleListRevisions_def Let_def revisionsAfter_def)
  then obtain r where run': "ListRevisions sampleSha256 sampleEnv sampleListRevisions s = (Inr r, s)"
    using sampleListRevisions_response
    by (auto simp: ListRevisions_def liveEnv_simps [OF sampleEnv_live] cur sampleListRevisions_valid)
      (simp add: sampleListRevisions_def)
  have unix: "\<forall>i q. nested (st_revisions s) (lr_namespace sampleListRevisions) i = Some q \<longrightarrow>
      unixRepresentable (rm_publishedAt (rc_metadata q))"
    by (simp add: sampleListRevisions_def stored sampleRevision_def unixRepresentable_def unixSeconds_def)
  have "lp_revisions r = map rc_metadata (take (nat (lr_limit sampleListRevisions))
      (revisionsAfter (afterKey sampleListRevisions zeroCursor) (st_revisionOrder s (lr_namespace sampleListRevisions))))"
    using ListRevisions_page [OF sampleSha256_digests inv unix run'] by (auto simp: Let_def cur)
  then have "lp_revisions r = [rc_metadata (sampleRevision 7)]"
    by (simp add: sampleListRevisions_def afterKey_def revisionsAfter_def root)
  with inv run' show ?thesis by blast
qed

end
