(* ===== verification/Memory_Data.thy ===== *)
theory Memory_Data
  imports Memory_Revisions
begin

text \<open>
  store/memory/idempotency.go: WriteData, which applies the deletes and writes of a request to the
  current version of a namespace's data, commits the new version under the next generation together
  with its idempotency record and its event, and replays a request that was committed before. The
  lemmas give the invariant of the data and what a call does to the maps its indexes represent.
\<close>

section \<open>WriteData\<close>

definition dataReservationKey :: "string \<Rightarrow> commitReservationKey" where
  "dataReservationKey namespace = \<lparr>ck_domain = ''data'', ck_namespace = namespace, ck_name = []\<rparr>"

definition idempotencyRecord :: "dataState option \<Rightarrow> string \<Rightarrow> idempotencyState option" where
  "idempotencyRecord state key = (case state of None \<Rightarrow> None | Some ds \<Rightarrow> ds_idempotency ds key)"

definition tupleDeleteAll :: "tupleNode \<Rightarrow> TupleKey list \<Rightarrow> tupleNode" where
  "tupleDeleteAll = foldl (\<lambda>root key. tupleDelete root (tk_tuple key))"

definition tupleSetAll :: "tupleNode \<Rightarrow> RelationshipTuple list \<Rightarrow> tupleNode" where
  "tupleSetAll = foldl (\<lambda>root tuple. tupleSet root (rt_tuple tuple) tuple)"

definition attributeDeleteAll :: "attributeEntityNode \<Rightarrow> AttributeKey list \<Rightarrow> attributeEntityNode" where
  "attributeDeleteAll = foldl attributeDelete"

fun attributeSetAll :: "attributeEntityNode \<Rightarrow> Attribute list \<Rightarrow> attributeEntityNode option" where
  "attributeSetAll root [] = Some root"
| "attributeSetAll root (a # as) =
     (case attributeSet root a of (root, ok) \<Rightarrow> if ok then attributeSetAll root as else None)"

text \<open>
  The checks and the candidate version, computed under the lock. A version made here is a new
  object, so it gets a number of its own.
\<close>

definition writePrepare :: "WriteDataRequest \<Rightarrow> Store \<Rightarrow> (dataVersion \<times> dataVersion \<times> WriteDataResponse) result" where
  "writePrepare request s =
     (let namespace = wr_namespace request;
          state = st_data s namespace;
          currentGeneration = (case state of None \<Rightarrow> 0 | Some ds \<Rightarrow> ds_generation ds);
          base = (case state of
                    None \<Rightarrow> \<lparr>dv_ref = st_nextRef s, dv_generation = currentGeneration,
                             dv_tuples = Nil, dv_attributes = Nil\<rparr>
                  | Some ds \<Rightarrow> ds_current ds)
      in bindR (requireR (nested (st_revisions s) namespace (wr_validationRevisionID request) \<noteq> None) ErrorNotFound)
       (\<lambda>_. bindR (requireR (currentGeneration = wr_expectedGeneration request) ErrorConflict)
       (\<lambda>_. bindR (requireR (currentGeneration \<noteq> MaxUint64) ErrorResourceExhausted)
       (\<lambda>_. bindR (nextEventSequenceLocked namespace s)
       (\<lambda>_. case attributeSetAll (attributeDeleteAll (dv_attributes base) (wr_attributeDeletes request))
                   (wr_attributeWrites request) of
               None \<Rightarrow> Inl ErrorConflict
             | Some attributeRoot \<Rightarrow>
                 bindR (NewWriteDataResponse (currentGeneration + 1) False)
                 (\<lambda>response. Inr
                    (base,
                     \<lparr>dv_ref = st_nextRef s + 1, dv_generation = currentGeneration + 1,
                      dv_tuples = tupleSetAll (tupleDeleteAll (dv_tuples base) (wr_tupleDeletes request))
                        (wr_tupleWrites request),
                      dv_attributes = attributeRoot\<rparr>,
                     response)))))))"

datatype writeAttempt =
    WriteWaits
  | WriteReplays idempotencyState
  | WriteFails ErrorCategory
  | WriteReserved commitReservation dataVersion dataVersion WriteDataResponse bool

definition writeReserve :: "bytes \<Rightarrow> WriteDataRequest \<Rightarrow> Store \<Rightarrow> writeAttempt \<times> Store" where
  "writeReserve fingerprint request s =
     (let key = dataReservationKey (wr_namespace request) in
      case reserveCommitLocked key s of
        (None, s) \<Rightarrow>
          (case st_reservations s key of
             None \<Rightarrow> (WriteFails ErrorConflict, s)
           | Some pending \<Rightarrow>
               if cr_operation pending = ''data'' \<and> cr_idempotencyKey pending = wr_idempotencyKey request \<and>
                  cr_fingerprint pending = fingerprint
               then (WriteWaits, s) else (WriteFails ErrorConflict, s))
      | (Some reservation, s) \<Rightarrow>
          let reservation = reservation\<lparr>cr_operation := ''data'',
                cr_idempotencyKey := wr_idempotencyKey request, cr_fingerprint := fingerprint\<rparr>;
              s = s\<lparr>st_reservations := (st_reservations s)(key \<mapsto> reservation)\<rparr>
          in (case idempotencyRecord (st_data s (wr_namespace request)) (wr_idempotencyKey request) of
                Some previous \<Rightarrow> (WriteReplays previous, releaseCommitReservationLocked reservation s)
              | None \<Rightarrow>
                  (case writePrepare request s of
                     Inl e \<Rightarrow> (WriteFails e, releaseCommitReservationLocked reservation s)
                   | Inr (base, candidate, response) \<Rightarrow>
                       (WriteReserved reservation base candidate response (st_failNextEvent s),
                        s\<lparr>st_nextRef := st_nextRef s + 2\<rparr>))))"

text \<open>
  A caller that finds the same request in flight waits for it. A wake-up gives the store the caller
  finds and whether its context is done by then, in which case it gives up.
\<close>

record writeWake =
  ww_store :: Store
  ww_signaled :: bool
  ww_err :: ContextState

fun writeAcquire :: "bytes \<Rightarrow> WriteDataRequest \<Rightarrow> writeWake list \<Rightarrow> Store \<Rightarrow> (writeAttempt \<times> Store) option" where
  "writeAcquire fingerprint request wakes s =
     (case writeReserve fingerprint request s of
        (WriteWaits, s) \<Rightarrow>
          (case wakes of
             [] \<Rightarrow> None
           | w # rest \<Rightarrow>
               if ww_signaled w then Some (WriteFails (contextWaitError (ww_err w)), ww_store w)
               else writeAcquire fingerprint request rest (ww_store w))
      | attempt \<Rightarrow> Some attempt)"

definition writeReplay :: "bytes \<Rightarrow> idempotencyState \<Rightarrow> WriteDataResponse result" where
  "writeReplay fingerprint previous =
     (if id_fingerprint previous \<noteq> fingerprint then Inl ErrorConflict
      else NewWriteDataResponse (dr_generation (id_response previous)) True)"

definition writeUnchanged :: "WriteDataRequest \<Rightarrow> dataVersion \<Rightarrow> Store \<Rightarrow> bool" where
  "writeUnchanged request base s =
     (case st_data s (wr_namespace request) of
        None \<Rightarrow> wr_expectedGeneration request = 0 \<and> dv_generation base = 0
      | Some ds \<Rightarrow> ds_generation ds = wr_expectedGeneration request \<and> dv_ref (ds_current ds) = dv_ref base)"

definition writeStore ::
  "WriteDataRequest \<Rightarrow> bytes \<Rightarrow> dataVersion \<Rightarrow> WriteDataResponse \<Rightarrow> dataState option \<Rightarrow> dataState" where
  "writeStore request fingerprint candidate response state =
     \<lparr>ds_generation = dv_generation candidate, ds_current = candidate,
      ds_idempotency = (case state of None \<Rightarrow> Map.empty | Some ds \<Rightarrow> ds_idempotency ds)
        (wr_idempotencyKey request \<mapsto> \<lparr>id_fingerprint = fingerprint, id_response = response\<rparr>)\<rparr>"

definition writeCommit ::
  "(bytes \<Rightarrow> bytes) \<Rightarrow> bool \<Rightarrow> ContextState \<Rightarrow> WriteDataRequest \<Rightarrow> bytes \<Rightarrow> commitReservation \<Rightarrow> dataVersion
     \<Rightarrow> dataVersion \<Rightarrow> WriteDataResponse \<Rightarrow> Time \<Rightarrow> (Store, WriteDataResponse) action" where
  "writeCommit sha256 done' err request fingerprint reservation base candidate response t =
     (let namespace = wr_namespace request in
      bindS (readS (\<lambda>s. requireR (ownsCommitReservationLocked reservation s) ErrorInternal))
      (\<lambda>_. bindS (requireS (\<not> done') (contextWaitError err))
      (\<lambda>_. bindS (readS (\<lambda>s. requireR (writeUnchanged request base s) ErrorConflict))
      (\<lambda>_. bindS (readS (\<lambda>s. requireR (nested (st_revisions s) namespace (wr_validationRevisionID request) \<noteq> None)
                                ErrorNotFound))
      (\<lambda>_. bindS (readS (\<lambda>s. Inr (idempotencyRecord (st_data s namespace) (wr_idempotencyKey request))))
      (\<lambda>previous. case previous of
          Some previous \<Rightarrow> liftS (writeReplay fingerprint previous)
        | None \<Rightarrow>
            bindS (readS (nextEventSequenceLocked namespace))
            (\<lambda>_. bindS (\<lambda>s. case effectiveTimeLocked t s of (t, s) \<Rightarrow> (Inr t, s))
            (\<lambda>t. bindS (readS (newEventLocked sha256
                \<lparr>ev_namespace = namespace, ev_cursor = [], ev_kind = StateEventDataWritten,
                 ev_revisionID = [], ev_slot = [], ev_slotGeneration = 0,
                 ev_dataGeneration = dv_generation candidate, ev_occurredAt = 0\<rparr> t))
            (\<lambda>event s.
               (Inr response,
                appendEventLocked event t
                  (notifyGenerationWaitersLocked namespace
                     (s\<lparr>st_data := (st_data s)(namespace \<mapsto>
                        writeStore request fingerprint candidate response (st_data s namespace))\<rparr>))))))))))))"

definition WriteData ::
  "(bytes \<Rightarrow> bytes) \<Rightarrow> Env \<Rightarrow> writeWake list \<Rightarrow> WriteDataRequest \<Rightarrow> Store
     \<Rightarrow> (WriteDataResponse result \<times> Store) option" where
  "WriteData sha256 env wakes request s =
     (case bindR (safeContextError (en_err env 0))
        (\<lambda>_. bindR (FingerprintWriteData sha256 request)
        (\<lambda>(scope, fingerprint). bindR (safeContextError (en_err env 1))
        (\<lambda>_. bindR (requireR (\<not> en_done env 3) (contextWaitError (en_err env 5)))
        (\<lambda>_. bindR (requireR (\<not> en_done env 4) (contextWaitError (en_err env 6)))
        (\<lambda>_. Inr (fingerprintBytes fingerprint)))))) of
        Inl e \<Rightarrow> Some (Inl e, s)
      | Inr fingerprint \<Rightarrow>
          map_option (\<lambda>(attempt, s).
            case attempt of
              WriteWaits \<Rightarrow> (Inl ErrorInternal, s)
            | WriteReplays previous \<Rightarrow> (writeReplay fingerprint previous, s)
            | WriteFails e \<Rightarrow> (Inl e, s)
            | WriteReserved reservation base candidate response failEvent \<Rightarrow>
                deferS
                  (bindS (commitPreparation env reservation failEvent)
                     (writeCommit sha256 (en_done env 2) (en_err env 4) request fingerprint reservation
                        base candidate response))
                  (releaseCommitReservationLocked reservation) s)
            (writeAcquire fingerprint request wakes s))"

section \<open>The maps a version represents\<close>

definition viewTuples :: "Store \<Rightarrow> string \<Rightarrow> Tuple \<rightharpoonup> RelationshipTuple" where
  "viewTuples s n =
     (case st_data s n of None \<Rightarrow> Map.empty | Some ds \<Rightarrow> avlGet compareStoredTuple (dv_tuples (ds_current ds)))"

definition viewAttributes :: "Store \<Rightarrow> string \<Rightarrow> AttributeKey \<rightharpoonup> Attribute" where
  "viewAttributes s n =
     (case st_data s n of None \<Rightarrow> Map.empty | Some ds \<Rightarrow> attributeGet (dv_attributes (ds_current ds)))"

definition dataGeneration :: "Store \<Rightarrow> string \<Rightarrow> uint64" where
  "dataGeneration s n = (case st_data s n of None \<Rightarrow> 0 | Some ds \<Rightarrow> ds_generation ds)"

text \<open>What a request asks for, on the maps: drop the deleted keys, then put the written entries.\<close>

definition specTuples :: "WriteDataRequest \<Rightarrow> (Tuple \<rightharpoonup> RelationshipTuple) \<Rightarrow> (Tuple \<rightharpoonup> RelationshipTuple)" where
  "specTuples request m =
     (m |` (- (tk_tuple ` set (wr_tupleDeletes request)))) ++
     map_of (map (\<lambda>w. (rt_tuple w, w)) (wr_tupleWrites request))"

definition specAttributes :: "WriteDataRequest \<Rightarrow> (AttributeKey \<rightharpoonup> Attribute) \<Rightarrow> (AttributeKey \<rightharpoonup> Attribute)" where
  "specAttributes request m =
     (m |` (- set (wr_attributeDeletes request))) ++ map_of (map (\<lambda>a. (keyOf a, a)) (wr_attributeWrites request))"

definition specConflict :: "WriteDataRequest \<Rightarrow> (AttributeKey \<rightharpoonup> Attribute) \<Rightarrow> bool" where
  "specConflict request m \<longleftrightarrow>
     (\<exists>a \<in> set (wr_attributeWrites request). specCollides (m |` (- set (wr_attributeDeletes request))) (keyOf a))"

lemma tupleDeleteAll_spec:
  "avlInv compareStoredTuple t \<Longrightarrow> avlInv compareStoredTuple (tupleDeleteAll t ds) \<and>
   avlGet compareStoredTuple (tupleDeleteAll t ds) = avlGet compareStoredTuple t |` (- (tk_tuple ` set ds))"
proof (induction ds arbitrary: t)
  case (Cons d ds)
  have "avlInv compareStoredTuple (tupleDelete t (tk_tuple d))"
    "avlGet compareStoredTuple (tupleDelete t (tk_tuple d)) = (avlGet compareStoredTuple t)(tk_tuple d := None)"
    using Cons.prems by (simp_all add: tupleDelete_def tupleIndex.avlInv_avlDelete tupleIndex.avlGet_avlDelete)
  with Cons.IH [OF this(1)] show ?case
    by (auto simp: tupleDeleteAll_def restrict_map_def fun_eq_iff)
qed (simp add: tupleDeleteAll_def restrict_map_def)

lemma map_upd_add:
  assumes "\<forall>b \<in> set xs. f b = f a \<longrightarrow> b = a"
  shows "(m(f a \<mapsto> a)) ++ map_of (map (\<lambda>x. (f x, x)) xs) = m ++ map_of (map (\<lambda>x. (f x, x)) (a # xs))"
proof
  fix k
  show "((m(f a \<mapsto> a)) ++ map_of (map (\<lambda>x. (f x, x)) xs)) k = (m ++ map_of (map (\<lambda>x. (f x, x)) (a # xs))) k"
  proof (cases "map_of (map (\<lambda>x. (f x, x)) xs) k")
    case (Some v)
    then have "v \<in> set xs" "f v = k" by (auto dest!: map_of_SomeD)
    with assms have "k = f a \<longrightarrow> v = a" by blast
    with Some show ?thesis by (simp add: map_add_def)
  qed (simp add: map_add_def)
qed

lemma tupleSetAll_spec:
  "avlInv compareStoredTuple t \<Longrightarrow> noClash (\<lambda>a b. rt_tuple a = rt_tuple b) (set ws) \<Longrightarrow>
   avlInv compareStoredTuple (tupleSetAll t ws) \<and>
   avlGet compareStoredTuple (tupleSetAll t ws) =
     avlGet compareStoredTuple t ++ map_of (map (\<lambda>w. (rt_tuple w, w)) ws)"
proof (induction ws arbitrary: t)
  case (Cons w ws)
  let ?t = "tupleSet t (rt_tuple w) w"
  have t: "avlInv compareStoredTuple ?t"
    "avlGet compareStoredTuple ?t = (avlGet compareStoredTuple t)(rt_tuple w \<mapsto> w)"
    using Cons.prems(1) by (simp_all add: tupleSet_def tupleIndex.avlInv_avlSet tupleIndex.avlGet_avlSet)
  have clash: "noClash (\<lambda>a b. rt_tuple a = rt_tuple b) (set ws)"
    and same: "\<forall>b \<in> set ws. rt_tuple b = rt_tuple w \<longrightarrow> b = w"
    using Cons.prems(2) by (auto simp: noClash_def)
  have step: "tupleSetAll t (w # ws) = tupleSetAll ?t ws" by (simp add: tupleSetAll_def)
  from Cons.IH [OF t(1) clash] show ?case
    unfolding step t(2) map_upd_add [OF same] .
qed (simp add: tupleSetAll_def)

lemma attributeDeleteAll_spec:
  "attrInv r \<Longrightarrow> attrInv (attributeDeleteAll r ks) \<and>
   attributeGet (attributeDeleteAll r ks) = attributeGet r |` (- set ks)"
proof (induction ks arbitrary: r)
  case (Cons k ks)
  note del = attributeDelete_spec [OF Cons.prems, of k]
  with Cons.IH [of "attributeDelete r k"] show ?case
    by (auto simp: attributeDeleteAll_def restrict_map_def fun_eq_iff)
qed (simp add: attributeDeleteAll_def restrict_map_def)

text \<open>Keys of one request that do not clash cannot collide with each other's entries either.\<close>

lemma keyOf_comparable:
  "comparable (attributeFields a) (attributeFields b) \<longleftrightarrow> at_entity a = at_entity b \<and> comparable (at_path a) (at_path b)"
  unfolding pathKey_comparable by (simp add: comparable_def)

lemma specCollides_upd_iff:
  assumes "ak_entity k = at_entity a \<longrightarrow> ak_path k = at_path a \<or> \<not> comparable (ak_path k) (at_path a)"
  shows "specCollides (m(keyOf a \<mapsto> a)) k \<longleftrightarrow> specCollides m k"
proof -
  have "(m(keyOf a \<mapsto> a)) \<lparr>ak_entity = ak_entity k, ak_path = q\<rparr> = m \<lparr>ak_entity = ak_entity k, ak_path = q\<rparr>"
    if "q \<noteq> ak_path k" "comparable (ak_path k) q" for q
  proof -
    have "\<lparr>ak_entity = ak_entity k, ak_path = q\<rparr> \<noteq> keyOf a"
      using assms that by (auto simp: keyOf_def)
    then show ?thesis by simp
  qed
  then show ?thesis unfolding specCollides_def by metis
qed

lemma attributeSetAll_spec:
  assumes "attrInv r" "noClash (\<lambda>a b. comparable (attributeFields a) (attributeFields b)) (set as)"
  shows "case attributeSetAll r as of
      None \<Rightarrow> \<exists>a \<in> set as. specCollides (attributeGet r) (keyOf a)
    | Some r' \<Rightarrow> (\<forall>a \<in> set as. \<not> specCollides (attributeGet r) (keyOf a)) \<and> attrInv r' \<and>
        attributeGet r' = attributeGet r ++ map_of (map (\<lambda>a. (keyOf a, a)) as)"
  using assms
proof (induction as arbitrary: r)
  case (Cons a as)
  have clash: "noClash (\<lambda>a b. comparable (attributeFields a) (attributeFields b)) (set as)"
    using Cons.prems(2) by (simp add: noClash_def)
  obtain r1 ok where set: "attributeSet r a = (r1, ok)" by fastforce
  note spec = attributeSet_spec [OF Cons.prems(1) set]
  show ?case
  proof (cases ok)
    case False
    with set spec show ?thesis by (auto simp: specSet_def split: if_splits)
  next
    case True
    then have a: "\<not> specCollides (attributeGet r) (keyOf a)" "attributeGet r1 = (attributeGet r)(keyOf a \<mapsto> a)"
      "attrInv r1"
      using spec by (auto simp: specSet_def split: if_splits)
    have coll: "specCollides (attributeGet r1) (keyOf b) \<longleftrightarrow> specCollides (attributeGet r) (keyOf b)"
      if "b \<in> set as" for b
      unfolding a(2) using Cons.prems(2) that
      by (intro specCollides_upd_iff) (auto simp: noClash_def keyOf_comparable keyOf_def)
    have same: "\<forall>b \<in> set as. keyOf b = keyOf a \<longrightarrow> b = a"
      using Cons.prems(2) by (auto simp: noClash_def keyOf_comparable keyOf_def comparable_def)
    have step: "attributeSetAll r (a # as) = attributeSetAll r1 as" using set True by simp
    show ?thesis
      using Cons.IH [OF a(3) clash] a(1) coll unfolding step a(2) map_upd_add [OF same]
      by (cases "attributeSetAll r1 as") auto
  qed
qed simp

section \<open>The invariant of the data\<close>

definition versionOK :: "dataVersion \<Rightarrow> bool" where
  "versionOK v \<longleftrightarrow>
     avlInv compareStoredTuple (dv_tuples v) \<and> attrInv (dv_attributes v) \<and>
     (\<forall>t w. avlGet compareStoredTuple (dv_tuples v) t = Some w \<longrightarrow> rt_tuple w = t \<and> validRelationshipTuple w) \<and>
     (\<forall>k a. attributeGet (dv_attributes v) k = Some a \<longrightarrow> keyOf a = k \<and> validAttribute a)"

definition dataInv :: "Store \<Rightarrow> bool" where
  "dataInv s \<longleftrightarrow>
     (\<forall>n ds. st_data s n = Some ds \<longrightarrow>
        versionOK (ds_current ds) \<and> dv_generation (ds_current ds) = ds_generation ds \<and> ds_generation ds \<noteq> 0 \<and>
        (\<forall>k r. ds_idempotency ds k = Some r \<longrightarrow>
           \<not> dr_replayed (id_response r) \<and> 0 < dr_generation (id_response r) \<and>
           dr_generation (id_response r) \<le> ds_generation ds))"

lemma dataInv_frame: "dataInv s \<Longrightarrow> st_data s' = st_data s \<Longrightarrow> dataInv s'"
  by (simp add: dataInv_def)

lemma sameContents_data: "sameContents s s' \<Longrightarrow> dataInv s \<Longrightarrow> dataInv s'"
  by (rule dataInv_frame) (simp_all add: sameContents_def)

lemma versionOK_Nil: "versionOK \<lparr>dv_ref = r, dv_generation = g, dv_tuples = Nil, dv_attributes = Nil\<rparr>"
  by (simp add: versionOK_def tupleIndex.avlInv_Nil attrInv_Nil attributeGet_def entityGet_def)

text \<open>
  A version that is the current version of a namespace changed as a request asks, with the response
  that goes with it. It looks only at the data of the namespace.
\<close>

definition candidateFor ::
  "WriteDataRequest \<Rightarrow> dataVersion \<Rightarrow> WriteDataResponse \<Rightarrow> Store \<Rightarrow> bool" where
  "candidateFor request candidate response s \<longleftrightarrow>
     (let n = wr_namespace request; g = dataGeneration s n in
      g = wr_expectedGeneration request \<and> g \<noteq> MaxUint64 \<and>
      response = \<lparr>dr_generation = g + 1, dr_replayed = False\<rparr> \<and>
      dv_generation candidate = g + 1 \<and> versionOK candidate \<and>
      avlGet compareStoredTuple (dv_tuples candidate) = specTuples request (viewTuples s n) \<and>
      \<not> specConflict request (viewAttributes s n) \<and>
      attributeGet (dv_attributes candidate) = specAttributes request (viewAttributes s n))"

lemma candidateFor_frame:
  "candidateFor request candidate response s \<Longrightarrow> st_data s' (wr_namespace request) = st_data s (wr_namespace request) \<Longrightarrow>
   candidateFor request candidate response s'"
  by (simp add: candidateFor_def dataGeneration_def viewTuples_def viewAttributes_def)

lemma map_add_entries:
  assumes "\<forall>k v. m k = Some v \<longrightarrow> f v = k \<and> P v" "\<forall>x \<in> set xs. P x"
  shows "\<forall>k v. (m |` A ++ map_of (map (\<lambda>x. (f x, x)) xs)) k = Some v \<longrightarrow> f v = k \<and> P v"
proof (intro allI impI)
  fix k v
  assume v: "(m |` A ++ map_of (map (\<lambda>x. (f x, x)) xs)) k = Some v"
  show "f v = k \<and> P v"
  proof (cases "map_of (map (\<lambda>x. (f x, x)) xs) k")
    case None
    then have "m k = Some v" using v by (simp add: map_add_def restrict_map_def split: if_splits)
    with assms(1) show ?thesis by blast
  next
    case (Some w)
    then have "w \<in> set xs" "f w = k" by (auto dest!: map_of_SomeD)
    moreover have "w = v" using Some v by (simp add: map_add_def)
    ultimately show ?thesis using assms(2) by blast
  qed
qed

lemma viewsOK:
  assumes "dataInv s"
  shows "\<forall>t w. viewTuples s n t = Some w \<longrightarrow> rt_tuple w = t \<and> validRelationshipTuple w"
    "\<forall>k a. viewAttributes s n k = Some a \<longrightarrow> keyOf a = k \<and> validAttribute a"
  using assms by (auto simp: dataInv_def versionOK_def viewTuples_def viewAttributes_def split: option.splits)

lemma NewWriteDataResponse_Inr_iff:
  "NewWriteDataResponse g b = Inr r \<longleftrightarrow> g \<noteq> 0 \<and> r = \<lparr>dr_generation = g, dr_replayed = b\<rparr>"
  by (auto simp: NewWriteDataResponse_def)

lemma writePrepare_Inr:
  assumes inv: "dataInv s" and req: "validMutations request" "coherentMutations request"
    and ok: "writePrepare request s = Inr (base, candidate, response)"
  shows "candidateFor request candidate response s"
    and "nested (st_revisions s) (wr_namespace request) (wr_validationRevisionID request) \<noteq> None"
    and "writeUnchanged request base s"
proof -
  let ?n = "wr_namespace request"
  define v0 where "v0 = (case st_data s ?n of
      None \<Rightarrow> \<lparr>dv_ref = st_nextRef s, dv_generation = 0, dv_tuples = Nil, dv_attributes = Nil\<rparr>
    | Some ds \<Rightarrow> ds_current ds)"
  have v0: "versionOK v0" "avlGet compareStoredTuple (dv_tuples v0) = viewTuples s ?n"
    "attributeGet (dv_attributes v0) = viewAttributes s ?n"
    using inv versionOK_Nil
    by (auto simp: v0_def viewTuples_def viewAttributes_def dataInv_def attributeGet_def entityGet_def fun_eq_iff
        split: option.split)
  obtain ar where ar: "attributeSetAll (attributeDeleteAll (dv_attributes v0) (wr_attributeDeletes request))
      (wr_attributeWrites request) = Some ar"
    and g: "dataGeneration s ?n = wr_expectedGeneration request" "dataGeneration s ?n \<noteq> MaxUint64"
    and c: "base = v0" "candidate = \<lparr>dv_ref = st_nextRef s + 1, dv_generation = dataGeneration s ?n + 1,
      dv_tuples = tupleSetAll (tupleDeleteAll (dv_tuples v0) (wr_tupleDeletes request)) (wr_tupleWrites request),
      dv_attributes = ar\<rparr>" "response = \<lparr>dr_generation = dataGeneration s ?n + 1, dr_replayed = False\<rparr>"
    and rev: "nested (st_revisions s) ?n (wr_validationRevisionID request) \<noteq> None"
    using ok
    by (auto simp: writePrepare_def Let_def bindR_Inr_iff requireR_def dataGeneration_def v0_def
        NewWriteDataResponse_Inr_iff split: option.splits if_splits)
  have clash: "noClash (\<lambda>a b. rt_tuple a = rt_tuple b) (set (wr_tupleWrites request))"
    "noClash (\<lambda>a b. comparable (attributeFields a) (attributeFields b)) (set (wr_attributeWrites request))"
    using req(2) by (simp_all add: coherentMutations_def)
  have "avlInv compareStoredTuple (dv_tuples v0)" using v0(1) by (simp add: versionOK_def)
  then have td: "avlInv compareStoredTuple (tupleDeleteAll (dv_tuples v0) (wr_tupleDeletes request))"
    "avlGet compareStoredTuple (tupleDeleteAll (dv_tuples v0) (wr_tupleDeletes request)) =
      viewTuples s ?n |` (- (tk_tuple ` set (wr_tupleDeletes request)))"
    using tupleDeleteAll_spec v0(2) by simp_all
  have "attrInv (dv_attributes v0)" using v0(1) by (simp add: versionOK_def)
  then have ad: "attrInv (attributeDeleteAll (dv_attributes v0) (wr_attributeDeletes request))"
    "attributeGet (attributeDeleteAll (dv_attributes v0) (wr_attributeDeletes request)) =
      viewAttributes s ?n |` (- set (wr_attributeDeletes request))"
    using attributeDeleteAll_spec v0(3) by simp_all
  have tuples: "avlInv compareStoredTuple (dv_tuples candidate)"
    "avlGet compareStoredTuple (dv_tuples candidate) = specTuples request (viewTuples s ?n)"
    using tupleSetAll_spec [OF td(1) clash(1)] by (simp_all add: c specTuples_def td(2))
  have attrs: "attrInv (dv_attributes candidate)" "\<not> specConflict request (viewAttributes s ?n)"
    "attributeGet (dv_attributes candidate) = specAttributes request (viewAttributes s ?n)"
    using attributeSetAll_spec [OF ad(1) clash(2)] unfolding ar ad(2)
    by (simp_all add: c specAttributes_def specConflict_def)
  have "versionOK candidate"
    unfolding versionOK_def tuples(2) attrs(3) specTuples_def specAttributes_def
    using req(1)
    by (intro conjI tuples(1) attrs(1) map_add_entries viewsOK [OF inv]) (simp_all add: validMutations_def)
  then show "candidateFor request candidate response s"
    using g tuples(2) attrs(2,3) by (simp add: candidateFor_def Let_def c)
  show "nested (st_revisions s) ?n (wr_validationRevisionID request) \<noteq> None" by (rule rev)
  show "writeUnchanged request base s"
    using g(1) inv by (auto simp: writeUnchanged_def c v0_def dataGeneration_def split: option.splits)
qed

section \<open>What WriteData does\<close>

definition dataReserved :: "bytes \<Rightarrow> WriteDataRequest \<Rightarrow> Store \<Rightarrow> commitReservation" where
  "dataReserved fingerprint request s =
     \<lparr>cr_ref = st_nextRef s, cr_key = dataReservationKey (wr_namespace request), cr_operation = ''data'',
      cr_idempotencyKey = wr_idempotencyKey request, cr_fingerprint = fingerprint\<rparr>"

lemma release_restores:
  assumes "st_reservations s (cr_key q) = None" "st_reservations s' = (st_reservations s)(cr_key q \<mapsto> q)"
  shows "releaseCommitReservationLocked q s' = s'\<lparr>st_reservations := st_reservations s\<rparr>"
  using assms by (simp add: releaseCommitReservationLocked_def ownsCommitReservationLocked_def fun_upd_idem)

lemma writeReserve_cases:
  assumes "writeReserve fp request s = (a, s')"
  obtains (waits) "a = WriteWaits" "s' = s" "st_reservations s (dataReservationKey (wr_namespace request)) \<noteq> None"
  | (fails) e where "a = WriteFails e" "s' = s\<lparr>st_nextRef := st_nextRef s'\<rparr>"
  | (replays) previous where "a = WriteReplays previous" "s' = s\<lparr>st_nextRef := st_nextRef s'\<rparr>"
      "idempotencyRecord (st_data s (wr_namespace request)) (wr_idempotencyKey request) = Some previous"
  | (reserves) q base candidate response s0 where
      "a = WriteReserved q base candidate response (st_failNextEvent s)" "q = dataReserved fp request s"
      "st_reservations s (dataReservationKey (wr_namespace request)) = None" "sameContents s s0" "sameContents s0 s"
      "s' = s\<lparr>st_reservations := (st_reservations s)(dataReservationKey (wr_namespace request) \<mapsto> q),
        st_nextRef := st_nextRef s'\<rparr>"
      "idempotencyRecord (st_data s (wr_namespace request)) (wr_idempotencyKey request) = None"
      "writePrepare request s0 = Inr (base, candidate, response)"
proof -
  let ?k = "dataReservationKey (wr_namespace request)" and ?q = "dataReserved fp request s"
  let ?st = "s\<lparr>st_nextRef := st_nextRef s + 1, st_reservations := (st_reservations s)(?k \<mapsto> ?q)\<rparr>"
  show thesis
  proof (cases "st_reservations s ?k")
    case (Some pending)
    then have "reserveCommitLocked ?k s = (None, s)" by (simp add: reserveCommitLocked_def)
    with assms Some waits fails [of ErrorConflict] show thesis
      by (auto simp: writeReserve_def Let_def split: if_splits)
  next
    case None
    have key: "cr_key ?q = ?k" by (simp add: dataReserved_def)
    have rel: "releaseCommitReservationLocked ?q ?st = s\<lparr>st_nextRef := st_nextRef s + 1\<rparr>"
      using release_restores [of s ?q ?st] None by (simp add: key)
    have run: "writeReserve fp request s =
        (case idempotencyRecord (st_data s (wr_namespace request)) (wr_idempotencyKey request) of
           Some previous \<Rightarrow> (WriteReplays previous, releaseCommitReservationLocked ?q ?st)
         | None \<Rightarrow> (case writePrepare request ?st of
             Inl e \<Rightarrow> (WriteFails e, releaseCommitReservationLocked ?q ?st)
           | Inr (base, candidate, response) \<Rightarrow>
               (WriteReserved ?q base candidate response (st_failNextEvent s), ?st\<lparr>st_nextRef := st_nextRef s + 3\<rparr>)))"
    proof -
      let ?r = "\<lparr>cr_ref = st_nextRef s, cr_key = ?k, cr_operation = [], cr_idempotencyKey = [], cr_fingerprint = []\<rparr>"
      let ?sr = "s\<lparr>st_reservations := (st_reservations s)(?k \<mapsto> ?r), st_nextRef := st_nextRef s + 1\<rparr>"
      have res: "reserveCommitLocked ?k s = (Some ?r, ?sr)"
        using None by (simp add: reserveCommitLocked_def Let_def)
      have q: "?r\<lparr>cr_operation := ''data'', cr_idempotencyKey := wr_idempotencyKey request, cr_fingerprint := fp\<rparr> = ?q"
        by (simp add: dataReserved_def)
      have st: "?sr\<lparr>st_reservations := (st_reservations ?sr)(?k \<mapsto> ?q)\<rparr> = ?st" by simp
      show ?thesis
        unfolding writeReserve_def Let_def res prod.case option.case q st by (simp split: option.split sum.split)
    qed
    show thesis
    proof (cases "idempotencyRecord (st_data s (wr_namespace request)) (wr_idempotencyKey request)")
      case (Some previous)
      with assms run rel show thesis by (intro replays) auto
    next
      case new: None
      show thesis
      proof (cases "writePrepare request ?st")
        case (Inl e)
        with assms run rel new show thesis by (intro fails) auto
      next
        case (Inr bcr)
        obtain b c r where bcr: "bcr = (b, c, r)" by (cases bcr) auto
        with assms run new Inr have r: "a = WriteReserved ?q b c r (st_failNextEvent s)"
          "s' = ?st\<lparr>st_nextRef := st_nextRef s + 3\<rparr>" by simp_all
        show thesis
          by (rule reserves [OF r(1) refl None, of ?st]) (use r(2) new Inr bcr in \<open>simp_all add: sameContents_def\<close>)
      qed
    qed
  qed
qed

lemma writeAcquire_Some:
  assumes "writeAcquire fp request wakes s = Some (a, s')"
  obtains s0 where "s0 = s \<or> s0 \<in> ww_store ` set wakes"
    "writeReserve fp request s0 = (a, s') \<or> (\<exists>e. a = WriteFails e \<and> s' = s0)" "a \<noteq> WriteWaits"
  using assms
proof (induction wakes arbitrary: s thesis)
  case Nil
  then show ?case
    by (auto split: prod.splits writeAttempt.splits dest: spec [of _ s])
next
  case (Cons w wakes)
  obtain b s1 where b: "writeReserve fp request s = (b, s1)" by fastforce
  show ?case
  proof (cases "b = WriteWaits")
    case False
    with b Cons.prems(2) have "(a, s') = (b, s1)" by (cases b) simp_all
    with b False show ?thesis by (intro Cons.prems(1) [of s]) simp_all
  next
    case True
    show ?thesis
    proof (cases "ww_signaled w")
      case True
      with b \<open>b = WriteWaits\<close> Cons.prems(2) show ?thesis by (intro Cons.prems(1) [of "ww_store w"]) auto
    next
      case False
      with b True Cons.prems(2) have "writeAcquire fp request wakes (ww_store w) = Some (a, s')" by simp
      then show ?thesis
        by (rule Cons.IH [rotated]) (use Cons.prems(1) in auto)
    qed
  qed
qed

definition dataEvent :: "WriteDataRequest \<Rightarrow> uint64 \<Rightarrow> StateEvent" where
  "dataEvent request generation =
     \<lparr>ev_namespace = wr_namespace request, ev_cursor = [], ev_kind = StateEventDataWritten, ev_revisionID = [],
      ev_slot = [], ev_slotGeneration = 0, ev_dataGeneration = generation, ev_occurredAt = 0\<rparr>"

lemma writeCommit_cases:
  assumes "writeCommit sha256 d err request fp q base candidate response t s = (x, s')"
  obtains (fails) e where "x = Inl e" "sameContents s s'" "st_reservations s' = st_reservations s"
  | (exists) previous where "s' = s" "x = writeReplay fp previous"
      "idempotencyRecord (st_data s (wr_namespace request)) (wr_idempotencyKey request) = Some previous"
  | (commits) t1 s1 e where "x = Inr response" "effectiveTimeLocked t s = (t1, s1)"
      "idempotencyRecord (st_data s (wr_namespace request)) (wr_idempotencyKey request) = None"
      "writeUnchanged request base s"
      "nested (st_revisions s) (wr_namespace request) (wr_validationRevisionID request) \<noteq> None"
      "newEventLocked sha256 (dataEvent request (dv_generation candidate)) t1 s1 = Inr e"
      "s' = appendEventLocked e t1 (notifyGenerationWaitersLocked (wr_namespace request)
        (s1\<lparr>st_data := (st_data s1)(wr_namespace request \<mapsto>
          writeStore request fp candidate response (st_data s1 (wr_namespace request)))\<rparr>))"
proof -
  let ?n = "wr_namespace request"
  obtain t1 s1 where eff: "effectiveTimeLocked t s = (t1, s1)"
    by (cases "effectiveTimeLocked t s")
  then have s1: "sameContents s s1" "st_reservations s1 = st_reservations s"
    by (auto simp: effectiveTimeLocked_def sameContents_def split: if_splits)
  note run = assms [unfolded writeCommit_def Let_def dataEvent_def [symmetric]]
  show thesis
  proof (cases "ownsCommitReservationLocked q s \<and> \<not> d \<and> writeUnchanged request base s \<and>
      nested (st_revisions s) ?n (wr_validationRevisionID request) \<noteq> None")
    case False
    with run fails show thesis by (auto simp: requireR_def split: if_splits)
  next
    case ok: True
    show thesis
    proof (cases "idempotencyRecord (st_data s ?n) (wr_idempotencyKey request)")
      case (Some previous)
      with run ok show thesis by (intro exists) (auto simp: requireR_def)
    next
      case None
      show thesis
      proof (cases "nextEventSequenceLocked ?n s")
        case (Inl e)
        with run ok None fails [of e] show thesis by (auto simp: requireR_def)
      next
        case (Inr sq)
        show thesis
        proof (cases "newEventLocked sha256 (dataEvent request (dv_generation candidate)) t1 s1")
          case (Inl e)
          with run ok None Inr eff s1 fails [of e] show thesis
            by (simp add: requireR_def bindS_def [of "\<lambda>s. case effectiveTimeLocked t s of (t, s) \<Rightarrow> (Inr t, s)"])
        next
          case (Inr e)
          with run ok None \<open>nextEventSequenceLocked ?n s = Inr sq\<close> eff commits [OF _ eff None _ _ Inr] show thesis
            by (simp add: requireR_def bindS_def [of "\<lambda>s. case effectiveTimeLocked t s of (t, s) \<Rightarrow> (Inr t, s)"])
        qed
      qed
    qed
  qed
qed

text \<open>
  A committed write: the data had the expected generation and no record of the request's key, now it
  has the next one, holds what the request asks for, remembers the request, and one event says so.
  Nothing else changed and nobody waits for an older generation any more.
\<close>

definition written :: "WriteDataRequest \<Rightarrow> bytes \<Rightarrow> WriteDataResponse \<Rightarrow> Store \<Rightarrow> Store \<Rightarrow> bool" where
  "written request fp response s s' \<longleftrightarrow>
     (let n = wr_namespace request; g = wr_expectedGeneration request in
      dataGeneration s n = g \<and> g \<noteq> MaxUint64 \<and> response = \<lparr>dr_generation = g + 1, dr_replayed = False\<rparr> \<and>
      nested (st_revisions s) n (wr_validationRevisionID request) \<noteq> None \<and>
      idempotencyRecord (st_data s n) (wr_idempotencyKey request) = None \<and>
      dataGeneration s' n = g + 1 \<and>
      viewTuples s' n = specTuples request (viewTuples s n) \<and>
      \<not> specConflict request (viewAttributes s n) \<and>
      viewAttributes s' n = specAttributes request (viewAttributes s n) \<and>
      (\<forall>k. idempotencyRecord (st_data s' n) k =
         (if k = wr_idempotencyKey request then Some \<lparr>id_fingerprint = fp, id_response = response\<rparr>
          else idempotencyRecord (st_data s n) k)) \<and>
      (\<forall>m. m \<noteq> n \<longrightarrow> st_data s' m = st_data s m) \<and>
      st_revisions s' = st_revisions s \<and> st_revisionOrder s' = st_revisionOrder s \<and> st_slots s' = st_slots s \<and>
      st_waiters s' n = None \<and> st_effectiveTime s \<le> st_effectiveTime s' \<and>
      (\<forall>m. highWater s' m = highWater s m + (if m = n then 1 else 0)) \<and>
      eventLog s' n \<noteq> [] \<and>
      er_value (last (eventLog s' n)) =
        (dataEvent request (g + 1))\<lparr>ev_cursor := ev_cursor (er_value (last (eventLog s' n))),
          ev_occurredAt := st_effectiveTime s'\<rparr>)"

definition writeOutcome ::
  "WriteDataRequest \<Rightarrow> bytes \<Rightarrow> WriteDataResponse result \<Rightarrow> Store \<Rightarrow> Store \<Rightarrow> bool" where
  "writeOutcome request fp x s s' \<longleftrightarrow>
     (case x of
        Inl e \<Rightarrow> sameContents s s'
      | Inr r \<Rightarrow>
          (if dr_replayed r
           then sameContents s s' \<and>
             (\<exists>previous. idempotencyRecord (st_data s (wr_namespace request)) (wr_idempotencyKey request) = Some previous \<and>
                id_fingerprint previous = fp \<and> dr_generation (id_response previous) = dr_generation r)
           else written request fp r s s'))"

lemma writeOutcome_Inl [simp]: "writeOutcome request fp (Inl e) s s' \<longleftrightarrow> sameContents s s'"
  by (simp add: writeOutcome_def)

lemma writeReplay_outcome:
  assumes "idempotencyRecord (st_data s (wr_namespace request)) (wr_idempotencyKey request) = Some previous"
    "sameContents s s'"
  shows "writeOutcome request fp (writeReplay fp previous) s s'"
  using assms by (auto simp: writeOutcome_def writeReplay_def NewWriteDataResponse_def)

lemma sameContents_writeOutcome:
  assumes "sameContents s s1" "writeOutcome request fp x s1 s2" "s' = s2\<lparr>st_reservations := m\<rparr>"
  shows "writeOutcome request fp x s s'"
proof -
  have eqs: "st_slots s1 = st_slots s" "st_revisions s1 = st_revisions s" "st_revisionOrder s1 = st_revisionOrder s"
    "st_data s1 = st_data s" "highWater s1 = highWater s" and le: "st_effectiveTime s \<le> st_effectiveTime s1"
    using assms(1) sameContents_reads(2) by (auto simp: sameContents_def)
  then have views: "dataGeneration s1 = dataGeneration s" "viewTuples s1 = viewTuples s" "viewAttributes s1 = viewAttributes s"
    by (simp_all add: dataGeneration_def viewTuples_def viewAttributes_def fun_eq_iff)
  have fields: "st_revisions s' = st_revisions s2" "st_revisionOrder s' = st_revisionOrder s2" "st_slots s' = st_slots s2"
    "st_data s' = st_data s2" "st_effectiveTime s' = st_effectiveTime s2" "highWater s' = highWater s2"
    "eventLog s' = eventLog s2" "st_waiters s' = st_waiters s2" "dataGeneration s' = dataGeneration s2"
    "viewTuples s' = viewTuples s2" "viewAttributes s' = viewAttributes s2"
    by (simp_all add: assms(3) highWater_def eventLog_def dataGeneration_def viewTuples_def viewAttributes_def fun_eq_iff)
  have "written request fp r s s'" if "written request fp r s1 s2" for r
    using that le unfolding written_def Let_def eqs views fields by (blast intro: order_trans)
  moreover have "sameContents s s'" if "sameContents s1 s2"
    using that assms(1,3) sameContents_trans by simp
  ultimately show ?thesis
    using assms(2) eqs(4) unfolding writeOutcome_def by (simp split: sum.splits if_splits)
qed

lemma writeCommit_written:
  assumes inv: "eventsInv sha256 s" "dataInv s" "slotsInv s"
    and c: "candidateFor request candidate response s"
    and new: "idempotencyRecord (st_data s (wr_namespace request)) (wr_idempotencyKey request) = None"
    and rev: "nested (st_revisions s) (wr_namespace request) (wr_validationRevisionID request) \<noteq> None"
    and eff: "effectiveTimeLocked t s = (t1, s1)"
    and ev: "newEventLocked sha256 (dataEvent request (dv_generation candidate)) t1 s1 = Inr e"
    and s': "s' = appendEventLocked e t1 (notifyGenerationWaitersLocked (wr_namespace request)
        (s1\<lparr>st_data := (st_data s1)(wr_namespace request \<mapsto>
          writeStore request fp candidate response (st_data s1 (wr_namespace request)))\<rparr>))"
  shows "written request fp response s s'" "eventsInv sha256 s'" "dataInv s'" "slotsInv s'"
    "st_reservations s' = st_reservations s" "st_revisions s' = st_revisions s" "st_revisionOrder s' = st_revisionOrder s"
    and "response = \<lparr>dr_generation = wr_expectedGeneration request + 1, dr_replayed = False\<rparr>"
proof -
  let ?n = "wr_namespace request"
  let ?ds = "writeStore request fp candidate response (st_data s ?n)"
  note eff' = effectiveTimeLocked_spec [OF eff]
  have s1: "st_revisions s1 = st_revisions s" "st_revisionOrder s1 = st_revisionOrder s" "st_slots s1 = st_slots s"
    "st_data s1 = st_data s" "st_reservations s1 = st_reservations s"
    using eff'(3) by simp_all
  have n: "ev_namespace (dataEvent request g) = ?n" for g by (simp add: dataEvent_def)
  define s2 where "s2 = notifyGenerationWaitersLocked ?n (s1\<lparr>st_data := (st_data s1)(?n \<mapsto> ?ds)\<rparr>)"
  have s2: "s' = appendEventLocked e t1 s2" by (simp add: s' s2_def s1)
  have "st_events s2 = st_events s1" "st_effectiveTime s2 = st_effectiveTime s1" "st_cursorKey s2 = st_cursorKey s1"
    "st_cursorKeyOK s2 = st_cursorKeyOK s1"
    by (simp_all add: s2_def notifyGenerationWaitersLocked_def)
  note ce = commitEvent_effect [OF inv(1) eff ev this, folded s2, unfolded n]
  have data: "st_data s' = (st_data s)(?n \<mapsto> ?ds)" "st_waiters s' ?n = None"
    by (simp_all add: s2 s2_def s1 notifyGenerationWaitersLocked_def)
  have frame: "st_reservations s' = st_reservations s" "st_revisions s' = st_revisions s"
    "st_revisionOrder s' = st_revisionOrder s" "st_slots s' = st_slots s" "st_effectiveTime s' = t1"
    using eff'(1) by (simp_all add: s2 s2_def s1 notifyGenerationWaitersLocked_def)
  note c' = c [unfolded candidateFor_def Let_def]
  have views: "dataGeneration s' ?n = dv_generation candidate"
    "viewTuples s' ?n = avlGet compareStoredTuple (dv_tuples candidate)"
    "viewAttributes s' ?n = attributeGet (dv_attributes candidate)"
    by (simp_all add: dataGeneration_def viewTuples_def viewAttributes_def data writeStore_def)
  have idem: "\<forall>k. idempotencyRecord (st_data s' ?n) k =
      (if k = wr_idempotencyKey request then Some \<lparr>id_fingerprint = fp, id_response = response\<rparr>
       else idempotencyRecord (st_data s ?n) k)"
    by (simp add: idempotencyRecord_def data writeStore_def split: option.split)
  have g: "dv_generation candidate = wr_expectedGeneration request + 1" using c' by simp
  show resp: "response = \<lparr>dr_generation = wr_expectedGeneration request + 1, dr_replayed = False\<rparr>" using c' by simp
  show "written request fp response s s'"
    unfolding written_def Let_def views frame(5)
    using c' new rev ce(2,3) eff'(1,2)
    by (intro conjI ce(4) [unfolded g] resp idem frame data(2)) (auto simp: data(1))
  show "eventsInv sha256 s'" by (rule ce(1))
  have "dataGeneration s ?n \<noteq> MaxUint64" using c' by blast
  from unat_succ [OF this] have mono: "dataGeneration s ?n \<le> dataGeneration s ?n + 1"
    and nz: "dataGeneration s ?n + 1 \<noteq> 0"
    by (auto simp: word_le_nat_alt)
  show "dataInv s'"
  proof -
    have old: "versionOK (ds_current d) \<and> dv_generation (ds_current d) = ds_generation d \<and> ds_generation d \<noteq> 0 \<and>
        (\<forall>k r. ds_idempotency d k = Some r \<longrightarrow> \<not> dr_replayed (id_response r) \<and> 0 < dr_generation (id_response r) \<and>
           dr_generation (id_response r) \<le> ds_generation d)" if "st_data s m = Some d" for m d
      using inv(2) that by (simp add: dataInv_def)
    have gen: "ds_generation d = dataGeneration s ?n" if "st_data s ?n = Some d" for d
      using that by (simp add: dataGeneration_def)
    have "dr_generation (id_response r) \<le> dataGeneration s ?n + 1" "\<not> dr_replayed (id_response r)"
      "0 < dr_generation (id_response r)" if "ds_idempotency ?ds k = Some r" for k r
      using that c' old [of ?n] gen mono nz order_trans [OF _ mono]
      by (auto simp: writeStore_def word_gt_0 split: if_splits option.splits)
    then show ?thesis
      using old c' nz by (auto simp: dataInv_def data(1) writeStore_def)
  qed
  show "slotsInv s'"
    by (rule slotsInv_frame [OF inv(3)]) (use eff'(1,2) in \<open>simp_all add: frame\<close>)
  show "st_reservations s' = st_reservations s" "st_revisions s' = st_revisions s" "st_revisionOrder s' = st_revisionOrder s"
    by (rule frame)+
qed

text \<open>The invariants of all parts of the store together.\<close>

definition storeInv :: "(bytes \<Rightarrow> bytes) \<Rightarrow> ('art, 'm) Dsl_scheme \<Rightarrow> Store \<Rightarrow> bool" where
  "storeInv sha256 dsl s \<longleftrightarrow> eventsInv sha256 s \<and> revisionsInv sha256 dsl s \<and> slotsInv s \<and> dataInv s"

lemma sameContents_store: "sameContents s s' \<Longrightarrow> storeInv sha256 dsl s \<Longrightarrow> storeInv sha256 dsl s'"
  by (simp add: storeInv_def sameContents_events sameContents_revisions sameContents_slots sameContents_data)

lemma writeReserved_outcome:
  assumes inv: "storeInv sha256 dsl s"
    and q: "q = dataReserved fp request s" "st_reservations s (dataReservationKey (wr_namespace request)) = None"
    and c: "candidateFor request candidate response s"
    and s1: "sameContents s s1" "st_reservations s1 = (st_reservations s)(dataReservationKey (wr_namespace request) \<mapsto> q)"
    and run: "deferS (bindS (commitPreparation env q f) (writeCommit sha256 d err request fp q base candidate response))
      (releaseCommitReservationLocked q) s1 = (x, s')"
  shows "storeInv sha256 dsl s' \<and> st_reservations s' = st_reservations s \<and> writeOutcome request fp x s s'"
proof -
  let ?k = "dataReservationKey (wr_namespace request)"
  have key: "cr_key q = ?k" by (simp add: q(1) dataReserved_def)
  obtain y s2 where prep: "commitPreparation env q f s1 = (y, s2)" by fastforce
  have s02: "sameContents s s2" "st_reservations s2 = (st_reservations s)(?k \<mapsto> q)"
    using commitPreparation_contents [OF prep] sameContents_trans [OF s1(1)] s1(2) by simp_all
  have inv2: "storeInv sha256 dsl s2" by (rule sameContents_store [OF s02(1) inv])
  then have invs: "eventsInv sha256 s2" "dataInv s2" "slotsInv s2" "revisionsInv sha256 dsl s2"
    by (simp_all add: storeInv_def)
  have c2: "candidateFor request candidate response s2"
    by (rule candidateFor_frame [OF c]) (use s02(1) in \<open>simp add: sameContents_def\<close>)
  obtain s3 where s3: "writeOutcome request fp x s2 s3" "storeInv sha256 dsl s3"
      "st_reservations s3 = (st_reservations s)(?k \<mapsto> q)" "s' = releaseCommitReservationLocked q s3"
  proof (cases y)
    case (Inl e)
    with run prep have "x = Inl e" "s' = releaseCommitReservationLocked q s2"
      by (simp_all add: deferS_def bindS_def)
    then show thesis using that [of s2] inv2 s02(2) by simp
  next
    case (Inr t)
    obtain s3 where cm: "writeCommit sha256 d err request fp q base candidate response t s2 = (x, s3)"
        "s' = releaseCommitReservationLocked q s3"
      using run prep Inr
      by (cases "writeCommit sha256 d err request fp q base candidate response t s2") (simp add: deferS_def bindS_def)
    from cm(1) show thesis
    proof (cases rule: writeCommit_cases)
      case (fails e)
      then show thesis
        using that [of s3] cm(2) s02(2) sameContents_store [OF fails(2) inv2] by simp
    next
      case (exists previous)
      then show thesis
        using that [of s3] cm(2) s02(2) inv2 writeReplay_outcome [OF exists(3) sameContents_refl] by simp
    next
      case (commits t1 s4 e)
      note w = writeCommit_written [OF invs(1-3) c2 commits(3,5,2,6,7)]
      show thesis
        using that [of s3] cm(2) s02(2) w(1-5,8) commits(1) revisionsInv_frame [OF invs(4) w(6,7)]
        by (simp add: writeOutcome_def storeInv_def)
    qed
  qed
  have s': "s' = s3\<lparr>st_reservations := st_reservations s\<rparr>"
    unfolding s3(4) by (rule release_restores) (use q(2) s3(3) key in simp_all)
  have "sameContents s3 s'" by (simp add: s')
  then show ?thesis
    using sameContents_store [OF _ s3(2)] sameContents_writeOutcome [OF s02(1) s3(1) s'] s' by simp
qed

lemma WriteData_prelude:
  "bindR (safeContextError (en_err env 0))
     (\<lambda>_. bindR (FingerprintWriteData sha256 request)
     (\<lambda>(scope, fingerprint). bindR (safeContextError (en_err env 1))
     (\<lambda>_. bindR (requireR (\<not> en_done env 3) (contextWaitError (en_err env 5)))
     (\<lambda>_. bindR (requireR (\<not> en_done env 4) (contextWaitError (en_err env 6)))
     (\<lambda>_. Inr (fingerprintBytes fingerprint)))))) = Inr fp \<Longrightarrow>
   \<exists>scope f c. FingerprintWriteData sha256 request = Inr (scope, f) \<and> fp = fingerprintBytes f \<and>
     NewWriteDataRequest request = Inr c"
  by (auto simp: bindR_Inr_iff requireR_def FingerprintWriteData_def Let_def split: if_splits)

lemma WriteData_outcome:
  assumes inv: "\<forall>s0. s0 = s \<or> s0 \<in> ww_store ` set wakes \<longrightarrow> storeInv sha256 dsl s0"
    and run: "WriteData sha256 env wakes request s = Some (x, s')"
  obtains s0 where "s0 = s \<or> s0 \<in> ww_store ` set wakes" "storeInv sha256 dsl s'"
    "st_reservations s' = st_reservations s0"
    "\<And>scope f. FingerprintWriteData sha256 request = Inr (scope, f) \<Longrightarrow> writeOutcome request (fingerprintBytes f) x s0 s'"
    "(\<forall>scope f. FingerprintWriteData sha256 request \<noteq> Inr (scope, f)) \<Longrightarrow> (\<exists>e. x = Inl e) \<and> s' = s0"
proof (cases "bindR (safeContextError (en_err env 0))
        (\<lambda>_. bindR (FingerprintWriteData sha256 request)
        (\<lambda>(scope, fingerprint). bindR (safeContextError (en_err env 1))
        (\<lambda>_. bindR (requireR (\<not> en_done env 3) (contextWaitError (en_err env 5)))
        (\<lambda>_. bindR (requireR (\<not> en_done env 4) (contextWaitError (en_err env 6)))
        (\<lambda>_. Inr (fingerprintBytes fingerprint))))))")
  case (Inl e)
  with run have "x = Inl e" "s' = s" by (simp_all add: WriteData_def)
  with inv show thesis by (intro that [of s]) auto
next
  case (Inr fp)
  from WriteData_prelude [OF this] obtain scope f c where fp: "FingerprintWriteData sha256 request = Inr (scope, f)"
    "fp = fingerprintBytes f" "NewWriteDataRequest request = Inr c" by blast
  have req: "validMutations request" "coherentMutations request"
    using fp(3) by (simp_all add: NewWriteDataRequest_Inr_iff)
  from run Inr obtain a s1 where acq: "writeAcquire fp request wakes s = Some (a, s1)"
    by (auto simp del: writeAcquire.simps simp: WriteData_def)
  note run' = run [unfolded WriteData_def Inr sum.case acq, simplified]
  from acq obtain s0 where s0: "s0 = s \<or> s0 \<in> ww_store ` set wakes"
    and res: "writeReserve fp request s0 = (a, s1) \<or> (\<exists>e. a = WriteFails e \<and> s1 = s0)" "a \<noteq> WriteWaits"
    by (rule writeAcquire_Some)
  have inv0: "storeInv sha256 dsl s0" using inv s0 by blast
  have out: "storeInv sha256 dsl s' \<and> st_reservations s' = st_reservations s0 \<and> writeOutcome request fp x s0 s'"
  proof (cases "\<exists>e. a = WriteFails e \<and> s1 = s0")
    case True
    with run' inv0 show ?thesis by auto
  next
    case False
    with res have "writeReserve fp request s0 = (a, s1)" by blast
    then show ?thesis
    proof (cases rule: writeReserve_cases)
      case waits
      with res(2) show ?thesis by simp
    next
      case (fails e)
      have same: "sameContents s0 s1" "st_reservations s1 = st_reservations s0"
        by (subst fails(2); simp)+
      with run' fails(1) sameContents_store [OF same(1) inv0] show ?thesis by auto
    next
      case (replays previous)
      have same: "sameContents s0 s1" "st_reservations s1 = st_reservations s0"
        by (subst replays(2); simp)+
      with run' replays(1) sameContents_store [OF same(1) inv0] writeReplay_outcome [OF replays(3) same(1)]
      show ?thesis by auto
    next
      case (reserves q base candidate response s2)
      have "dataInv s2" using sameContents_store [OF reserves(4) inv0] by (simp add: storeInv_def)
      note prep = writePrepare_Inr [OF this req reserves(8)]
      have c: "candidateFor request candidate response s0"
        by (rule candidateFor_frame [OF prep(1)]) (use reserves(4) in \<open>simp add: sameContents_def\<close>)
      have same: "sameContents s0 s1" "st_reservations s1 = (st_reservations s0)(dataReservationKey (wr_namespace request) \<mapsto> q)"
        by (subst reserves(6); simp)+
      from run' reserves(1) have "deferS (bindS (commitPreparation env q (st_failNextEvent s0))
          (writeCommit sha256 (en_done env 2) (en_err env 4) request fp q base candidate response))
          (releaseCommitReservationLocked q) s1 = (x, s')" by simp
      from writeReserved_outcome [OF inv0 reserves(2,3) c same this] show ?thesis .
    qed
  qed
  show thesis
    by (rule that [OF s0]) (use out fp in auto)
qed

section \<open>Uncontended writes\<close>

text \<open>A request whose key is already recorded is answered from the record.\<close>

lemma WriteData_recorded:
  assumes live: "liveEnv env t" and fp: "FingerprintWriteData sha256 request = Inr (scope, f)"
    and free: "st_reservations s (dataReservationKey (wr_namespace request)) = None"
    and old: "idempotencyRecord (st_data s (wr_namespace request)) (wr_idempotencyKey request) = Some previous"
  shows "\<exists>s'. WriteData sha256 env [] request s = Some (writeReplay (fingerprintBytes f) previous, s') \<and> sameContents s s'"
proof -
  obtain a s' where res: "writeReserve (fingerprintBytes f) request s = (a, s')" by fastforce
  then have a: "a = WriteReplays previous \<and> sameContents s s'"
  proof (cases rule: writeReserve_cases)
    case (fails e)
    then show ?thesis using res free old
      by (auto simp: writeReserve_def reserveCommitLocked_def Let_def split: option.splits)
  next
    case (replays p)
    have "sameContents s s'" by (subst replays(2)) simp
    with replays old show ?thesis by simp
  qed (use free old in auto)
  then show ?thesis
    using res by (simp add: WriteData_def liveEnv_simps [OF live] fp requireR_def)
qed

lemma writeCommit_live:
  assumes sha: "digests32 sha256" and inv: "eventsInv sha256 s" and key: "st_cursorKeyOK s"
    and n: "validNamespace (wr_namespace request)" and g: "dv_generation candidate \<noteq> 0"
    and own: "ownsCommitReservationLocked q s" "writeUnchanged request base s"
    and rev: "nested (st_revisions s) (wr_namespace request) (wr_validationRevisionID request) \<noteq> None"
    and new: "idempotencyRecord (st_data s (wr_namespace request)) (wr_idempotencyKey request) = None"
    and hw: "highWater s (wr_namespace request) < 2 ^ 64 - 1" and t: "0 < t"
  shows "\<exists>s'. writeCommit sha256 False err request fp q base candidate response t s = (Inr response, s')"
proof -
  obtain t1 s1 where eff: "effectiveTimeLocked t s = (t1, s1)"
    by (cases "effectiveTimeLocked t s")
  note eff' = effectiveTimeLocked_spec [OF eff]
  have s1: "sameContents s s1" using eff'(2,3) by (simp add: sameContents_def)
  obtain e where e: "newEventLocked sha256 (dataEvent request (dv_generation candidate)) t1 s1 = Inr e"
    using newEventLocked_succeeds [OF sha sameContents_events [OF s1 inv], of "dataEvent request (dv_generation candidate)" t1]
      sameContents_reads(2) [OF s1] key s1 n g effectiveTimeLocked_pos [OF t eff] hw
    by (auto simp: dataEvent_def eventShape_def event_kinds sameContents_def)
  obtain sq where "nextEventSequenceLocked (wr_namespace request) s = Inr sq"
    using nextEventSequenceLocked_spec(3) [OF inv] hw by blast
  then show ?thesis
    using own rev new eff e
    by (auto simp: writeCommit_def Let_def requireR_def dataEvent_def
        bindS_def [of "\<lambda>s. case effectiveTimeLocked t s of (t, s) \<Rightarrow> (Inr t, s)"])
qed

text \<open>The preparation succeeds exactly when the request fits the state.\<close>

lemma writePrepare_succeeds:
  assumes inv: "eventsInv sha256 s" "dataInv s" and req: "validMutations request" "coherentMutations request"
    and rev: "nested (st_revisions s) (wr_namespace request) (wr_validationRevisionID request) \<noteq> None"
    and g: "dataGeneration s (wr_namespace request) = wr_expectedGeneration request" "wr_expectedGeneration request \<noteq> MaxUint64"
    and hw: "highWater s (wr_namespace request) < 2 ^ 64 - 1"
    and conf: "\<not> specConflict request (viewAttributes s (wr_namespace request))"
  shows "\<exists>x. writePrepare request s = Inr x"
proof -
  let ?n = "wr_namespace request"
  define v0 where "v0 = (case st_data s ?n of None \<Rightarrow> Nil | Some ds \<Rightarrow> dv_attributes (ds_current ds))"
  have v0: "attrInv v0" "attributeGet v0 = viewAttributes s ?n"
    using inv(2) attrInv_Nil
    by (auto simp: v0_def viewAttributes_def dataInv_def versionOK_def attributeGet_def entityGet_def fun_eq_iff
        split: option.split)
  have ad: "attrInv (attributeDeleteAll v0 (wr_attributeDeletes request))"
    "attributeGet (attributeDeleteAll v0 (wr_attributeDeletes request)) =
      viewAttributes s ?n |` (- set (wr_attributeDeletes request))"
    using attributeDeleteAll_spec [OF v0(1)] v0(2) by simp_all
  have clash: "noClash (\<lambda>a b. comparable (attributeFields a) (attributeFields b)) (set (wr_attributeWrites request))"
    using req(2) by (simp add: coherentMutations_def)
  obtain ar where ar: "attributeSetAll (attributeDeleteAll v0 (wr_attributeDeletes request)) (wr_attributeWrites request) = Some ar"
    using attributeSetAll_spec [OF ad(1) clash] conf unfolding ad(2) specConflict_def by (auto split: option.splits)
  obtain sq where sq: "nextEventSequenceLocked ?n s = Inr sq"
    using nextEventSequenceLocked_spec(3) [OF inv(1)] hw by blast
  have "wr_expectedGeneration request + 1 \<noteq> 0" using unat_succ [OF g(2)] by auto
  then show ?thesis
    using rev g sq ar
    by (cases "st_data s ?n")
      (auto simp: writePrepare_def Let_def requireR_def dataGeneration_def v0_def NewWriteDataResponse_def)
qed

lemma WriteData_live:
  assumes sha: "digests32 sha256" and inv: "eventsInv sha256 s" "dataInv s" and key: "st_cursorKeyOK s"
    and live: "liveEnv env t" "0 < t" and fail: "\<not> st_failNextEvent s"
    and req: "NewWriteDataRequest request = Inr c"
    and free: "st_reservations s (dataReservationKey (wr_namespace request)) = None"
    and new: "idempotencyRecord (st_data s (wr_namespace request)) (wr_idempotencyKey request) = None"
    and rev: "nested (st_revisions s) (wr_namespace request) (wr_validationRevisionID request) \<noteq> None"
    and g: "dataGeneration s (wr_namespace request) = wr_expectedGeneration request" "wr_expectedGeneration request \<noteq> MaxUint64"
    and hw: "highWater s (wr_namespace request) < 2 ^ 64 - 1"
    and conf: "\<not> specConflict request (viewAttributes s (wr_namespace request))"
  shows "\<exists>s'. WriteData sha256 env [] request s =
    Some (Inr \<lparr>dr_generation = wr_expectedGeneration request + 1, dr_replayed = False\<rparr>, s')"
proof -
  let ?n = "wr_namespace request"
  have muts: "validMutations request" "coherentMutations request"
    using req by (simp_all add: NewWriteDataRequest_Inr_iff)
  obtain scope f where fp: "FingerprintWriteData sha256 request = Inr (scope, f)"
    using FingerprintWriteData_accepted [OF req] by blast
  let ?fp = "fingerprintBytes f"
  obtain a s1 where res: "writeReserve ?fp request s = (a, s1)" by fastforce
  from res show ?thesis
  proof (cases rule: writeReserve_cases)
    case (fails e)
    have "\<exists>x. writePrepare request s2 = Inr x" if "sameContents s s2" for s2
      using that sameContents_reads(2) [OF that] rev g hw conf
      by (intro writePrepare_succeeds [OF sameContents_events [OF that inv(1)] sameContents_data [OF that inv(2)] muts])
        (auto simp: sameContents_def dataGeneration_def viewAttributes_def)
    then have "\<exists>x. writePrepare request (s\<lparr>st_nextRef := st_nextRef s + 1, st_reservations := m\<rparr>) = Inr x" for m
      by simp
    then show ?thesis
      using res free new fails(1)
      by (auto simp: writeReserve_def reserveCommitLocked_def Let_def split: sum.splits)
        (metis Suc_eq_plus1 sum.distinct(1))
  next
    case (reserves q base candidate response s2)
    have s2: "eventsInv sha256 s2" "dataInv s2"
      using reserves(4) inv sameContents_events sameContents_data by blast+
    note prep = writePrepare_Inr [OF s2(2) muts reserves(8)]
    have data: "st_data s2 = st_data s" "st_data s1 = st_data s" "st_revisions s1 = st_revisions s"
      using reserves(4) by (simp_all add: sameContents_def) (subst reserves(6); simp)+
    have c: "response = \<lparr>dr_generation = wr_expectedGeneration request + 1, dr_replayed = False\<rparr>"
      "dv_generation candidate = wr_expectedGeneration request + 1"
      using prep(1) by (simp_all add: candidateFor_def Let_def)
    have nz: "dv_generation candidate \<noteq> 0" using c(2) unat_succ [OF g(2)] by auto
    have same: "sameContents s s1" by (subst reserves(6)) simp
    have own: "ownsCommitReservationLocked q s1" "st_cursorKeyOK s1"
      using key by (subst reserves(6); simp add: ownsCommitReservationLocked_def reserves(2) dataReserved_def)+
    have "\<exists>s'. writeCommit sha256 False err request ?fp q base candidate response t s1 = (Inr response, s')" for err
      by (rule writeCommit_live [OF sha sameContents_events [OF same inv(1)] own(2) _ nz own(1)])
        (use muts prep(3) rev new hw live(2) sameContents_reads(2) [OF same] in
          \<open>simp_all add: validMutations_def writeUnchanged_def data\<close>)
    then obtain s' where "writeCommit sha256 False (en_err env 4) request ?fp q base candidate response t s1 = (Inr response, s')"
      by blast
    then show ?thesis
      using reserves(1) fail live(1)
      by (simp add: WriteData_def liveEnv_simps [OF live(1)] fp requireR_def res deferS_def c(1)
          bindS_def [of "commitPreparation env q False"] commitPreparation_live [OF live(1)])
  qed (use free new in auto)
qed

section \<open>A store with one revision and a request for it\<close>

definition dataStore :: Store where
  "dataStore = (freshStore [1])
     \<lparr>st_revisions := nestedSet Map.empty ''acme'' (rm_ID (rc_metadata (sampleRevision 7))) (sampleRevision 7),
      st_revisionOrder := (\<lambda>_. Nil)(''acme'' := revisionSet Nil (sampleRevision 7))\<rparr>"

definition dataRequest :: WriteDataRequest where
  "dataRequest = sampleRequest\<lparr>wr_validationRevisionID := rm_ID (rc_metadata (sampleRevision 7))\<rparr>"

lemma dataStore_sels [simp]:
  "st_data dataStore = Map.empty" "st_cursorKeyOK dataStore" "\<not> st_failNextEvent dataStore"
  "st_reservations dataStore k = None" "highWater dataStore n = 0" "st_slots dataStore = Map.empty"
  "nested (st_revisions dataStore) ''acme'' (rm_ID (rc_metadata (sampleRevision 7))) = Some (sampleRevision 7)"
  by (simp_all add: dataStore_def freshStore_def highWater_def nested_nestedSet)

lemma dataStore_inv: "storeInv sampleSha256 sampleDsl dataStore"
proof -
  have "eventsInv sampleSha256 dataStore"
    by (rule eventsInv_frame [OF freshStore_events [where key = "[1]"]]) (simp_all add: dataStore_def freshStore_def)
  moreover have "revisionsInv sampleSha256 sampleDsl dataStore"
    by (rule revisionsInv_insert [OF freshStore_invs(2) [of _ _ "[1]"] sampleRevision_valid refl refl freshStore_invs(8)])
      (simp_all add: dataStore_def freshStore_def sampleRevision_def)
  ultimately show ?thesis by (simp add: storeInv_def slotsInv_def dataInv_def nested_def)
qed

lemma dataRequest_accepted: "\<exists>c. NewWriteDataRequest dataRequest = Inr c"
proof -
  have "validRevisionIDString (rm_ID (rc_metadata (sampleRevision 7)))"
    by (simp add: sampleRevision_def revisionIDString_def validRevisionIDString_hex)
  then have "NewWriteDataRequest dataRequest =
      Inr (sampleCanonical\<lparr>wr_validationRevisionID := rm_ID (rc_metadata (sampleRevision 7))\<rparr>)"
    using sample_fits sample_valid sample_coherent sample_canonical
    by (simp add: NewWriteDataRequest_Inr_iff fitsMutations_def validMutations_def coherentMutations_def
      sameMutations_def sortedMutations_def mutationItems_def writeBytes_def dataRequest_def validRevisionIDString_def
      textBytes_def sampleRequest_def)
  then show ?thesis by blast
qed

lemma dataWrite_runs:
  obtains scope f s' where "FingerprintWriteData sampleSha256 dataRequest = Inr (scope, f)"
    "WriteData sampleSha256 sampleEnv [] dataRequest dataStore = Some (Inr \<lparr>dr_generation = 1, dr_replayed = False\<rparr>, s')"
proof -
  obtain c where c: "NewWriteDataRequest dataRequest = Inr c" using dataRequest_accepted by blast
  have n: "wr_namespace dataRequest = ''acme''" "wr_expectedGeneration dataRequest = 0"
    "wr_validationRevisionID dataRequest = rm_ID (rc_metadata (sampleRevision 7))"
    by (simp_all add: dataRequest_def sampleRequest_def)
  have "\<exists>s'. WriteData sampleSha256 sampleEnv [] dataRequest dataStore =
      Some (Inr \<lparr>dr_generation = wr_expectedGeneration dataRequest + 1, dr_replayed = False\<rparr>, s')"
    using dataStore_inv
    by (intro WriteData_live [OF sampleSha256_digests _ _ _ sampleEnv_live _ _ c])
      (simp_all add: storeInv_def n idempotencyRecord_def dataGeneration_def specConflict_def viewAttributes_def
        specCollides_def MaxUint64_def)
  then show thesis
    using that FingerprintWriteData_accepted [OF c, of sampleSha256] n(2) by auto
qed

section \<open>Properties\<close>

text \<open>
  C30: a data write is one atomic, optimistic transaction. However often a WriteData call waits for
  another writer, it acts on one state it found when it got its turn. It fails and leaves every stored
  thing as it was; or it answers from the record of an earlier request with the same key and the same
  fingerprint, again changing nothing; or the namespace stood exactly at the expected generation, the
  validation revision was stored and no written attribute collided with one that stays, and then the
  tuples and the attributes become exactly the requested ones, the generation goes up by one, the
  idempotency record is stored, one matching event is appended, the waiters for the namespace are
  woken, and nothing else changes. The invariants of the whole store hold again afterwards.
\<close>

theorem WriteData_atomic:
  assumes "\<forall>s0. s0 = s \<or> s0 \<in> ww_store ` set wakes \<longrightarrow> storeInv sha256 dsl s0"
    and "WriteData sha256 env wakes request s = Some (r, s')"
  shows "\<exists>s0. (s0 = s \<or> s0 \<in> ww_store ` set wakes) \<and> storeInv sha256 dsl s' \<and>
    st_reservations s' = st_reservations s0 \<and>
    (case FingerprintWriteData sha256 request of
       Inl _ \<Rightarrow> (\<exists>e. r = Inl e) \<and> s' = s0
     | Inr (_, f) \<Rightarrow> writeOutcome request (fingerprintBytes f) r s0 s')"
proof (rule WriteData_outcome [OF assms])
  fix s0
  assume out: "s0 = s \<or> s0 \<in> ww_store ` set wakes" "storeInv sha256 dsl s'" "st_reservations s' = st_reservations s0"
    "\<And>scope f. FingerprintWriteData sha256 request = Inr (scope, f) \<Longrightarrow> writeOutcome request (fingerprintBytes f) r s0 s'"
    "(\<forall>scope f. FingerprintWriteData sha256 request \<noteq> Inr (scope, f)) \<Longrightarrow> (\<exists>e. r = Inl e) \<and> s' = s0"
  then have "case FingerprintWriteData sha256 request of
       Inl _ \<Rightarrow> (\<exists>e. r = Inl e) \<and> s' = s0
     | Inr (_, f) \<Rightarrow> writeOutcome request (fingerprintBytes f) r s0 s'"
    by (cases "FingerprintWriteData sha256 request") auto
  with out(1-3) show ?thesis by blast
qed

theorem WriteData_atomic_witness:
  "\<exists>scope f s'. FingerprintWriteData sampleSha256 dataRequest = Inr (scope, f) \<and>
     WriteData sampleSha256 sampleEnv [] dataRequest dataStore = Some (Inr \<lparr>dr_generation = 1, dr_replayed = False\<rparr>, s') \<and>
     written dataRequest (fingerprintBytes f) \<lparr>dr_generation = 1, dr_replayed = False\<rparr> dataStore s' \<and>
     storeInv sampleSha256 sampleDsl s'"
proof -
  obtain scope f s' where fp: "FingerprintWriteData sampleSha256 dataRequest = Inr (scope, f)"
    and run: "WriteData sampleSha256 sampleEnv [] dataRequest dataStore =
      Some (Inr \<lparr>dr_generation = 1, dr_replayed = False\<rparr>, s')"
    by (rule dataWrite_runs)
  from WriteData_atomic [OF _ run, of sampleDsl] fp run show ?thesis
    by (auto simp: dataStore_inv writeOutcome_def)
qed

text \<open>
  C31: writes are exactly once. After a successful write, as long as the namespace keeps the record of
  its key and nobody holds the namespace, a request with the same key is never applied again: with the
  same fingerprint it is answered with the generation the first call reported, marked as replayed, and
  with any other fingerprint it is refused as a conflict. Neither changes the contents.
\<close>

theorem WriteData_exactly_once:
  assumes inv: "\<forall>s0. s0 = s \<or> s0 \<in> ww_store ` set wakes \<longrightarrow> storeInv sha256 dsl s0"
    and run: "WriteData sha256 env wakes request s = Some (Inr response, s')"
    and first: "FingerprintWriteData sha256 request = Inr (scope, f)"
    and later: "idempotencyRecord (st_data s'' (wr_namespace request)) (wr_idempotencyKey request) =
        idempotencyRecord (st_data s' (wr_namespace request)) (wr_idempotencyKey request)"
      "st_reservations s'' (dataReservationKey (wr_namespace request)) = None"
    and again: "FingerprintWriteData sha256 retry = Inr (scope', f')"
      "wr_namespace retry = wr_namespace request" "wr_idempotencyKey retry = wr_idempotencyKey request"
    and live: "liveEnv env' t"
  shows "\<exists>s'''. WriteData sha256 env' [] retry s'' =
      Some (if fingerprintBytes f' = fingerprintBytes f
            then Inr \<lparr>dr_generation = dr_generation response, dr_replayed = True\<rparr> else Inl ErrorConflict, s''') \<and>
    sameContents s'' s'''"
proof -
  obtain s0 where out: "storeInv sha256 dsl s'" "writeOutcome request (fingerprintBytes f) (Inr response) s0 s'"
    by (rule WriteData_outcome [OF inv run]) (use first in blast)
  then obtain previous where old: "idempotencyRecord (st_data s' (wr_namespace request)) (wr_idempotencyKey request) = Some previous"
    and p: "id_fingerprint previous = fingerprintBytes f" "dr_generation (id_response previous) = dr_generation response"
    by (auto simp: writeOutcome_def written_def Let_def sameContents_def split: if_splits)
  have "0 < dr_generation (id_response previous)"
    using out(1) old by (auto simp: storeInv_def dataInv_def idempotencyRecord_def split: option.splits)
  then have "writeReplay (fingerprintBytes f') previous =
      (if fingerprintBytes f' = fingerprintBytes f
       then Inr \<lparr>dr_generation = dr_generation response, dr_replayed = True\<rparr> else Inl ErrorConflict)"
    using p by (auto simp: writeReplay_def NewWriteDataResponse_def)
  then show ?thesis
    using WriteData_recorded [OF live again(1), where s = s'' and previous = previous] old later
    unfolding again(2,3) by simp
qed

theorem WriteData_exactly_once_witness:
  "\<exists>s' s''. WriteData sampleSha256 sampleEnv [] dataRequest dataStore =
       Some (Inr \<lparr>dr_generation = 1, dr_replayed = False\<rparr>, s') \<and>
     WriteData sampleSha256 sampleEnv [] dataRequest s' = Some (Inr \<lparr>dr_generation = 1, dr_replayed = True\<rparr>, s'') \<and>
     sameContents s' s''"
proof -
  obtain scope f s' where fp: "FingerprintWriteData sampleSha256 dataRequest = Inr (scope, f)"
    and run: "WriteData sampleSha256 sampleEnv [] dataRequest dataStore =
      Some (Inr \<lparr>dr_generation = 1, dr_replayed = False\<rparr>, s')"
    by (rule dataWrite_runs)
  have inv: "\<forall>s0. s0 = dataStore \<or> s0 \<in> ww_store ` set [] \<longrightarrow> storeInv sampleSha256 sampleDsl s0"
    by (simp add: dataStore_inv)
  have "st_reservations s' k = None" for k
    using WriteData_outcome [OF inv run] by (metis dataStore_sels(4) empty_iff empty_set image_empty)
  from WriteData_exactly_once [OF inv run fp refl this fp refl refl sampleEnv_live] run show ?thesis
    by simp
qed

end
