(* ===== verification/Memory_Snapshots.thy ===== *)
theory Memory_Snapshots
  imports Memory_Data
begin

text \<open>
  store/memory/data.go: the current data generation, opening a snapshot of a namespace at a minimum
  generation, the reads of a snapshot, and its life cycle of admitted readers and closers. The lemmas
  give what a snapshot pins, what each read answers of the maps the pinned version represents, and
  that closing is safe and returns.
\<close>

section \<open>Generations and opening\<close>

record GetDataGenerationRequest =
  gd_namespace :: string

record GetDataGenerationResponse =
  gp_generation :: uint64

definition NewGetDataGenerationRequest :: "string \<Rightarrow> GetDataGenerationRequest result" where
  "NewGetDataGenerationRequest namespace =
     bindR (validateNamespace namespace) (\<lambda>_. Inr \<lparr>gd_namespace = namespace\<rparr>)"

definition NewGetDataGenerationResponse :: "uint64 \<Rightarrow> GetDataGenerationResponse result" where
  "NewGetDataGenerationResponse generation = Inr \<lparr>gp_generation = generation\<rparr>"

definition GetDataGeneration ::
  "Env \<Rightarrow> GetDataGenerationRequest \<Rightarrow> (Store, GetDataGenerationResponse) action" where
  "GetDataGeneration env request =
     bindS (liftS (safeContextError (en_err env 0)))
     (\<lambda>_. bindS (requireS (isOk (NewGetDataGenerationRequest (gd_namespace request))) ErrorInvalidArgument)
     (\<lambda>_. bindS (liftS (safeContextError (en_err env 1)))
     (\<lambda>_. bindS (readS (\<lambda>s. Inr (case st_data s (gd_namespace request) of None \<Rightarrow> 0 | Some ds \<Rightarrow> ds_generation ds)))
     (\<lambda>generation. bindS (liftS (safeContextError (en_err env 2)))
     (\<lambda>_. liftS (NewGetDataGenerationResponse generation))))))"

text \<open>
  A snapshot. The pointer to its owner is whether it is still there, the pinned version is \<open>None\<close>
  once it is dropped, and the channel closeDone is whether it has been closed.
\<close>

record snapshot =
  sn_closing :: bool
  sn_active :: int
  sn_closeDone :: bool
  sn_owner :: bool
  sn_namespace :: string
  sn_generation :: uint64
  sn_minimum :: uint64
  sn_readAt :: Time
  sn_version :: "dataVersion option"

text \<open>contextDone fails like the context check before it; a panic of Done is one of its outcomes.\<close>

definition contextDone :: "ContextState \<Rightarrow> check" where
  "contextDone c = safeContextError c"

text \<open>The section of OpenSnapshot that pins a version once the lower bound is met.\<close>

definition pinVersion :: "SnapshotRequest \<Rightarrow> Store \<Rightarrow> snapshot option \<times> Store" where
  "pinVersion request s =
     (let state = st_data s (sq_namespace request);
          generation = (case state of None \<Rightarrow> 0 | Some ds \<Rightarrow> ds_generation ds) in
      if generation \<ge> sq_minimumGeneration request then
        let view = (\<lambda>version. \<lparr>sn_closing = False, sn_active = 0, sn_closeDone = False, sn_owner = True,
              sn_namespace = sq_namespace request, sn_generation = generation,
              sn_minimum = sq_minimumGeneration request, sn_readAt = sq_readAt request,
              sn_version = Some version\<rparr>) in
        (case state of
           None \<Rightarrow> (Some (view \<lparr>dv_ref = st_nextRef s, dv_generation = generation, dv_tuples = Nil, dv_attributes = Nil\<rparr>),
                     s\<lparr>st_nextRef := st_nextRef s + 1\<rparr>)
         | Some ds \<Rightarrow> (Some (view (ds_current ds)), s))
      else (None, s))"

text \<open>
  What one round of the loop observes: the context before the lock, the store found under it, the
  context when the round leaves with a snapshot or goes to wait, how the wait ends (\<open>Some c\<close> when
  the context is done first, and what its error then is), and the store found after the wait.
\<close>

record openRound =
  or_enter :: ContextState
  or_store :: Store
  or_leave :: ContextState
  or_done :: "ContextState option"
  or_found :: Store

fun openLoop :: "SnapshotRequest \<Rightarrow> openRound list \<Rightarrow> Store \<Rightarrow> (snapshot result \<times> Store) option" where
  "openLoop request [] s = None"
| "openLoop request (r # rounds) s =
     (case safeContextError (or_enter r) of
        Inl e \<Rightarrow> Some (Inl e, s)
      | Inr _ \<Rightarrow>
          (case pinVersion request (or_store r) of
             (Some view, s) \<Rightarrow> Some (bindR (safeContextError (or_leave r)) (\<lambda>_. Inr view), s)
           | (None, s) \<Rightarrow>
               (case registerGenerationWaitLocked (sq_namespace request) s of
                  (wait, _) \<Rightarrow>
                    let s = unregisterGenerationWaitLocked (sq_namespace request) wait (or_found r) in
                    (case contextDone (or_leave r) of
                       Inl e \<Rightarrow> Some (Inl e, s)
                     | Inr _ \<Rightarrow>
                         (case or_done r of
                            Some c \<Rightarrow> Some (Inl (contextWaitError c), s)
                          | None \<Rightarrow> openLoop request rounds s)))))"

definition OpenSnapshot :: "Env \<Rightarrow> openRound list \<Rightarrow> SnapshotRequest \<Rightarrow> Store \<Rightarrow> (snapshot result \<times> Store) option" where
  "OpenSnapshot env rounds request s =
     (case bindR (safeContextError (en_err env 0))
        (\<lambda>_. requireR (validSnapshotRequest request) ErrorInvalidArgument) of
        Inl e \<Rightarrow> Some (Inl e, s)
      | Inr _ \<Rightarrow> openLoop request rounds s)"

section \<open>The life cycle\<close>

definition admit :: "(snapshot, dataVersion option) action" where
  "admit s =
     (if sn_closing s then (Inl ErrorFailedPrecondition, s)
      else (Inr (sn_version s), s\<lparr>sn_active := sn_active s + 1\<rparr>))"

text \<open>Closing a closed channel panics: \<open>None\<close>.\<close>

definition dropVersion :: "snapshot \<Rightarrow> snapshot option" where
  "dropVersion s =
     (if sn_closeDone s then None
      else Some (s\<lparr>sn_version := None, sn_owner := False, sn_closeDone := True\<rparr>))"

definition release :: "snapshot \<Rightarrow> snapshot option" where
  "release s =
     (let s = s\<lparr>sn_active := sn_active s - 1\<rparr> in
      if sn_closing s \<and> sn_active s = 0 \<and> sn_version s \<noteq> None then dropVersion s else Some s)"

text \<open>What Close does before it waits for closeDone.\<close>

definition closeBegin :: "snapshot \<Rightarrow> snapshot option" where
  "closeBegin s =
     (if sn_closing s then Some s
      else let s = s\<lparr>sn_closing := True\<rparr> in
        if sn_active s = 0 then dropVersion s else Some s)"

section \<open>Reads\<close>

text \<open>
  The frame all reads share: admit, the read on the pinned version, release. What other calls do to
  the snapshot in between is an argument. Reading through a dropped version panics.
\<close>

definition snapshotRead ::
  "(snapshot \<Rightarrow> snapshot) \<Rightarrow> (dataVersion \<Rightarrow> 'a result) \<Rightarrow> snapshot \<Rightarrow> ('a result \<times> snapshot) option" where
  "snapshotRead others body s =
     (case admit s of
        (Inl e, s) \<Rightarrow> Some (Inl e, s)
      | (Inr None, s) \<Rightarrow> None
      | (Inr (Some version), s) \<Rightarrow> map_option (\<lambda>s. (body version, s)) (release (others s)))"

record tupleScan =
  sc_subjects :: "SubjectRef list"
  sc_resultExhausted :: bool
  sc_workExhausted :: bool
  sc_canceled :: bool
  sc_visited :: nat

text \<open>The visit closure of QueryTuples; \<open>signaled n\<close> is the poll of Done at the n-th tuple.\<close>

definition visitTuple ::
  "(nat \<Rightarrow> bool) \<Rightarrow> Time \<Rightarrow> int \<Rightarrow> RelationshipTuple \<Rightarrow> tupleScan \<Rightarrow> bool \<times> tupleScan" where
  "visitTuple signaled readAt limit v sc =
     (let sc = sc\<lparr>sc_visited := sc_visited sc + 1\<rparr> in
      if sc_visited sc > MaxAggregateWorkItems then (False, sc\<lparr>sc_workExhausted := True\<rparr>)
      else if sc_visited sc mod 64 = 0 \<and> signaled (sc_visited sc) then (False, sc\<lparr>sc_canceled := True\<rparr>)
      else if rt_hasExpiry v \<and> \<not> rt_expiresAt v > readAt then (True, sc)
      else
        let sc = sc\<lparr>sc_subjects := sc_subjects sc @ [tu_Subject (rt_tuple v)]\<rparr> in
        if int (length (sc_subjects sc)) > limit then (False, sc\<lparr>sc_resultExhausted := True\<rparr>)
        else (True, sc))"

definition scanTuples :: "Env \<Rightarrow> Time \<Rightarrow> TupleQuery \<Rightarrow> dataVersion \<Rightarrow> TupleResult result" where
  "scanTuples env readAt query version =
     (let sc = snd (queryTupleBucket (dv_tuples version) (tq_resource query) (tq_relation query)
            (visitTuple (en_done env) readAt (tq_limit query))
            \<lparr>sc_subjects = [], sc_resultExhausted = False, sc_workExhausted = False, sc_canceled = False,
             sc_visited = 0\<rparr>) in
      if sc_canceled sc then Inl (contextWaitError (en_err env 2))
      else if sc_workExhausted sc \<or> sc_resultExhausted sc then Inl ErrorResourceExhausted
      else bindR (NewTupleResult query (sc_subjects sc))
        (\<lambda>result. if en_done env 0 then Inl (contextWaitError (en_err env 2)) else Inr result))"

definition QueryTuples ::
  "Env \<Rightarrow> (snapshot \<Rightarrow> snapshot) \<Rightarrow> TupleQuery \<Rightarrow> snapshot \<Rightarrow> (TupleResult result \<times> snapshot) option" where
  "QueryTuples env others query s =
     (case bindR (safeContextError (en_err env 0))
        (\<lambda>_. bindR (requireR (validTupleQuery query) ErrorInvalidArgument)
        (\<lambda>_. contextDone (en_err env 1))) of
        Inl e \<Rightarrow> Some (Inl e, s)
      | Inr _ \<Rightarrow> snapshotRead others (scanTuples env (sn_readAt s) query) s)"

text \<open>GetAttribute and HasAttributeDescendant refuse a key that its constructor refuses.\<close>

definition canonicalKey :: "AttributeKey \<Rightarrow> AttributeKey result" where
  "canonicalKey key =
     (case NewAttributeKeyPath (ak_entity key) (ak_path key) of
        Inl _ \<Rightarrow> Inl ErrorInvalidArgument
      | Inr canonical \<Rightarrow> if ak_path canonical \<noteq> ak_path key then Inl ErrorInvalidArgument else Inr canonical)"

definition readAttribute :: "Env \<Rightarrow> AttributeKey \<Rightarrow> dataVersion \<Rightarrow> AttributeResult result" where
  "readAttribute env key version =
     bindR (case attributeGet (dv_attributes version) key of
              Some attribute \<Rightarrow> NewAttributeResult key (at_value attribute) True
            | None \<Rightarrow> NewAttributeResult key zeroValue False)
       (\<lambda>result. if en_done env 0 then Inl (contextWaitError (en_err env 2)) else Inr result)"

definition GetAttribute ::
  "Env \<Rightarrow> (snapshot \<Rightarrow> snapshot) \<Rightarrow> AttributeKey \<Rightarrow> snapshot \<Rightarrow> (AttributeResult result \<times> snapshot) option" where
  "GetAttribute env others key s =
     (case bindR (safeContextError (en_err env 0))
        (\<lambda>_. bindR (canonicalKey key) (\<lambda>_. contextDone (en_err env 1))) of
        Inl e \<Rightarrow> Some (Inl e, s)
      | Inr _ \<Rightarrow> snapshotRead others (readAttribute env key) s)"

definition readDescendant :: "Env \<Rightarrow> AttributeKey \<Rightarrow> dataVersion \<Rightarrow> bool result" where
  "readDescendant env canonical version =
     (let found = attributeHasDescendant (dv_attributes version) canonical in
      if en_done env 0 then Inl (contextWaitError (en_err env 2)) else Inr found)"

definition HasAttributeDescendant ::
  "Env \<Rightarrow> (snapshot \<Rightarrow> snapshot) \<Rightarrow> AttributeKey \<Rightarrow> snapshot \<Rightarrow> (bool result \<times> snapshot) option" where
  "HasAttributeDescendant env others key s =
     (case bindR (safeContextError (en_err env 0))
        (\<lambda>_. bindR (canonicalKey key)
        (\<lambda>canonical. bindR (contextDone (en_err env 1)) (\<lambda>_. Inr canonical))) of
        Inl e \<Rightarrow> Some (Inl e, s)
      | Inr canonical \<Rightarrow> snapshotRead others (readDescendant env canonical) s)"

section \<open>Readers and closers of one snapshot\<close>

text \<open>
  The calls on one snapshot interleave at its lifecycle lock. A system is the snapshot (\<open>None\<close>
  after a panic), the readers between admit and release with the version they were handed, and the
  Close calls that wait for closeDone.
\<close>

record snapshotSystem =
  sy_snapshot :: "snapshot option"
  sy_readers :: "nat \<rightharpoonup> dataVersion option"
  sy_closers :: "nat set"

inductive snapshotStep :: "snapshotSystem \<Rightarrow> snapshotSystem \<Rightarrow> bool" where
  Admitted: "sy_snapshot y = Some s \<Longrightarrow> sy_readers y i = None \<Longrightarrow> admit s = (Inr v, s') \<Longrightarrow>
    snapshotStep y (y\<lparr>sy_snapshot := Some s', sy_readers := (sy_readers y)(i \<mapsto> v)\<rparr>)"
| Refused: "sy_snapshot y = Some s \<Longrightarrow> admit s = (Inl e, s') \<Longrightarrow> snapshotStep y (y\<lparr>sy_snapshot := Some s'\<rparr>)"
| Released: "sy_snapshot y = Some s \<Longrightarrow> sy_readers y i = Some v \<Longrightarrow>
    snapshotStep y (y\<lparr>sy_snapshot := release s, sy_readers := (sy_readers y)(i := None)\<rparr>)"
| Closing: "sy_snapshot y = Some s \<Longrightarrow> i \<notin> sy_closers y \<Longrightarrow>
    snapshotStep y (y\<lparr>sy_snapshot := closeBegin s, sy_closers := insert i (sy_closers y)\<rparr>)"
| Closed: "sy_snapshot y = Some s \<Longrightarrow> i \<in> sy_closers y \<Longrightarrow> sn_closeDone s \<Longrightarrow>
    snapshotStep y (y\<lparr>sy_closers := sy_closers y - {i}\<rparr>)"

text \<open>The steps by which the calls that are already inside finish.\<close>

inductive drainStep :: "snapshotSystem \<Rightarrow> snapshotSystem \<Rightarrow> bool" where
  Drain_reader: "sy_snapshot y = Some s \<Longrightarrow> sy_readers y i = Some v \<Longrightarrow>
    drainStep y (y\<lparr>sy_snapshot := release s, sy_readers := (sy_readers y)(i := None)\<rparr>)"
| Drain_closer: "sy_snapshot y = Some s \<Longrightarrow> i \<in> sy_closers y \<Longrightarrow> sn_closeDone s \<Longrightarrow>
    drainStep y (y\<lparr>sy_closers := sy_closers y - {i}\<rparr>)"

definition opened :: "snapshot \<Rightarrow> snapshotSystem" where
  "opened s = \<lparr>sy_snapshot = Some s, sy_readers = Map.empty, sy_closers = {}\<rparr>"

definition freshSnapshot :: "dataVersion \<Rightarrow> snapshot \<Rightarrow> bool" where
  "freshSnapshot v s \<longleftrightarrow> \<not> sn_closing s \<and> sn_active s = 0 \<and> \<not> sn_closeDone s \<and> sn_owner s \<and> sn_version s = Some v"

text \<open>The invariant of a system whose snapshot pinned \<open>v\<close>.\<close>

definition lifecycleInv :: "dataVersion \<Rightarrow> snapshotSystem \<Rightarrow> bool" where
  "lifecycleInv v y \<longleftrightarrow>
     finite (dom (sy_readers y)) \<and> finite (sy_closers y) \<and> ran (sy_readers y) \<subseteq> {Some v} \<and>
     (\<exists>s. sy_snapshot y = Some s \<and> sn_active s = int (card (dom (sy_readers y))) \<and>
        (sn_closeDone s \<longleftrightarrow> sn_closing s \<and> dom (sy_readers y) = {}) \<and>
        sn_version s = (if sn_closeDone s then None else Some v) \<and> sn_owner s = (\<not> sn_closeDone s) \<and>
        (sy_closers y \<noteq> {} \<longrightarrow> sn_closing s))"

lemma ran_restrict: "ran m \<subseteq> A \<Longrightarrow> ran (m(i := None)) \<subseteq> A"
  by (auto simp: ran_def)

lemma lifecycle_release:
  assumes "lifecycleInv v y" "sy_snapshot y = Some s" "sy_readers y i = Some w"
  shows "lifecycleInv v (y\<lparr>sy_snapshot := release s, sy_readers := (sy_readers y)(i := None)\<rparr>)"
proof -
  let ?R = "dom (sy_readers y)"
  have fin: "finite ?R" "finite (sy_closers y)" and i: "i \<in> ?R" and ran: "ran (sy_readers y) \<subseteq> {Some v}"
    and s: "sn_active s = int (card ?R)" "\<not> sn_closeDone s" "sn_version s = Some v" "sn_owner s"
      "sy_closers y \<noteq> {} \<longrightarrow> sn_closing s"
    using assms by (auto simp: lifecycleInv_def)
  have c: "card ?R = Suc (card (?R - {i}))" by (rule card.remove [OF fin(1) i])
  have e: "card (?R - {i}) = 0 \<longleftrightarrow> ?R - {i} = {}" using fin(1) by simp
  have r: "release s = Some (if sn_closing s \<and> ?R - {i} = {}
      then s\<lparr>sn_active := 0, sn_version := None, sn_owner := False, sn_closeDone := True\<rparr>
      else s\<lparr>sn_active := int (card (?R - {i}))\<rparr>)"
    using s c e by (simp add: release_def dropVersion_def Let_def)
  show ?thesis
    using fin s e ran_restrict [OF ran, of i] by (simp add: lifecycleInv_def r)
qed

lemma lifecycle_step:
  assumes "lifecycleInv v y" "snapshotStep y y'"
  shows "lifecycleInv v y'"
  using assms(2)
proof cases
  case (Admitted s i w s')
  moreover have "ran ((sy_readers y)(i \<mapsto> w)) = insert w (ran (sy_readers y))"
    using Admitted by (simp add: ran_map_upd)
  ultimately show ?thesis
    using assms(1) by (auto simp: lifecycleInv_def admit_def domIff card_insert_if split: if_splits)
next
  case (Released s i w)
  then show ?thesis using lifecycle_release [OF assms(1)] by simp
qed (use assms(1) in \<open>auto simp: lifecycleInv_def admit_def closeBegin_def dropVersion_def Let_def split: if_splits\<close>)

lemma lifecycle_reachable:
  assumes "freshSnapshot v s" "snapshotStep\<^sup>*\<^sup>* (opened s) y"
  shows "lifecycleInv v y"
  using assms(2)
proof (induction rule: rtranclp_induct)
  case base
  show ?case using assms(1) by (auto simp: lifecycleInv_def opened_def freshSnapshot_def)
next
  case (step y z)
  then show ?case using lifecycle_step by blast
qed

lemma drain_step:
  assumes "lifecycleInv v y" "drainStep y y'"
  shows "lifecycleInv v y'" "snapshotStep y y'"
    "card (dom (sy_readers y')) + card (sy_closers y') + 1 = card (dom (sy_readers y)) + card (sy_closers y)"
proof -
  show step: "snapshotStep y y'"
    using assms(2) by cases (auto intro: snapshotStep.intros)
  show "lifecycleInv v y'" by (rule lifecycle_step [OF assms(1) step])
  show "card (dom (sy_readers y')) + card (sy_closers y') + 1 = card (dom (sy_readers y)) + card (sy_closers y)"
    using assms(2)
  proof cases
    case (Drain_reader s i w)
    then have "card (dom (sy_readers y)) = Suc (card (dom (sy_readers y) - {i}))"
      using assms(1) by (intro card.remove) (auto simp: lifecycleInv_def)
    with Drain_reader show ?thesis by simp
  next
    case (Drain_closer s i)
    then have "card (sy_closers y) = Suc (card (sy_closers y - {i}))"
      using assms(1) by (intro card.remove) (auto simp: lifecycleInv_def)
    with Drain_closer show ?thesis by simp
  qed
qed

lemma drain_progress:
  assumes "lifecycleInv v y" "sy_closers y \<noteq> {} \<or> dom (sy_readers y) \<noteq> {}"
  shows "\<exists>y'. drainStep y y'"
proof (cases "dom (sy_readers y) = {}")
  case True
  then obtain s i where "sy_snapshot y = Some s" "i \<in> sy_closers y" "sn_closeDone s"
    using assms by (auto simp: lifecycleInv_def)
  then show ?thesis by (blast intro: Drain_closer)
next
  case False
  then obtain s i w where "sy_snapshot y = Some s" "sy_readers y i = Some w"
    using assms(1) by (auto simp: lifecycleInv_def dom_def)
  then show ?thesis by (blast intro: Drain_reader)
qed

lemma drain_bounded:
  assumes "lifecycleInv v y" "(drainStep ^^ n) y y'"
  shows "lifecycleInv v y' \<and>
    card (dom (sy_readers y')) + card (sy_closers y') + n = card (dom (sy_readers y)) + card (sy_closers y)"
  using assms(2)
proof (induction n arbitrary: y')
  case (Suc n)
  then obtain z where z: "(drainStep ^^ n) y z" "drainStep z y'" by auto
  with Suc.IH [OF z(1)] drain_step [OF _ z(2), of v] show ?case by auto
qed (use assms(1) in simp)

section \<open>What the reads answer\<close>

definition unexpired :: "Time \<Rightarrow> RelationshipTuple \<Rightarrow> bool" where
  "unexpired readAt w \<longleftrightarrow> (rt_hasExpiry w \<longrightarrow> readAt < rt_expiresAt w)"

definition activeSubjects :: "Time \<Rightarrow> RelationshipTuple list \<Rightarrow> SubjectRef list" where
  "activeSubjects readAt ws = map (\<lambda>w. tu_Subject (rt_tuple w)) (filter (unexpired readAt) ws)"

text \<open>Whether a bucket can be scanned within the bounds, after \<open>n\<close> visits that found \<open>m\<close> subjects.\<close>

definition scanFits :: "Time \<Rightarrow> int \<Rightarrow> nat \<Rightarrow> nat \<Rightarrow> RelationshipTuple list \<Rightarrow> bool" where
  "scanFits readAt limit n m ws \<longleftrightarrow>
     n + length ws \<le> MaxAggregateWorkItems \<and> int (m + length (activeSubjects readAt ws)) \<le> limit"

lemma visitAll_scan:
  fixes sc :: tupleScan
  assumes "\<not> sc_canceled sc" "\<not> sc_workExhausted sc" "\<not> sc_resultExhausted sc"
    "sc_visited sc \<le> MaxAggregateWorkItems" "int (length (sc_subjects sc)) \<le> limit"
  shows "case snd (visitAll (visitTuple signaled readAt limit) ws sc) of sc' \<Rightarrow>
    (\<not> sc_canceled sc' \<longrightarrow> (sc_workExhausted sc' \<or> sc_resultExhausted sc' \<longleftrightarrow> \<not> scanFits readAt limit (sc_visited sc) (length (sc_subjects sc)) ws)) \<and>
    (\<not> sc_canceled sc' \<and> scanFits readAt limit (sc_visited sc) (length (sc_subjects sc)) ws \<longrightarrow> sc_subjects sc' = sc_subjects sc @ activeSubjects readAt ws) \<and>
    ((\<forall>i. \<not> signaled i) \<longrightarrow> \<not> sc_canceled sc')"
  using assms
proof (induction ws arbitrary: sc)
  case (Cons w ws)
  obtain go sc1 where v: "visitTuple signaled readAt limit w sc = (go, sc1)" by fastforce
  show ?case
  proof (cases go)
    case False
    with v Cons.prems show ?thesis
      by (auto simp: visitTuple_def Let_def scanFits_def activeSubjects_def unexpired_def split: if_splits)
  next
    case True
    with v Cons.prems have sc1: "\<not> sc_canceled sc1" "\<not> sc_workExhausted sc1" "\<not> sc_resultExhausted sc1"
      "sc_visited sc1 = sc_visited sc + 1" "sc_visited sc1 \<le> MaxAggregateWorkItems"
      "int (length (sc_subjects sc1)) \<le> limit" "sc_subjects sc1 = sc_subjects sc @ activeSubjects readAt [w]"
      by (auto simp: visitTuple_def Let_def scanFits_def activeSubjects_def unexpired_def split: if_splits)
    have step: "visitAll (visitTuple signaled readAt limit) (w # ws) sc =
        visitAll (visitTuple signaled readAt limit) ws sc1"
      using v True by simp
    have act: "activeSubjects readAt (w # ws) = activeSubjects readAt [w] @ activeSubjects readAt ws"
      by (simp add: activeSubjects_def)
    have f: "scanFits readAt limit (sc_visited sc) (length (sc_subjects sc)) (w # ws) =
        scanFits readAt limit (sc_visited sc1) (length (sc_subjects sc1)) ws"
      by (simp add: scanFits_def act sc1(4,7) ac_simps)
    have g: "sc_subjects sc @ activeSubjects readAt (w # ws) = sc_subjects sc1 @ activeSubjects readAt ws"
      by (simp add: act sc1(7))
    show ?thesis
      using Cons.IH [OF sc1(1-3,5,6)] unfolding step f g .
  qed
qed (simp add: activeSubjects_def scanFits_def)

lemma scanTuples_eq:
  fixes readAt :: Time
  assumes v: "versionOK v" and limit: "0 \<le> tq_limit query"
  defines "ws \<equiv> bucketOf (tq_resource query) (tq_relation query) (dv_tuples v)"
  defines "fits \<equiv> scanFits readAt (tq_limit query) 0 0 ws"
  shows "liveEnv env t \<Longrightarrow> scanTuples env readAt query v =
      (if fits then NewTupleResult query (activeSubjects readAt ws) else Inl ErrorResourceExhausted)"
    and "scanTuples env readAt query v = Inr r \<Longrightarrow>
      fits \<and> NewTupleResult query (activeSubjects readAt ws) = Inr r"
proof -
  let ?sc = "\<lparr>sc_subjects = [], sc_resultExhausted = False, sc_workExhausted = False, sc_canceled = False, sc_visited = 0\<rparr>"
  have q: "queryTupleBucket (dv_tuples v) (tq_resource query) (tq_relation query) visit sc = visitAll visit ws sc"
    for visit :: "RelationshipTuple \<Rightarrow> tupleScan \<Rightarrow> bool \<times> tupleScan" and sc
    unfolding ws_def using v by (intro queryTupleBucket_bucketOf) (simp add: versionOK_def avlInv_def)
  have scan: "case snd (visitAll (visitTuple (en_done env) readAt (tq_limit query)) ws ?sc) of sc \<Rightarrow>
    (\<not> sc_canceled sc \<longrightarrow> (sc_workExhausted sc \<or> sc_resultExhausted sc \<longleftrightarrow> \<not> fits)) \<and>
    (\<not> sc_canceled sc \<and> fits \<longrightarrow> sc_subjects sc = activeSubjects readAt ws) \<and>
    ((\<forall>i. \<not> en_done env i) \<longrightarrow> \<not> sc_canceled sc)"
    using visitAll_scan [where sc = ?sc and limit = "tq_limit query" and readAt = readAt and ws = ws] limit by (simp add: fits_def)
  show "scanTuples env readAt query v =
      (if fits then NewTupleResult query (activeSubjects readAt ws) else Inl ErrorResourceExhausted)" if "liveEnv env t"
    using scan liveEnv_simps(3) [OF that]
    by (cases "NewTupleResult query (activeSubjects readAt ws)") (simp_all add: scanTuples_def q Let_def)
  show "fits \<and> NewTupleResult query (activeSubjects readAt ws) = Inr r" if "scanTuples env readAt query v = Inr r"
    using that scan by (auto simp: scanTuples_def q Let_def bindR_Inr_iff split: if_splits)
qed

text \<open>The subjects of the bucket, on the map the index represents.\<close>

lemma bucket_subjects:
  assumes "versionOK v"
  shows "set (activeSubjects readAt (bucketOf e rel (dv_tuples v))) =
    {u. \<exists>w. avlGet compareStoredTuple (dv_tuples v) \<lparr>tu_Resource = e, tu_Relation = rel, tu_Subject = u\<rparr> = Some w \<and>
       unexpired readAt w}" (is "?l = ?r")
proof -
  have s: "keysSorted compareStoredTuple (dv_tuples v)" using assms by (simp add: versionOK_def avlInv_def)
  have k: "rt_tuple w = t" if "avlGet compareStoredTuple (dv_tuples v) t = Some w" for t w
    using assms that by (simp add: versionOK_def)
  have "u \<in> ?l \<longleftrightarrow> u \<in> ?r" for u
  proof
    assume "u \<in> ?l"
    then obtain t w where "avlGet compareStoredTuple (dv_tuples v) t = Some w" "inBucket e rel t" "unexpired readAt w"
      "u = tu_Subject (rt_tuple w)"
      by (auto simp: activeSubjects_def bucketOf_def tupleIndex.avlGet_Some_iff [OF s])
    then show "u \<in> ?r" using k [of t w] by (cases t) (auto simp: inBucket_def)
  next
    assume "u \<in> ?r"
    then obtain w where w: "avlGet compareStoredTuple (dv_tuples v) \<lparr>tu_Resource = e, tu_Relation = rel, tu_Subject = u\<rparr> = Some w"
      "unexpired readAt w" by blast
    then have "w \<in> set (filter (unexpired readAt) (bucketOf e rel (dv_tuples v)))"
      by (force simp: bucketOf_def inBucket_def tupleIndex.avlGet_Some_iff [OF s])
    then show "u \<in> ?l" using k [OF w(1)] by (force simp: activeSubjects_def)
  qed
  then show ?thesis by blast
qed

lemma snapshotRead_live:
  assumes "sn_version s = Some v" "\<not> sn_closing s" "release (others (s\<lparr>sn_active := sn_active s + 1\<rparr>)) = Some s'"
  shows "snapshotRead others body s = Some (body v, s')"
  using assms by (simp add: snapshotRead_def admit_def)

lemma canonicalKey_Inr_iff:
  "canonicalKey key = Inr k \<longleftrightarrow> k = key \<and> NewAttributeKeyPath (ak_entity key) (ak_path key) = Inr key"
  by (cases key) (auto simp: canonicalKey_def NewAttributeKeyPath_def bindR_Inr_iff split: sum.splits if_splits)

lemma GetAttribute_live:
  assumes s: "sn_version s = Some v" "\<not> sn_closing s"
      "release (others (s\<lparr>sn_active := sn_active s + 1\<rparr>)) = Some s'"
    and live: "liveEnv env t" and key: "NewAttributeKeyPath (ak_entity key) (ak_path key) = Inr key"
  shows "GetAttribute env others key s =
    Some (case attributeGet (dv_attributes v) key of
            Some a \<Rightarrow> NewAttributeResult key (at_value a) True
          | None \<Rightarrow> NewAttributeResult key zeroValue False, s')"
proof -
  have "canonicalKey key = Inr key" using key by (simp add: canonicalKey_Inr_iff)
  moreover have "readAttribute env key v = (case attributeGet (dv_attributes v) key of
      Some a \<Rightarrow> NewAttributeResult key (at_value a) True | None \<Rightarrow> NewAttributeResult key zeroValue False)"
    by (simp add: readAttribute_def liveEnv_simps [OF live])
  ultimately show ?thesis
    by (simp add: GetAttribute_def contextDone_def liveEnv_simps [OF live] snapshotRead_live [of s v others s', OF s])
qed

lemma HasAttributeDescendant_live:
  assumes v: "versionOK v" and s: "sn_version s = Some v" "\<not> sn_closing s"
      "release (others (s\<lparr>sn_active := sn_active s + 1\<rparr>)) = Some s'"
    and live: "liveEnv env t" and key: "NewAttributeKeyPath (ak_entity key) (ak_path key) = Inr key"
  shows "HasAttributeDescendant env others key s =
    Some (Inr (\<exists>q. strict_prefix (ak_path key) q \<and>
      attributeGet (dv_attributes v) \<lparr>ak_entity = ak_entity key, ak_path = q\<rparr> \<noteq> None), s')"
proof -
  have "canonicalKey key = Inr key" using key by (simp add: canonicalKey_Inr_iff)
  then show ?thesis
    using v attributeHasDescendant_spec [of "dv_attributes v" key]
    by (simp add: HasAttributeDescendant_def readDescendant_def contextDone_def liveEnv_simps [OF live] versionOK_def
        snapshotRead_live [of s v others s', OF s])
qed


section \<open>What a snapshot pins\<close>

definition pinned :: "SnapshotRequest \<Rightarrow> Store \<Rightarrow> dataVersion \<Rightarrow> snapshot \<Rightarrow> bool" where
  "pinned request s v view \<longleftrightarrow>
     (let n = sq_namespace request in
      freshSnapshot v view \<and> versionOK v \<and> sn_namespace view = n \<and> sn_readAt view = sq_readAt request \<and>
      sn_minimum view = sq_minimumGeneration request \<and> sq_minimumGeneration request \<le> sn_generation view \<and>
      sn_generation view = dataGeneration s n \<and> dv_generation v = dataGeneration s n \<and>
      avlGet compareStoredTuple (dv_tuples v) = viewTuples s n \<and> attributeGet (dv_attributes v) = viewAttributes s n)"

lemma pinVersion_cases:
  assumes "dataInv s"
  obtains (pins) view v s' where "pinVersion request s = (Some view, s')" "pinned request s v view" "sameContents s s'"
      "st_reservations s' = st_reservations s" "sq_minimumGeneration request \<le> dataGeneration s (sq_namespace request)"
    | (early) "pinVersion request s = (None, s)" "\<not> sq_minimumGeneration request \<le> dataGeneration s (sq_namespace request)"
proof (cases "sq_minimumGeneration request \<le> dataGeneration s (sq_namespace request)")
  case False
  then show thesis by (intro early) (auto simp: pinVersion_def Let_def dataGeneration_def)
next
  case min: True
  let ?view = "\<lambda>v. \<lparr>sn_closing = False, sn_active = 0, sn_closeDone = False, sn_owner = True,
    sn_namespace = sq_namespace request, sn_generation = dataGeneration s (sq_namespace request),
    sn_minimum = sq_minimumGeneration request, sn_readAt = sq_readAt request, sn_version = Some v\<rparr>"
  show thesis
  proof (cases "st_data s (sq_namespace request)")
    case None
    let ?v = "\<lparr>dv_ref = st_nextRef s, dv_generation = 0, dv_tuples = Nil, dv_attributes = Nil\<rparr>"
    have empty: "attributeGet Nil = Map.empty" by (simp add: fun_eq_iff attributeGet_def entityGet_def)
    have nil: "avlGet compareStoredTuple Nil = Map.empty" by (simp add: fun_eq_iff)
    have "pinVersion request s = (Some (?view ?v), s\<lparr>st_nextRef := st_nextRef s + 1\<rparr>)" "pinned request s ?v (?view ?v)"
      using None min
      by (simp_all add: pinVersion_def Let_def dataGeneration_def pinned_def freshSnapshot_def versionOK_Nil
          viewTuples_def viewAttributes_def empty nil)
    then show thesis by (rule pins) (use min in simp_all)
  next
    case (Some ds)
    have "pinVersion request s = (Some (?view (ds_current ds)), s)" "pinned request s (ds_current ds) (?view (ds_current ds))"
      using Some min assms
      by (simp_all add: pinVersion_def Let_def dataGeneration_def pinned_def freshSnapshot_def viewTuples_def
          viewAttributes_def dataInv_def)
    then show thesis by (rule pins) (use min in simp_all)
  qed
qed

lemma openLoop_Inr:
  "openLoop request rounds s = Some (Inr view, s') \<Longrightarrow>
   \<exists>r \<in> set rounds. pinVersion request (or_store r) = (Some view, s')"
  by (induction request rounds s rule: openLoop.induct)
    (auto simp: Let_def bindR_Inr_iff split: sum.splits prod.splits option.splits)

lemma openLoop_now:
  assumes "dataInv (or_store r)" "safeContextError (or_enter r) = Inr ()" "safeContextError (or_leave r) = Inr ()"
    and "sq_minimumGeneration request \<le> dataGeneration (or_store r) (sq_namespace request)"
  shows "\<exists>view v s'. openLoop request (r # rounds) s = Some (Inr view, s') \<and> pinned request (or_store r) v view \<and>
    sameContents (or_store r) s'"
  using assms(1)
proof (cases rule: pinVersion_cases [of "or_store r" request])
  case (pins view v s')
  with assms show ?thesis by auto
qed (use assms in simp)

section \<open>A sample snapshot\<close>

definition sampleSnapshot :: snapshot where
  "sampleSnapshot =
     \<lparr>sn_closing = False, sn_active = 0, sn_closeDone = False, sn_owner = True, sn_namespace = ''acme'',
      sn_generation = 1, sn_minimum = 1, sn_readAt = 5,
      sn_version = Some \<lparr>dv_ref = 0, dv_generation = 1, dv_tuples = sampleTuples, dv_attributes = Nil\<rparr>\<rparr>"

definition sampleQuery :: TupleQuery where
  "sampleQuery = \<lparr>tq_resource = \<lparr>er_Type = ''doc'', er_ID = ''d1''\<rparr>, tq_relation = ''viewer'', tq_limit = 2\<rparr>"

lemma sampleSnapshot_fresh:
  "freshSnapshot \<lparr>dv_ref = 0, dv_generation = 1, dv_tuples = sampleTuples, dv_attributes = Nil\<rparr> sampleSnapshot"
  by (simp add: freshSnapshot_def sampleSnapshot_def)

lemma sampleTuples_inorder:
  "inorder sampleTuples = [(rt_tuple (sampleTuple ''ann''), sampleTuple ''ann''),
     (rt_tuple (sampleTuple ''bob''), sampleTuple ''bob'')]"
  by code_simp

lemma sampleVersion_ok: "versionOK \<lparr>dv_ref = 0, dv_generation = 1, dv_tuples = sampleTuples, dv_attributes = Nil\<rparr>"
proof -
  have s: "keysSorted compareStoredTuple sampleTuples" using sampleTuples_inv by (simp add: avlInv_def)
  have "validRelationshipTuple (sampleTuple ''ann'')" "validRelationshipTuple (sampleTuple ''bob'')"
    by (simp_all add: sampleTuple_def validRelationshipTuple_def validateDSLRelationship_def validateEntityRef_def
        validateSubjectRef_def sample_texts isZeroTime_def)
  then show ?thesis
    using versionOK_Nil [of 0 1] sampleTuples_inv
    by (auto simp: versionOK_def tupleIndex.avlGet_Some_iff [OF s] sampleTuples_inorder)
qed

lemma sampleQuery_valid: "validTupleQuery sampleQuery"
proof -
  have texts: "validateIdentifier ''query'' = Inr ()" "validateIdentifier ''validation'' = Inr ()"
    by (simp_all add: validateIdentifier_def validateText_ascii limit_defs)
  show ?thesis
    by (simp add: sampleQuery_def validTupleQuery_def NewTupleQuery_def NewTupleKey_def validateDSLRelationship_def
        validateEntityRef_def validateSubjectRef_def sample_texts texts limit_defs)
qed

lemma sampleQuery_result:
  "NewTupleResult sampleQuery [\<lparr>sr_Type = ''user'', sr_ID = ''ann'', sr_Relation = []\<rparr>,
      \<lparr>sr_Type = ''user'', sr_ID = ''bob'', sr_Relation = []\<rparr>] =
   Inr \<lparr>tr_query = sampleQuery, tr_subjects = [\<lparr>sr_Type = ''user'', sr_ID = ''ann'', sr_Relation = []\<rparr>,
      \<lparr>sr_Type = ''user'', sr_ID = ''bob'', sr_Relation = []\<rparr>]\<rparr>" (is "_ = Inr \<lparr>tr_query = _, tr_subjects = ?ss\<rparr>")
proof -
  have "canonicalSubjectRefs ?ss = ?ss"
    by (simp add: canonicalSubjectRefs_iff compareSubjectRef_def thenCmp_def cmpCompare_def less_char_def)
  moreover have "tupleResultBytes sampleQuery ?ss \<le> int MaxAggregateOutputBytes"
    by (simp add: sampleQuery_def tupleResultBytes_def subjectBytes_def entityBytes_def textBytes_def limit_defs)
  ultimately show ?thesis
    using sampleQuery_valid
    by (simp add: NewTupleResult_def validateTupleResultBytes_Inr_iff NewRelationshipTuple_def
        validateDSLRelationship_def validateEntityRef_def validateSubjectRef_def sample_texts limit_defs)
      (simp_all add: sampleQuery_def sample_texts)
qed

section \<open>Properties\<close>

text \<open>
  C33: OpenSnapshot pins one committed version. However many rounds it waits, a snapshot it returns is
  open with no reader, meets the requested minimum, and holds exactly the tuples, the attributes and
  the generation of the namespace in one state the call found; opening changes nothing stored. A round
  that finds the minimum reached, with a live context, returns at once.
\<close>

theorem OpenSnapshot_pins:
  assumes "\<forall>r \<in> set rounds. dataInv (or_store r)"
  shows "(OpenSnapshot env rounds request s = Some (Inr view, s') \<longrightarrow>
      (\<exists>r \<in> set rounds. \<exists>v. pinned request (or_store r) v view \<and> sameContents (or_store r) s')) \<and>
    (\<forall>r rest. rounds = r # rest \<and> liveEnv env t \<and> validSnapshotRequest request \<and> or_enter r = CtxLive \<and>
      or_leave r = CtxLive \<and> sq_minimumGeneration request \<le> dataGeneration (or_store r) (sq_namespace request) \<longrightarrow>
      (\<exists>view s'. OpenSnapshot env rounds request s = Some (Inr view, s')))"
proof (intro conjI impI allI, goal_cases)
  case 1
  then obtain r where r: "r \<in> set rounds" "pinVersion request (or_store r) = (Some view, s')"
    by (auto simp: OpenSnapshot_def split: sum.splits dest!: openLoop_Inr)
  with assms have "dataInv (or_store r)" by blast
  then show ?case
    by (cases rule: pinVersion_cases [of "or_store r" request]) (use r in auto)
next
  case (2 r rest)
  then have "dataInv (or_store r)" using assms by simp
  from openLoop_now [OF this, of request rest s] 2
  have "\<exists>view s'. openLoop request (r # rest) s = Some (Inr view, s')"
    by (auto simp del: openLoop.simps simp: safeContextError_def ContextError_def)
  moreover have live: "liveEnv env t" using 2 by blast
  ultimately show ?case
    using 2 by (simp del: openLoop.simps add: OpenSnapshot_def liveEnv_simps [OF live] requireR_def)
qed

theorem OpenSnapshot_pins_witness:
  "\<exists>v view s'. OpenSnapshot sampleEnv [\<lparr>or_enter = CtxLive, or_store = dataStore, or_leave = CtxLive, or_done = None,
       or_found = dataStore\<rparr>] \<lparr>sq_namespace = ''acme'', sq_minimumGeneration = 0, sq_readAt = 5\<rparr> dataStore =
     Some (Inr view, s') \<and>
     pinned \<lparr>sq_namespace = ''acme'', sq_minimumGeneration = 0, sq_readAt = 5\<rparr> dataStore v view"
proof -
  let ?rs = "[\<lparr>or_enter = CtxLive, or_store = dataStore, or_leave = CtxLive, or_done = None, or_found = dataStore\<rparr>]"
  let ?q = "\<lparr>sq_namespace = ''acme'', sq_minimumGeneration = 0, sq_readAt = 5\<rparr>"
  have inv: "\<forall>r \<in> set ?rs. dataInv (or_store r)" using dataStore_inv by (simp add: storeInv_def)
  have "validSnapshotRequest ?q"
    by (simp add: validSnapshotRequest_def NewSnapshotRequest_def sample_texts isZeroTime_def)
  then obtain view s' where "OpenSnapshot sampleEnv ?rs ?q dataStore = Some (Inr view, s')"
    using OpenSnapshot_pins [OF inv, of sampleEnv ?q dataStore undefined undefined 5] sampleEnv_live by auto
  with OpenSnapshot_pins [OF inv, of sampleEnv ?q dataStore view s' 5] show ?thesis by auto
qed

text \<open>
  C32: a tuple query is exact. While other calls use or close the snapshot, a query that answers returns
  the subjects of exactly the tuples of the pinned version with the queried resource and relation that
  are not expired at the read time, sorted and without duplicates, never a truncated list. With a live
  context a valid query answers so whenever the bucket fits the work bound and its active tuples fit
  the limit, and reports RESOURCE_EXHAUSTED otherwise.
\<close>

theorem QueryTuples_exact:
  assumes "versionOK v" "sn_version s = Some v" "\<not> sn_closing s"
    and "release (others (s\<lparr>sn_active := sn_active s + 1\<rparr>)) = Some s'"
  shows "(QueryTuples env others query s = Some (Inr r, s'') \<longrightarrow>
      s'' = s' \<and> tr_query r = query \<and> sorted_wrt (\<lambda>a b. compareSubjectRef a b < 0) (tr_subjects r) \<and>
      set (tr_subjects r) = {u. \<exists>w. avlGet compareStoredTuple (dv_tuples v)
          \<lparr>tu_Resource = tq_resource query, tu_Relation = tq_relation query, tu_Subject = u\<rparr> = Some w \<and>
        unexpired (sn_readAt s) w}) \<and>
    (liveEnv env t \<and> validTupleQuery query \<longrightarrow>
      (let ws = bucketOf (tq_resource query) (tq_relation query) (dv_tuples v) in
       QueryTuples env others query s =
         Some (if scanFits (sn_readAt s) (tq_limit query) 0 0 ws
               then NewTupleResult query (activeSubjects (sn_readAt s) ws) else Inl ErrorResourceExhausted, s')))"
proof -
  have valid: "0 \<le> tq_limit query" if "validTupleQuery query"
    using that by (auto simp: validTupleQuery_def NewTupleQuery_def split: if_splits)
  note read = snapshotRead_live [of s v others s', OF assms(2-4)]
  show ?thesis
  proof ((rule conjI; rule impI), goal_cases)
    case 1
    then have q: "validTupleQuery query" "scanTuples env (sn_readAt s) query v = Inr r" "s'' = s'"
      by (auto simp: QueryTuples_def read bindR_Inr_iff split: sum.splits if_splits)
    then have "NewTupleResult query (activeSubjects (sn_readAt s)
        (bucketOf (tq_resource query) (tq_relation query) (dv_tuples v))) = Inr r"
      using scanTuples_eq(2) [OF assms(1) valid] by blast
    then have "r = \<lparr>tr_query = query, tr_subjects = canonicalSubjectRefs (activeSubjects (sn_readAt s)
        (bucketOf (tq_resource query) (tq_relation query) (dv_tuples v)))\<rparr>"
      by (auto simp: NewTupleResult_def bindR_Inr_iff split: if_splits)
    with q(3) show ?case by (simp add: canonicalSubjectRefs_spec bucket_subjects [OF assms(1)])
  next
    case 2
    then have live: "liveEnv env t" "validTupleQuery query" by blast+
    show ?case
      using scanTuples_eq(1) [OF assms(1) valid [OF live(2)] live(1)] live(2)
      by (simp add: QueryTuples_def contextDone_def liveEnv_simps [OF live(1)] read requireR_def Let_def)
  qed
qed

theorem QueryTuples_exact_witness:
  "\<exists>s'. QueryTuples sampleEnv id sampleQuery sampleSnapshot =
     Some (Inr \<lparr>tr_query = sampleQuery, tr_subjects = [\<lparr>sr_Type = ''user'', sr_ID = ''ann'', sr_Relation = []\<rparr>,
       \<lparr>sr_Type = ''user'', sr_ID = ''bob'', sr_Relation = []\<rparr>]\<rparr>, s')"
proof -
  let ?v = "\<lparr>dv_ref = 0, dv_generation = 1, dv_tuples = sampleTuples, dv_attributes = Nil\<rparr>"
  have r: "release (id (sampleSnapshot\<lparr>sn_active := sn_active sampleSnapshot + 1\<rparr>)) = Some sampleSnapshot"
    by (simp add: release_def sampleSnapshot_def)
  have b: "bucketOf (tq_resource sampleQuery) (tq_relation sampleQuery) (dv_tuples ?v) =
      [sampleTuple ''ann'', sampleTuple ''bob'']"
    by (simp add: bucketOf_def sampleTuples_inorder inBucket_def sampleQuery_def sampleTuple_def)
  have "activeSubjects (sn_readAt sampleSnapshot) [sampleTuple ''ann'', sampleTuple ''bob''] =
      [\<lparr>sr_Type = ''user'', sr_ID = ''ann'', sr_Relation = []\<rparr>, \<lparr>sr_Type = ''user'', sr_ID = ''bob'', sr_Relation = []\<rparr>]"
    by (simp add: activeSubjects_def unexpired_def sampleTuple_def)
  moreover have "tq_limit sampleQuery = 2" by (simp add: sampleQuery_def)
  moreover have "sn_version sampleSnapshot = Some ?v" "\<not> sn_closing sampleSnapshot" by (simp_all add: sampleSnapshot_def)
  ultimately show ?thesis
    using QueryTuples_exact [of ?v sampleSnapshot id sampleSnapshot sampleEnv sampleQuery undefined undefined 5]
      sampleVersion_ok r sampleEnv_live sampleQuery_valid sampleQuery_result
    unfolding b Let_def by (simp add: scanFits_def limit_defs)
qed

text \<open>
  C34: the life cycle of a snapshot is safe under every interleaving of its readers and closers. It never
  panics (closeDone is closed at most once, no reader meets a dropped version): the reader count is the
  number of admitted readers, each was handed the version pinned at the start, which is still held
  while one is inside; the version is dropped and the closers are let through exactly when the snapshot
  is closing and the last reader has left; and after Close has begun nobody is admitted.
\<close>

theorem snapshotLifecycle_safe:
  assumes "freshSnapshot v s" "snapshotStep\<^sup>*\<^sup>* (opened s) y"
  shows "\<exists>s'. sy_snapshot y = Some s' \<and> sn_active s' = int (card (dom (sy_readers y))) \<and>
    (\<forall>i w. sy_readers y i = Some w \<longrightarrow> w = Some v \<and> sn_version s' = Some v \<and> sn_owner s') \<and>
    (sn_closeDone s' \<longleftrightarrow> sn_closing s' \<and> dom (sy_readers y) = {}) \<and>
    (sn_version s' = None \<longleftrightarrow> sn_closeDone s') \<and>
    (sn_closing s' \<longrightarrow> (\<forall>y'. snapshotStep y y' \<longrightarrow> dom (sy_readers y') \<subseteq> dom (sy_readers y)))"
proof -
  obtain s' where s': "sy_snapshot y = Some s'" "sn_active s' = int (card (dom (sy_readers y)))"
    "sn_closeDone s' \<longleftrightarrow> sn_closing s' \<and> dom (sy_readers y) = {}"
    "sn_version s' = (if sn_closeDone s' then None else Some v)" "sn_owner s' = (\<not> sn_closeDone s')"
    and ran: "ran (sy_readers y) \<subseteq> {Some v}"
    using lifecycle_reachable [OF assms] unfolding lifecycleInv_def by blast
  have "w = Some v \<and> sn_version s' = Some v \<and> sn_owner s'" if "sy_readers y i = Some w" for i w
    using that ran s' by (auto simp: ran_def)
  moreover have "dom (sy_readers y') \<subseteq> dom (sy_readers y)" if "sn_closing s'" "snapshotStep y y'" for y'
    using that(2) by cases (use that(1) s'(1) in \<open>auto simp: admit_def\<close>)
  ultimately show ?thesis using s' by auto
qed

text \<open>A reader enters, Close begins and waits, the reader leaves, Close returns.\<close>

definition sampleInside :: snapshotSystem where
  "sampleInside =
     \<lparr>sy_snapshot = Some (sampleSnapshot\<lparr>sn_active := 1, sn_closing := True\<rparr>),
      sy_readers = [1 \<mapsto> sn_version sampleSnapshot], sy_closers = {2}\<rparr>"

lemma sampleInside_reachable: "snapshotStep\<^sup>*\<^sup>* (opened sampleSnapshot) sampleInside"
proof -
  let ?y = "(opened sampleSnapshot)\<lparr>sy_snapshot := Some (sampleSnapshot\<lparr>sn_active := 1\<rparr>),
      sy_readers := (sy_readers (opened sampleSnapshot))(1 \<mapsto> sn_version sampleSnapshot)\<rparr>"
  have "snapshotStep (opened sampleSnapshot) ?y"
    by (rule Admitted [of _ sampleSnapshot]) (simp_all add: opened_def admit_def sampleSnapshot_def)
  moreover have "snapshotStep ?y (?y\<lparr>sy_snapshot := closeBegin (sampleSnapshot\<lparr>sn_active := 1\<rparr>),
      sy_closers := insert 2 (sy_closers ?y)\<rparr>)"
    by (rule Closing) (simp_all add: opened_def)
  then have "snapshotStep ?y sampleInside"
    by (simp add: opened_def sampleInside_def closeBegin_def sampleSnapshot_def)
  ultimately show ?thesis by (meson converse_rtranclp_into_rtranclp r_into_rtranclp)
qed

theorem snapshotLifecycle_safe_witness:
  "\<exists>s'. sy_snapshot sampleInside = Some s' \<and> sn_closing s' \<and> \<not> sn_closeDone s' \<and>
     sn_version s' = sn_version sampleSnapshot"
  using snapshotLifecycle_safe [OF sampleSnapshot_fresh sampleInside_reachable]
  by (auto simp: sampleInside_def sampleSnapshot_def)

text \<open>
  C35: Close returns. From any state the calls on a snapshot can reach, the admitted readers and the
  waiting closers leave in at most as many steps as there are of them, whatever their order: they are
  never stuck before all of them have left.
\<close>

theorem Close_returns:
  assumes "freshSnapshot v s" "snapshotStep\<^sup>*\<^sup>* (opened s) y" "(drainStep ^^ n) y y'"
  shows "snapshotStep\<^sup>*\<^sup>* (opened s) y' \<and> n \<le> card (dom (sy_readers y)) + card (sy_closers y) \<and>
    ((\<exists>y''. drainStep y' y'') \<or> sy_closers y' = {} \<and> dom (sy_readers y') = {}) \<and>
    (n = card (dom (sy_readers y)) + card (sy_closers y) \<longrightarrow> sy_closers y' = {} \<and> dom (sy_readers y') = {})"
proof -
  have inv: "lifecycleInv v y" by (rule lifecycle_reachable [OF assms(1,2)])
  note d = drain_bounded [OF inv assms(3)]
  have "snapshotStep\<^sup>*\<^sup>* y y'"
    using assms(3)
  proof (induction n arbitrary: y')
    case (Suc n)
    then obtain z where z: "(drainStep ^^ n) y z" "drainStep z y'" by auto
    from drain_bounded [OF inv z(1)] have "snapshotStep z y'" using drain_step(2) [OF _ z(2)] by blast
    with Suc.IH [OF z(1)] show ?case by auto
  qed simp
  moreover have "finite (dom (sy_readers y'))" "finite (sy_closers y')" using d by (auto simp: lifecycleInv_def)
  ultimately show ?thesis
    using d drain_progress [of v y'] assms(2) by auto
qed

theorem Close_returns_witness:
  "\<exists>y. (drainStep ^^ 2) sampleInside y \<and> sy_closers y = {} \<and> dom (sy_readers y) = {}"
proof -
  have inv: "lifecycleInv \<lparr>dv_ref = 0, dv_generation = 1, dv_tuples = sampleTuples, dv_attributes = Nil\<rparr> sampleInside"
    by (rule lifecycle_reachable [OF sampleSnapshot_fresh sampleInside_reachable])
  have c: "card (dom (sy_readers sampleInside)) = 1" "card (sy_closers sampleInside) = 1"
    by (simp_all add: sampleInside_def)
  obtain y where y: "drainStep sampleInside y"
    using drain_progress [OF inv] by (auto simp: sampleInside_def)
  note s = drain_step [OF inv y]
  then have "sy_closers y \<noteq> {} \<or> dom (sy_readers y) \<noteq> {}"
    using c by (auto simp: lifecycleInv_def)
  then obtain z where "drainStep y z" using drain_progress [OF s(1)] by blast
  with y have z: "(drainStep ^^ 2) sampleInside z" by (auto simp: numeral_2_eq_2)
  then show ?thesis
    using Close_returns [OF sampleSnapshot_fresh sampleInside_reachable z] c by auto
qed

end
