(* ===== verification/Memory_Concurrency.thy ===== *)
theory Memory_Concurrency
  imports Memory_Snapshots
begin

text \<open>
  The calls on one memory store, interleaved. A writing call is three critical sections under the
  store's mutex: it reserves its key, commits, and releases the reservation, with work outside the
  mutex in between. The sections are those of Memory_Slots, Memory_Revisions and Memory_Data; here
  they are the steps of a transition system with any number of calls. The lemmas show that the
  reservations are exclusive and keep what a call has prepared valid until it commits.
\<close>

section \<open>Calls in flight\<close>

text \<open>What a call that holds a reservation is about to commit; \<open>WorkDone\<close> has only to release.\<close>

datatype work =
    WorkActivate ActivateRequest uint64
  | WorkPut RevisionRecord PutRevisionResult
  | WorkWrite WriteDataRequest bytes dataVersion dataVersion WriteDataResponse
  | WorkDone

record call =
  cl_reservation :: commitReservation
  cl_work :: work

record system =
  sm_store :: Store
  sm_calls :: "nat \<rightharpoonup> call"

inductive systemStep :: "(bytes \<Rightarrow> bytes) \<Rightarrow> ('art, 'm) Dsl_scheme \<Rightarrow> system \<Rightarrow> system \<Rightarrow> bool"
  for sha256 :: "bytes \<Rightarrow> bytes" and dsl :: "('art, 'm) Dsl_scheme" where
  Activate_reserves: "sm_calls y i = None \<Longrightarrow>
    isOk (NewActivateRequest (ar_namespace request) (ar_slot request) (ar_targetRevisionID request) (ar_expectation request)) \<Longrightarrow>
    activateReserve request (sm_store y) = (Inr (q, g, f), s') \<Longrightarrow>
    systemStep sha256 dsl y \<lparr>sm_store = s', sm_calls = (sm_calls y)(i \<mapsto> \<lparr>cl_reservation = q, cl_work = WorkActivate request g\<rparr>)\<rparr>"
| Activate_refused: "activateReserve request (sm_store y) = (Inl e, s') \<Longrightarrow> systemStep sha256 dsl y (y\<lparr>sm_store := s'\<rparr>)"
| Put_reserves: "sm_calls y i = None \<Longrightarrow> NewRevisionRecordFromWrite sha256 dsl write = Inr record \<Longrightarrow>
    NewPutRevisionResult sha256 dsl record True = Inr created \<Longrightarrow>
    putRevisionReserve record (sm_store y) = (PutReserved q f, s') \<Longrightarrow>
    systemStep sha256 dsl y \<lparr>sm_store = s', sm_calls = (sm_calls y)(i \<mapsto> \<lparr>cl_reservation = q, cl_work = WorkPut record created\<rparr>)\<rparr>"
| Put_refused: "putRevisionReserve write (sm_store y) = (a, s') \<Longrightarrow> \<forall>q f. a \<noteq> PutReserved q f \<Longrightarrow>
    systemStep sha256 dsl y (y\<lparr>sm_store := s'\<rparr>)"
| Write_reserves: "sm_calls y i = None \<Longrightarrow> FingerprintWriteData sha256 request = Inr (scope, f) \<Longrightarrow>
    writeReserve (fingerprintBytes f) request (sm_store y) = (WriteReserved q base candidate response failEvent, s') \<Longrightarrow>
    systemStep sha256 dsl y \<lparr>sm_store = s', sm_calls = (sm_calls y)(i \<mapsto>
      \<lparr>cl_reservation = q, cl_work = WorkWrite request (fingerprintBytes f) base candidate response\<rparr>)\<rparr>"
| Write_refused: "writeReserve fp request (sm_store y) = (a, s') \<Longrightarrow>
    \<forall>q base candidate response f. a \<noteq> WriteReserved q base candidate response f \<Longrightarrow>
    systemStep sha256 dsl y (y\<lparr>sm_store := s'\<rparr>)"
| Meets_failure: "sm_calls y i = Some c \<Longrightarrow> consumeEventFailure (cl_reservation c) (sm_store y) = (x, s') \<Longrightarrow>
    systemStep sha256 dsl y (y\<lparr>sm_store := s'\<rparr>)"
| Gives_up: "sm_calls y i = Some c \<Longrightarrow>
    systemStep sha256 dsl y \<lparr>sm_store = sm_store y, sm_calls = (sm_calls y)(i \<mapsto> c\<lparr>cl_work := WorkDone\<rparr>)\<rparr>"
| Activate_commits: "sm_calls y i = Some c \<Longrightarrow> cl_work c = WorkActivate request g \<Longrightarrow>
    activateCommit sha256 d err request (cl_reservation c) g t (sm_store y) = (x, s') \<Longrightarrow>
    systemStep sha256 dsl y \<lparr>sm_store = s', sm_calls = (sm_calls y)(i \<mapsto> c\<lparr>cl_work := WorkDone\<rparr>)\<rparr>"
| Put_commits: "sm_calls y i = Some c \<Longrightarrow> cl_work c = WorkPut record created \<Longrightarrow>
    putRevisionCommit sha256 dsl d err record created (cl_reservation c) t (sm_store y) = (x', s') \<Longrightarrow>
    systemStep sha256 dsl y \<lparr>sm_store = s', sm_calls = (sm_calls y)(i \<mapsto> c\<lparr>cl_work := WorkDone\<rparr>)\<rparr>"
| Write_commits: "sm_calls y i = Some c \<Longrightarrow> cl_work c = WorkWrite request fp base candidate response \<Longrightarrow>
    writeCommit sha256 d err request fp (cl_reservation c) base candidate response t (sm_store y) = (x'', s') \<Longrightarrow>
    systemStep sha256 dsl y \<lparr>sm_store = s', sm_calls = (sm_calls y)(i \<mapsto> c\<lparr>cl_work := WorkDone\<rparr>)\<rparr>"
| Releases: "sm_calls y i = Some c \<Longrightarrow> cl_work c = WorkDone \<Longrightarrow>
    systemStep sha256 dsl y \<lparr>sm_store = releaseCommitReservationLocked (cl_reservation c) (sm_store y),
      sm_calls = (sm_calls y)(i := None)\<rparr>"
| Reads_events: "listEventsSection n t (sm_store y) = (vals, s') \<Longrightarrow> systemStep sha256 dsl y (y\<lparr>sm_store := s'\<rparr>)"
| Waits: "registerGenerationWaitLocked n (sm_store y) = (wait, s') \<Longrightarrow> systemStep sha256 dsl y (y\<lparr>sm_store := s'\<rparr>)"
| Wakes: "systemStep sha256 dsl y (y\<lparr>sm_store := unregisterGenerationWaitLocked n wait (sm_store y)\<rparr>)"
| Pins: "pinVersion request' (sm_store y) = (view, s') \<Longrightarrow> systemStep sha256 dsl y (y\<lparr>sm_store := s'\<rparr>)"
| Arms_failure: "systemStep sha256 dsl y (y\<lparr>sm_store := (sm_store y)\<lparr>st_failNextEvent := True\<rparr>\<rparr>)"

definition startSystem :: "bytes \<Rightarrow> system" where
  "startSystem key = \<lparr>sm_store = freshStore key, sm_calls = Map.empty\<rparr>"

section \<open>What a reservation protects\<close>

definition workKey :: "work \<Rightarrow> commitReservationKey option" where
  "workKey w =
     (case w of
        WorkActivate request _ \<Rightarrow> Some (slotKey request)
      | WorkPut record _ \<Rightarrow> Some (revisionReservationKey (rm_namespace (rc_metadata record)))
      | WorkWrite request _ _ _ _ \<Rightarrow> Some (dataReservationKey (wr_namespace request))
      | WorkDone \<Rightarrow> None)"

text \<open>What a call has established when it reserved.\<close>

definition prepared :: "(bytes \<Rightarrow> bytes) \<Rightarrow> ('art, 'm) Dsl_scheme \<Rightarrow> work \<Rightarrow> Store \<Rightarrow> bool" where
  "prepared sha256 dsl w s =
     (case w of
        WorkActivate request g \<Rightarrow>
          isOk (NewActivateRequest (ar_namespace request) (ar_slot request) (ar_targetRevisionID request)
            (ar_expectation request)) \<and> activateChecks request s = Inr g
      | WorkPut record _ \<Rightarrow> validRevisionRecord sha256 dsl record \<and>
          nested (st_revisions s) (rm_namespace (rc_metadata record)) (rm_ID (rc_metadata record)) = None
      | WorkWrite request fp base candidate response \<Rightarrow>
          validMutations request \<and> candidateFor request candidate response s \<and> writeUnchanged request base s \<and>
          idempotencyRecord (st_data s (wr_namespace request)) (wr_idempotencyKey request) = None \<and>
          nested (st_revisions s) (wr_namespace request) (wr_validationRevisionID request) \<noteq> None
      | WorkDone \<Rightarrow> True)"

text \<open>
  A section that changes only what the holder of \<open>k\<close> may change: the data of its namespace, its slot,
  or new revisions of its namespace. Stored revisions stay and generations never go back.
\<close>

definition slotGeneration :: "Store \<Rightarrow> string \<Rightarrow> string \<Rightarrow> nat" where
  "slotGeneration s n sl = (case nested (st_slots s) n sl of None \<Rightarrow> 0 | Some ss \<Rightarrow> unat (ac_generation (ss_current ss)))"

definition guardedBy :: "commitReservationKey option \<Rightarrow> Store \<Rightarrow> Store \<Rightarrow> bool" where
  "guardedBy k s s' \<longleftrightarrow>
     (\<forall>n. k \<noteq> Some (dataReservationKey n) \<longrightarrow> st_data s' n = st_data s n) \<and>
     (\<forall>n sl. k \<noteq> Some \<lparr>ck_domain = ''slot'', ck_namespace = n, ck_name = sl\<rparr> \<longrightarrow>
        nested (st_slots s') n sl = nested (st_slots s) n sl) \<and>
     (\<forall>n i. k \<noteq> Some (revisionReservationKey n) \<or> nested (st_revisions s) n i \<noteq> None \<longrightarrow>
        nested (st_revisions s') n i = nested (st_revisions s) n i) \<and>
     (\<forall>n. dataGeneration s n \<le> dataGeneration s' n) \<and> (\<forall>n sl. slotGeneration s n sl \<le> slotGeneration s' n sl) \<and>
     (\<forall>n. highWater s n \<le> highWater s' n) \<and> st_effectiveTime s \<le> st_effectiveTime s' \<and>
     st_cursorKeyOK s' = st_cursorKeyOK s"

lemma guardedBy_refl [simp]: "guardedBy k s s"
  by (simp add: guardedBy_def)

lemma guardedBy_trans:
  assumes "guardedBy k s s1" "guardedBy k s1 s2"
  shows "guardedBy k s s2"
proof -
  note a = assms(1) [unfolded guardedBy_def] and b = assms(2) [unfolded guardedBy_def]
  have "nested (st_revisions s2) n i = nested (st_revisions s) n i"
    if "k \<noteq> Some (revisionReservationKey n) \<or> nested (st_revisions s) n i \<noteq> None" for n i
  proof -
    have "nested (st_revisions s1) n i = nested (st_revisions s) n i" using a that by blast
    moreover from this have "nested (st_revisions s2) n i = nested (st_revisions s1) n i" using b that by metis
    ultimately show ?thesis by simp
  qed
  moreover have "dataGeneration s n \<le> dataGeneration s2 n" "slotGeneration s n sl \<le> slotGeneration s2 n sl"
    "highWater s n \<le> highWater s2 n" "st_effectiveTime s \<le> st_effectiveTime s2" for n sl
    using a b order_trans by meson+
  ultimately show ?thesis using a b by (simp add: guardedBy_def)
qed

lemma sameContents_guarded: "sameContents s s' \<Longrightarrow> guardedBy k s s'"
  by (simp add: guardedBy_def sameContents_def dataGeneration_def slotGeneration_def highWater_def)

lemma reservation_domains [simp]:
  "dataReservationKey n \<noteq> slotKey r" "slotKey r \<noteq> dataReservationKey n"
  "dataReservationKey n \<noteq> revisionReservationKey m" "revisionReservationKey m \<noteq> dataReservationKey n"
  "revisionReservationKey n \<noteq> slotKey r" "slotKey r \<noteq> revisionReservationKey n"
  "dataReservationKey n = dataReservationKey m \<longleftrightarrow> n = m" "revisionReservationKey n = revisionReservationKey m \<longleftrightarrow> n = m"
  by (auto simp: dataReservationKey_def revisionReservationKey_def slotKey_def)

lemma prepared_stable:
  assumes "prepared sha256 dsl w s" "guardedBy k s s'" "w \<noteq> WorkDone" "k \<noteq> workKey w"
  shows "prepared sha256 dsl w s'"
proof (cases w)
  case (WorkActivate request g)
  then have "nested (st_slots s') (ar_namespace request) (ar_slot request) =
      nested (st_slots s) (ar_namespace request) (ar_slot request)"
    using assms(2,4) by (simp add: guardedBy_def workKey_def slotKey_def)
  moreover have "nested (st_revisions s') (ar_namespace request) (ar_targetRevisionID request) =
      nested (st_revisions s) (ar_namespace request) (ar_targetRevisionID request)"
    using assms(1,2) activateChecks_Inr(2) WorkActivate by (auto simp: prepared_def guardedBy_def)
  ultimately show ?thesis
    using assms(1) WorkActivate by (simp add: prepared_def activateChecks_def)
next
  case (WorkPut r created)
  then show ?thesis
    using assms by (simp add: prepared_def guardedBy_def workKey_def)
next
  case (WorkWrite request fp base candidate response)
  then have d: "st_data s' (wr_namespace request) = st_data s (wr_namespace request)"
    using assms(2,4) by (simp add: guardedBy_def workKey_def)
  then show ?thesis
    using assms(1,2) WorkWrite candidateFor_frame [OF _ d]
    by (simp add: prepared_def guardedBy_def writeUnchanged_def)
qed (use assms in simp)

lemma slotGeneration_frame: "st_slots s' = st_slots s \<Longrightarrow> slotGeneration s' = slotGeneration s"
  unfolding slotGeneration_def by simp

lemma dataGeneration_frame: "st_data s' n = st_data s n \<Longrightarrow> dataGeneration s' n = dataGeneration s n"
  by (simp add: dataGeneration_def)

lemma activateCommit_guarded:
  assumes inv: "storeInv sha256 dsl s" and run: "activateCommit sha256 d err request q g t s = (x, s')"
  shows "storeInv sha256 dsl s' \<and> guardedBy (Some (slotKey request)) s s' \<and> st_reservations s' = st_reservations s"
proof (cases x)
  case (Inl e)
  with activateCommit_Inl run sameContents_store [OF _ inv] sameContents_guarded show ?thesis by blast
next
  case (Inr a)
  let ?n = "ar_namespace request" and ?sl = "ar_slot request"
  note ok = activateCommit_effect [OF _ _ run [unfolded Inr]]
  have inv': "eventsInv sha256 s" "slotsInv s" using inv by (simp_all add: storeInv_def)
  have act: "activated request a s s'" using ok(1) inv' by blast
  have slots: "nested (st_slots s') m sl =
      (if m = ?n \<and> sl = ?sl then Some (storeActivation a (nested (st_slots s) ?n ?sl)) else nested (st_slots s) m sl)" for m sl
    using act by (simp add: activated_def Let_def)
  have gen: "slotGeneration s' ?n ?sl = slotGeneration s ?n ?sl + 1"
    using act by (simp add: activated_def Let_def slotGeneration_def storeActivation_def split: option.splits)
  have le: "slotGeneration s m sl \<le> slotGeneration s' m sl" for m sl
    using gen slots [of m sl] by (cases "m = ?n \<and> sl = ?sl") (auto simp: slotGeneration_def)
  have rest: "st_revisions s' = st_revisions s" "st_revisionOrder s' = st_revisionOrder s" "st_data s' = st_data s"
    "st_effectiveTime s \<le> st_effectiveTime s'" "highWater s m \<le> highWater s' m" for m
    using act by (simp_all add: activated_def Let_def)
  have "guardedBy (Some (slotKey request)) s s'"
    using rest le slots ok(6) [OF inv'] by (auto simp: guardedBy_def slotKey_def dataGeneration_def)
  moreover have "storeInv sha256 dsl s'"
    using inv ok(2,3) [OF inv'] revisionsInv_frame [of sha256 dsl, OF _ rest(1,2)] dataInv_frame [OF _ rest(3)]
    by (simp add: storeInv_def)
  ultimately show ?thesis using ok(4) [OF inv'] by blast
qed

lemma effectiveTimeLocked_keys:
  "effectiveTimeLocked t s = (t1, s1) \<Longrightarrow> st_cursorKeyOK s1 = st_cursorKeyOK s"
  by (auto simp: effectiveTimeLocked_def split: if_splits)

lemma putRevisionCommit_guarded:
  assumes inv: "storeInv sha256 dsl s" and w: "validRevisionRecord sha256 dsl r"
    and run: "putRevisionCommit sha256 dsl d err r created q t s = (x, s')"
  shows "storeInv sha256 dsl s' \<and> guardedBy (Some (revisionReservationKey (rm_namespace (rc_metadata r)))) s s' \<and>
    st_reservations s' = st_reservations s"
  using run
proof (cases rule: putRevisionCommit_cases)
  case (fails e)
  with sameContents_store [OF _ inv] sameContents_guarded show ?thesis by blast
next
  case (exists existing)
  with inv show ?thesis by simp
next
  case (commits t1 s1 e)
  have inv': "eventsInv sha256 s" "revisionsInv sha256 dsl s" "slotsInv s" using inv by (simp_all add: storeInv_def)
  note pub = putRevisionCommit_published [OF inv' w commits(3,2,4,5)]
  have rest: "st_slots s' = st_slots s" "st_data s' = st_data s" "st_effectiveTime s \<le> st_effectiveTime s'"
    "highWater s m \<le> highWater s' m"
    "nested (st_revisions s') m j = (if m = rm_namespace (rc_metadata r) \<and> j = rm_ID (rc_metadata r)
       then Some r else nested (st_revisions s) m j)" for m j
    using pub(1) by (simp_all add: published_def Let_def)
  have "st_cursorKeyOK s' = st_cursorKeyOK s"
    using effectiveTimeLocked_keys [OF commits(2)] by (simp add: commits(5))
  then have "guardedBy (Some (revisionReservationKey (rm_namespace (rc_metadata r)))) s s'"
    using rest commits(3) slotGeneration_frame [OF rest(1)] by (auto simp: guardedBy_def dataGeneration_def)
  with pub inv dataInv_frame [OF _ rest(2)] show ?thesis by (simp add: storeInv_def)
qed

lemma writeCommit_guarded:
  assumes inv: "storeInv sha256 dsl s" and c: "candidateFor request candidate response s"
    and run: "writeCommit sha256 d err request fp q base candidate response t s = (x, s')"
  shows "storeInv sha256 dsl s' \<and> guardedBy (Some (dataReservationKey (wr_namespace request))) s s' \<and>
    st_reservations s' = st_reservations s"
  using run
proof (cases rule: writeCommit_cases)
  case (fails e)
  with sameContents_store [OF _ inv] sameContents_guarded show ?thesis by blast
next
  case (exists previous)
  with inv show ?thesis by simp
next
  case (commits t1 s1 e)
  let ?n = "wr_namespace request"
  have inv': "eventsInv sha256 s" "dataInv s" "slotsInv s" using inv by (simp_all add: storeInv_def)
  note wr = writeCommit_written [OF inv' c commits(3,5,2,6,7)]
  have rest: "st_slots s' = st_slots s" "m \<noteq> ?n \<longrightarrow> st_data s' m = st_data s m" "st_effectiveTime s \<le> st_effectiveTime s'"
    "highWater s m \<le> highWater s' m" "dataGeneration s ?n \<noteq> MaxUint64" "dataGeneration s' ?n = dataGeneration s ?n + 1" for m
    using wr(1) by (auto simp: written_def Let_def)
  have "dataGeneration s ?n \<le> dataGeneration s' ?n"
    using unat_succ [OF rest(5)] rest(6) by (simp add: word_le_nat_alt)
  then have le: "dataGeneration s m \<le> dataGeneration s' m" for m
    using rest(2) [of m] by (cases "m = ?n") (auto simp: dataGeneration_def)
  have "st_cursorKeyOK s' = st_cursorKeyOK s"
    using effectiveTimeLocked_keys [OF commits(2)] by (simp add: commits(7) notifyGenerationWaitersLocked_def)
  then have "guardedBy (Some (dataReservationKey ?n)) s s'"
    using rest le wr(6) slotGeneration_frame [OF rest(1)] by (auto simp: guardedBy_def)
  with wr inv revisionsInv_frame [of sha256 dsl, OF _ wr(6,7)] show ?thesis by (simp add: storeInv_def)
qed

lemma listEvents_guarded:
  assumes inv: "storeInv sha256 dsl s" and run: "listEventsSection n t s = (vals, s')"
  shows "storeInv sha256 dsl s' \<and> guardedBy None s s' \<and> st_reservations s' = st_reservations s"
proof -
  obtain t1 s1 where eff: "effectiveTimeLocked t s = (t1, s1)" by (cases "effectiveTimeLocked t s")
  have s1: "sameContents s s1" "st_reservations s1 = st_reservations s"
    using eff by (auto simp: effectiveTimeLocked_def sameContents_def split: if_splits)
  have s': "s' = pruneEventsLocked n t1 s1"
    using run eff by (auto simp: listEventsSection_def Let_def split: option.splits)
  have inv1: "storeInv sha256 dsl s1" by (rule sameContents_store [OF s1(1) inv])
  have "eventsInv sha256 s'" "highWater s' m = highWater s1 m" for m
    using pruneEventsLocked_inv [of sha256 s1] inv1 by (simp_all add: s' storeInv_def)
  moreover have "slotsInv s'"
    using inv1 by (rule_tac slotsInv_frame [of s1]) (simp_all add: s' storeInv_def)
  moreover have "guardedBy None s1 s'"
    using calculation(2) by (simp add: guardedBy_def s' dataGeneration_def slotGeneration_def)
  moreover have "guardedBy None s s'" by (rule guardedBy_trans [OF sameContents_guarded [OF s1(1)] calculation(4)])
  moreover have "revisionsInv sha256 dsl s'"
    using inv1 by (rule_tac revisionsInv_frame [of sha256 dsl s1]) (simp_all add: s' storeInv_def)
  moreover have "dataInv s'" using inv1 by (rule_tac dataInv_frame [of s1]) (simp_all add: s' storeInv_def)
  ultimately show ?thesis by (simp add: storeInv_def s' s1(2))
qed

section \<open>The invariant of the system\<close>

text \<open>
  Every call in flight holds the reservation of its own key, no two calls hold the same key, and what
  a call has prepared is still true of the store.
\<close>

definition systemInv :: "(bytes \<Rightarrow> bytes) \<Rightarrow> ('art, 'm) Dsl_scheme \<Rightarrow> system \<Rightarrow> bool" where
  "systemInv sha256 dsl y \<longleftrightarrow>
     storeInv sha256 dsl (sm_store y) \<and> st_cursorKeyOK (sm_store y) \<and>
     (\<forall>i c. sm_calls y i = Some c \<longrightarrow>
        st_reservations (sm_store y) (cr_key (cl_reservation c)) = Some (cl_reservation c) \<and>
        (cl_work c \<noteq> WorkDone \<longrightarrow> workKey (cl_work c) = Some (cr_key (cl_reservation c))) \<and>
        prepared sha256 dsl (cl_work c) (sm_store y)) \<and>
     (\<forall>i j c d. sm_calls y i = Some c \<longrightarrow> sm_calls y j = Some d \<longrightarrow>
        cr_key (cl_reservation c) = cr_key (cl_reservation d) \<longrightarrow> i = j)"

lemma systemInv_intro:
  assumes "storeInv sha256 dsl s" "st_cursorKeyOK s"
    and "\<And>i c. calls i = Some c \<Longrightarrow> st_reservations s (cr_key (cl_reservation c)) = Some (cl_reservation c)"
    and "\<And>i c. calls i = Some c \<Longrightarrow> cl_work c \<noteq> WorkDone \<Longrightarrow> workKey (cl_work c) = Some (cr_key (cl_reservation c))"
    and "\<And>i c. calls i = Some c \<Longrightarrow> prepared sha256 dsl (cl_work c) s"
    and "\<And>i j c d. calls i = Some c \<Longrightarrow> calls j = Some d \<Longrightarrow> cr_key (cl_reservation c) = cr_key (cl_reservation d) \<Longrightarrow> i = j"
  shows "systemInv sha256 dsl \<lparr>sm_store = s, sm_calls = calls\<rparr>"
  using assms by (simp add: systemInv_def)

lemma systemInv_keys:
  "systemInv sha256 dsl y \<Longrightarrow> sm_calls y i = Some c \<Longrightarrow> sm_calls y j = Some d \<Longrightarrow>
   cr_key (cl_reservation c) = cr_key (cl_reservation d) \<Longrightarrow> i = j"
  unfolding systemInv_def by blast

lemma systemInv_call:
  assumes "systemInv sha256 dsl y" "sm_calls y i = Some c"
  shows "st_reservations (sm_store y) (cr_key (cl_reservation c)) = Some (cl_reservation c)"
    "cl_work c \<noteq> WorkDone \<Longrightarrow> workKey (cl_work c) = Some (cr_key (cl_reservation c))"
    "prepared sha256 dsl (cl_work c) (sm_store y)" "ownsCommitReservationLocked (cl_reservation c) (sm_store y)"
  using assms by (auto simp: systemInv_def ownsCommitReservationLocked_def)

lemma prepared_done [simp]: "prepared sha256 dsl WorkDone s"
  by (simp add: prepared_def)

lemma prepared_section:
  assumes "systemInv sha256 dsl y" "sm_calls y i = Some c" "guardedBy k (sm_store y) s'"
    "k \<noteq> Some (cr_key (cl_reservation c))"
  shows "prepared sha256 dsl (cl_work c) s'"
  using assms systemInv_call(2,3) [OF assms(1,2)] prepared_stable [of sha256 dsl "cl_work c"]
  by (cases "cl_work c = WorkDone") auto

lemma systemInv_reserve:
  assumes inv: "systemInv sha256 dsl y" and i: "sm_calls y i = None" and same: "sameContents (sm_store y) s'"
    and res: "st_reservations (sm_store y) (cr_key q) = None"
      "st_reservations s' = (st_reservations (sm_store y))(cr_key q \<mapsto> q)"
    and w: "workKey w = Some (cr_key q)" "prepared sha256 dsl w (sm_store y)" "w \<noteq> WorkDone"
  shows "systemInv sha256 dsl \<lparr>sm_store = s', sm_calls = (sm_calls y)(i \<mapsto> \<lparr>cl_reservation = q, cl_work = w\<rparr>)\<rparr>"
proof -
  have g: "guardedBy None (sm_store y) s'" by (rule sameContents_guarded [OF same])
  have w': "prepared sha256 dsl w s'" using prepared_stable [OF w(2) g w(3)] w(1) by simp
  have keys: "cr_key (cl_reservation c) \<noteq> cr_key q" if "sm_calls y j = Some c" for j c
    using systemInv_call(1) [OF inv that] res(1) by auto
  have prep: "prepared sha256 dsl (cl_work c) s'" if "sm_calls y j = Some c" for j c
    by (rule prepared_section [OF inv that g]) simp
  have s': "storeInv sha256 dsl s'" "st_cursorKeyOK s'"
    using inv sameContents_store [OF same, of sha256 dsl] same by (simp_all add: systemInv_def sameContents_def)
  show ?thesis
  proof (rule systemInv_intro [OF s'])
    fix j c assume "((sm_calls y)(i \<mapsto> \<lparr>cl_reservation = q, cl_work = w\<rparr>)) j = Some c"
    then show "st_reservations s' (cr_key (cl_reservation c)) = Some (cl_reservation c)"
      "prepared sha256 dsl (cl_work c) s'"
      "cl_work c \<noteq> WorkDone \<Longrightarrow> workKey (cl_work c) = Some (cr_key (cl_reservation c))"
      using w(1) w' keys prep systemInv_call(1,2) [OF inv] by (auto simp: res(2) split: if_splits)
  next
    fix j k c d assume "((sm_calls y)(i \<mapsto> \<lparr>cl_reservation = q, cl_work = w\<rparr>)) j = Some c"
      "((sm_calls y)(i \<mapsto> \<lparr>cl_reservation = q, cl_work = w\<rparr>)) k = Some d"
      "cr_key (cl_reservation c) = cr_key (cl_reservation d)"
    then show "j = k"
      using keys [of k d] keys [of j c] systemInv_keys [OF inv, of j c k d] by (auto split: if_splits)
  qed
qed

lemma systemInv_quiet:
  assumes inv: "systemInv sha256 dsl y"
    and s': "storeInv sha256 dsl s' \<and> guardedBy None (sm_store y) s' \<and> st_reservations s' = st_reservations (sm_store y)"
  shows "systemInv sha256 dsl (y\<lparr>sm_store := s'\<rparr>)"
proof -
  have "prepared sha256 dsl (cl_work c) s'" if "sm_calls y j = Some c" for j c
    using prepared_section [OF inv that] s' by blast
  then show ?thesis
    using inv s' by (simp add: systemInv_def guardedBy_def)
qed

lemma systemInv_commit:
  assumes inv: "systemInv sha256 dsl y" and i: "sm_calls y i = Some c"
    and s': "storeInv sha256 dsl s' \<and> guardedBy (Some (cr_key (cl_reservation c))) (sm_store y) s' \<and>
      st_reservations s' = st_reservations (sm_store y)"
  shows "systemInv sha256 dsl \<lparr>sm_store = s', sm_calls = (sm_calls y)(i \<mapsto> c\<lparr>cl_work := WorkDone\<rparr>)\<rparr>"
proof -
  have prep: "prepared sha256 dsl (cl_work d) s'" if "sm_calls y j = Some d" "j \<noteq> i" for j d
    using prepared_section [OF inv that(1), of "Some (cr_key (cl_reservation c))" s'] systemInv_keys [OF inv that(1) i]
      that(2) s' by (metis option.inject)
  have ok: "storeInv sha256 dsl s'" "st_cursorKeyOK s'" using s' inv by (simp_all add: systemInv_def guardedBy_def)
  show ?thesis
  proof (rule systemInv_intro [OF ok])
    fix j d assume "((sm_calls y)(i \<mapsto> c\<lparr>cl_work := WorkDone\<rparr>)) j = Some d"
    then show "st_reservations s' (cr_key (cl_reservation d)) = Some (cl_reservation d)" "prepared sha256 dsl (cl_work d) s'"
      "cl_work d \<noteq> WorkDone \<Longrightarrow> workKey (cl_work d) = Some (cr_key (cl_reservation d))"
      using i s' prep systemInv_call(1,2) [OF inv] by (auto split: if_splits)
  next
    fix j k d e assume "((sm_calls y)(i \<mapsto> c\<lparr>cl_work := WorkDone\<rparr>)) j = Some d"
      "((sm_calls y)(i \<mapsto> c\<lparr>cl_work := WorkDone\<rparr>)) k = Some e" "cr_key (cl_reservation d) = cr_key (cl_reservation e)"
    then show "j = k" using i systemInv_keys [OF inv] by (auto split: if_splits)
  qed
qed

lemma systemInv_release:
  assumes inv: "systemInv sha256 dsl y" and i: "sm_calls y i = Some c"
  shows "systemInv sha256 dsl \<lparr>sm_store = releaseCommitReservationLocked (cl_reservation c) (sm_store y),
    sm_calls = (sm_calls y)(i := None)\<rparr>"
proof -
  let ?s = "releaseCommitReservationLocked (cl_reservation c) (sm_store y)"
  note own = systemInv_call [OF inv i]
  have res: "st_reservations ?s = (st_reservations (sm_store y))(cr_key (cl_reservation c) := None)"
    using own(4) by (simp add: releaseCommitReservationLocked_def)
  have same: "sameContents (sm_store y) ?s" by simp
  have prep: "prepared sha256 dsl (cl_work d) ?s" if "sm_calls y j = Some d" for j d
    by (rule prepared_section [OF inv that sameContents_guarded [OF same, of None]]) simp
  have ok: "storeInv sha256 dsl ?s" "st_cursorKeyOK ?s"
    using inv sameContents_store [OF same, of sha256 dsl] same by (simp_all add: systemInv_def sameContents_def)
  show ?thesis
  proof (rule systemInv_intro [OF ok])
    fix j d assume j: "((sm_calls y)(i := None)) j = Some d"
    then show "st_reservations ?s (cr_key (cl_reservation d)) = Some (cl_reservation d)" "prepared sha256 dsl (cl_work d) ?s"
      "cl_work d \<noteq> WorkDone \<Longrightarrow> workKey (cl_work d) = Some (cr_key (cl_reservation d))"
      using prep systemInv_call(1,2) [OF inv] systemInv_keys [OF inv i, of j d] unfolding res by (auto split: if_splits)
  next
    fix j k d e assume "((sm_calls y)(i := None)) j = Some d" "((sm_calls y)(i := None)) k = Some e"
      "cr_key (cl_reservation d) = cr_key (cl_reservation e)"
    then show "j = k" using systemInv_keys [OF inv] by (auto split: if_splits)
  qed
qed

lemma quiet_section:
  assumes "systemInv sha256 dsl y" "sameContents (sm_store y) s'" "st_reservations s' = st_reservations (sm_store y)"
  shows "systemInv sha256 dsl (y\<lparr>sm_store := s'\<rparr>) \<and> (\<exists>k. guardedBy k (sm_store y) s')"
  using assms systemInv_quiet [OF assms(1), of s'] sameContents_guarded [OF assms(2)]
    sameContents_store [OF assms(2), of sha256 dsl]
  by (auto simp: systemInv_def)

lemma waiters_contents:
  "registerGenerationWaitLocked n s = (wait, s') \<Longrightarrow> sameContents s s' \<and> st_reservations s' = st_reservations s"
  "sameContents s (unregisterGenerationWaitLocked n wait s)"
  "st_reservations (unregisterGenerationWaitLocked n wait s) = st_reservations s"
  by (auto simp: registerGenerationWaitLocked_def unregisterGenerationWaitLocked_def Let_def split: option.splits)

lemma activate_reserves:
  assumes inv: "systemInv sha256 dsl y" and i: "sm_calls y i = None"
    and req: "isOk (NewActivateRequest (ar_namespace request) (ar_slot request) (ar_targetRevisionID request)
      (ar_expectation request))"
    and run: "activateReserve request (sm_store y) = (Inr (q, g, f), s')"
  shows "systemInv sha256 dsl \<lparr>sm_store = s', sm_calls = (sm_calls y)(i \<mapsto> \<lparr>cl_reservation = q, cl_work = WorkActivate request g\<rparr>)\<rparr> \<and>
    sameContents (sm_store y) s'"
proof -
  note r = activateReserve_Inr [OF run]
  have key: "cr_key q = slotKey request" using r(2) by (simp add: reserved_def)
  have same: "sameContents (sm_store y) s'" by (simp add: r(3))
  have "systemInv sha256 dsl \<lparr>sm_store = s', sm_calls = (sm_calls y)(i \<mapsto> \<lparr>cl_reservation = q, cl_work = WorkActivate request g\<rparr>)\<rparr>"
    by (rule systemInv_reserve [OF inv i same])
      (use r req in \<open>simp_all add: reserved_def workKey_def prepared_def\<close>)
  with same show ?thesis by blast
qed

lemma put_reserves:
  assumes inv: "systemInv sha256 dsl y" and i: "sm_calls y i = None"
    and req: "NewRevisionRecordFromWrite sha256 dsl w = Inr r"
    and run: "putRevisionReserve r (sm_store y) = (PutReserved q f, s')"
  shows "systemInv sha256 dsl \<lparr>sm_store = s', sm_calls = (sm_calls y)(i \<mapsto> \<lparr>cl_reservation = q, cl_work = WorkPut r created\<rparr>)\<rparr> \<and>
    sameContents (sm_store y) s'"
  using run
proof (cases rule: putRevisionReserve_cases)
  case (reserves q')
  then have key: "cr_key q = revisionReservationKey (rm_namespace (rc_metadata r))" by (simp add: reserved_def)
  have valid: "validRevisionRecord sha256 dsl r" using req by (auto simp: NewRevisionRecordFromWrite_Inr_iff)
  have same: "sameContents (sm_store y) s'" by (simp add: reserves(4))
  have "systemInv sha256 dsl \<lparr>sm_store = s', sm_calls = (sm_calls y)(i \<mapsto> \<lparr>cl_reservation = q, cl_work = WorkPut r created\<rparr>)\<rparr>"
    by (rule systemInv_reserve [OF inv i same])
      (use reserves valid in \<open>simp_all add: reserved_def workKey_def prepared_def\<close>)
  with same show ?thesis by blast
qed simp_all

lemma write_reserves:
  assumes inv: "systemInv sha256 dsl y" and i: "sm_calls y i = None"
    and fp: "FingerprintWriteData sha256 request = Inr (scope, f)"
    and run: "writeReserve fp request (sm_store y) = (WriteReserved q base candidate response fe, s')"
  shows "systemInv sha256 dsl \<lparr>sm_store = s', sm_calls = (sm_calls y)(i \<mapsto>
      \<lparr>cl_reservation = q, cl_work = WorkWrite request fp base candidate response\<rparr>)\<rparr> \<and> sameContents (sm_store y) s'"
  using run
proof (cases rule: writeReserve_cases)
  case (reserves q' b c r s0)
  have eqs: "q = q'" "base = b" "candidate = c" "response = r" using reserves(1) by simp_all
  have key: "cr_key q = dataReservationKey (wr_namespace request)" using reserves(2) by (simp add: eqs dataReserved_def)
  obtain cr where "NewWriteDataRequest request = Inr cr"
    using fp by (auto simp: FingerprintWriteData_def split: sum.splits)
  then have muts: "validMutations request" "coherentMutations request" by (simp_all add: NewWriteDataRequest_Inr_iff)
  have same: "sameContents (sm_store y) s'" by (subst reserves(6)) simp
  have d: "st_data s0 = st_data (sm_store y)" "st_revisions s0 = st_revisions (sm_store y)"
    using reserves(4) by (simp_all add: sameContents_def)
  have "dataInv s0" using inv sameContents_data [OF reserves(4)] by (simp add: systemInv_def storeInv_def)
  note prep = writePrepare_Inr [OF this muts reserves(8)]
  have "prepared sha256 dsl (WorkWrite request fp base candidate response) (sm_store y)"
    using prep reserves(7) muts(1) candidateFor_frame [OF prep(1), of "sm_store y"]
    by (simp add: prepared_def d writeUnchanged_def eqs)
  moreover have "st_reservations s' = (st_reservations (sm_store y))(cr_key q \<mapsto> q)"
    by (subst reserves(6)) (simp add: key [unfolded eqs] eqs)
  ultimately have "systemInv sha256 dsl \<lparr>sm_store = s', sm_calls = (sm_calls y)(i \<mapsto>
      \<lparr>cl_reservation = q, cl_work = WorkWrite request fp base candidate response\<rparr>)\<rparr>"
    by (intro systemInv_reserve [OF inv i same]) (use reserves(3) in \<open>simp_all add: key workKey_def\<close>)
  with same show ?thesis by blast
qed simp_all

lemma refused_contents:
  "activateReserve request s = (Inl e, s') \<Longrightarrow> sameContents s s' \<and> st_reservations s' = st_reservations s"
  "putRevisionReserve w s = (a, s') \<Longrightarrow> \<forall>q f. a \<noteq> PutReserved q f \<Longrightarrow>
     sameContents s s' \<and> st_reservations s' = st_reservations s"
  "writeReserve fp wr s = (b, s') \<Longrightarrow> \<forall>q base candidate response f. b \<noteq> WriteReserved q base candidate response f \<Longrightarrow>
     sameContents s s' \<and> st_reservations s' = st_reservations s"
proof -
  show "sameContents s s' \<and> st_reservations s' = st_reservations s" if "activateReserve request s = (Inl e, s')"
    by (subst activateReserve_Inl(1) [OF that], subst (2) activateReserve_Inl(1) [OF that]) simp
  show "sameContents s s' \<and> st_reservations s' = st_reservations s"
    if "putRevisionReserve w s = (a, s')" "\<forall>q f. a \<noteq> PutReserved q f"
    using that(1) by (cases rule: putRevisionReserve_cases) (use that(2) in auto)
  show "sameContents s s' \<and> st_reservations s' = st_reservations s"
    if "writeReserve fp wr s = (b, s')" "\<forall>q base candidate response f. b \<noteq> WriteReserved q base candidate response f"
    using that(1)
  proof (cases rule: writeReserve_cases)
    case (fails e')
    show ?thesis by (subst fails(2), subst (2) fails(2)) simp
  next
    case (replays previous)
    show ?thesis by (subst replays(2), subst (2) replays(2)) simp
  qed (use that(2) in auto)
qed

lemma pinVersion_contents:
  "pinVersion request s = (view, s') \<Longrightarrow> sameContents s s' \<and> st_reservations s' = st_reservations s"
  by (auto simp: pinVersion_def Let_def split: if_splits option.splits)

lemma systemStep_inv:
  assumes "systemStep sha256 dsl y y'" "systemInv sha256 dsl y"
  shows "systemInv sha256 dsl y' \<and> (\<exists>k. guardedBy k (sm_store y) (sm_store y'))"
  using assms(1)
proof cases
  case (Activate_reserves i request q g f s')
  then show ?thesis using activate_reserves [OF assms(2)] sameContents_guarded by fastforce
next
  case (Activate_refused request e s')
  then show ?thesis using quiet_section [OF assms(2)] refused_contents(1) by fastforce
next
  case (Put_reserves i w r created q f s')
  then show ?thesis using put_reserves [OF assms(2)] sameContents_guarded by fastforce
next
  case (Put_refused w a s')
  then show ?thesis using quiet_section [OF assms(2)] refused_contents(2) by fastforce
next
  case (Write_reserves i request scope f q base candidate response failEvent s')
  then show ?thesis
    using write_reserves [OF assms(2) Write_reserves(2-4)] sameContents_guarded by auto
next
  case (Write_refused fp request a s')
  then show ?thesis using quiet_section [OF assms(2)] refused_contents(3) by fastforce
next
  case (Meets_failure i c x s')
  then show ?thesis using quiet_section [OF assms(2)] consumeEventFailure_contents by fastforce
next
  case (Gives_up i c)
  have "storeInv sha256 dsl (sm_store y)" using assms(2) by (simp add: systemInv_def)
  with Gives_up systemInv_commit [OF assms(2) Gives_up(2), of "sm_store y"] show ?thesis
    by (auto intro: guardedBy_refl)
next
  case (Activate_commits i c request g d err t x s')
  have key: "cr_key (cl_reservation c) = slotKey request"
    using systemInv_call(2) [OF assms(2) Activate_commits(2)] Activate_commits(3) by (simp add: workKey_def)
  have "storeInv sha256 dsl (sm_store y)" using assms(2) by (simp add: systemInv_def)
  note c = activateCommit_guarded [OF this Activate_commits(4), folded key]
  show ?thesis using systemInv_commit [OF assms(2) Activate_commits(2) c] c Activate_commits(1) by auto
next
  case (Put_commits i c r created d err t x s')
  have key: "cr_key (cl_reservation c) = revisionReservationKey (rm_namespace (rc_metadata r))"
    using systemInv_call(2) [OF assms(2) Put_commits(2)] Put_commits(3) by (simp add: workKey_def)
  have inv: "storeInv sha256 dsl (sm_store y)" "validRevisionRecord sha256 dsl r"
    using assms(2) systemInv_call(3) [OF assms(2) Put_commits(2)] Put_commits(3) by (simp_all add: systemInv_def prepared_def)
  note c = putRevisionCommit_guarded [OF inv Put_commits(4), folded key]
  show ?thesis using systemInv_commit [OF assms(2) Put_commits(2) c] c Put_commits(1) by auto
next
  case (Write_commits i c request fp base candidate response d err t x s')
  have key: "cr_key (cl_reservation c) = dataReservationKey (wr_namespace request)"
    using systemInv_call(2) [OF assms(2) Write_commits(2)] Write_commits(3) by (simp add: workKey_def)
  have inv: "storeInv sha256 dsl (sm_store y)" "candidateFor request candidate response (sm_store y)"
    using assms(2) systemInv_call(3) [OF assms(2) Write_commits(2)] Write_commits(3) by (simp_all add: systemInv_def prepared_def)
  note c = writeCommit_guarded [OF inv Write_commits(4), folded key]
  show ?thesis using systemInv_commit [OF assms(2) Write_commits(2) c] c Write_commits(1) by auto
next
  case (Releases i c)
  have "guardedBy None (sm_store y) (releaseCommitReservationLocked (cl_reservation c) (sm_store y))"
    by (rule sameContents_guarded) simp
  then show ?thesis using systemInv_release [OF assms(2) Releases(2)] Releases(1) by auto
next
  case (Reads_events n t vals s')
  have "storeInv sha256 dsl (sm_store y)" using assms(2) by (simp add: systemInv_def)
  note s' = listEvents_guarded [OF this Reads_events(2)]
  show ?thesis using systemInv_quiet [OF assms(2) s'] s' Reads_events(1) by auto
next
  case (Waits n wait s')
  then show ?thesis using quiet_section [OF assms(2)] waiters_contents(1) by fastforce
next
  case (Wakes n wait)
  then show ?thesis using quiet_section [OF assms(2) waiters_contents(2,3)] by auto
next
  case (Pins request view s')
  then show ?thesis using quiet_section [OF assms(2)] pinVersion_contents by fastforce
next
  case Arms_failure
  then show ?thesis using quiet_section [OF assms(2), of "(sm_store y)\<lparr>st_failNextEvent := True\<rparr>"] by auto
qed

lemma startSystem_inv: "systemInv sha256 dsl (startSystem key)"
proof -
  have "dataInv (freshStore key)" by (simp add: dataInv_def freshStore_def)
  then show ?thesis
    using freshStore_invs(1,3,4) freshStore_invs(2) [of sha256 dsl key]
    by (simp add: systemInv_def startSystem_def storeInv_def)
qed

lemma reachable_inv:
  assumes "(systemStep sha256 dsl)\<^sup>*\<^sup>* (startSystem key) y"
  shows "systemInv sha256 dsl y"
  using assms
proof (induction rule: rtranclp_induct)
  case (step y z)
  then show ?case using systemStep_inv by blast
qed (rule startSystem_inv)

section \<open>The store only moves forward\<close>





section \<open>No wake-up is lost\<close>






lemma appendEventLocked_waiters [simp]:
  "st_waiters (appendEventLocked e t s) = st_waiters s" "st_nextRef (appendEventLocked e t s) = st_nextRef s"
  "st_data (appendEventLocked e t s) = st_data s"
  by (simp_all add: appendEventLocked_def pruneEventsLocked_def Let_def split: option.splits)











lemma putRevisionCommit_publishes:
  assumes "eventsInv sha256 s" "revisionsInv sha256 dsl s" "slotsInv s" "validRevisionRecord sha256 dsl r"
    and "nested (st_revisions s) (rm_namespace (rc_metadata r)) (rm_ID (rc_metadata r)) = None"
    and "putRevisionCommit sha256 dsl d err r created q t s = (Inr created, s')"
  shows "published r s s'"
  using assms(6)
  by (cases rule: putRevisionCommit_cases)
    (use assms(5) putRevisionCommit_published(1) [OF assms(1-4)] in auto)

lemma writeCommit_writes:
  assumes "eventsInv sha256 s" "dataInv s" "slotsInv s" "candidateFor request candidate response s"
    and "idempotencyRecord (st_data s (wr_namespace request)) (wr_idempotencyKey request) = None"
    and "writeCommit sha256 d err request fp q base candidate response t s = (Inr response, s')"
  shows "written request fp response s s'"
  using assms(6)
  by (cases rule: writeCommit_cases)
    (use assms(5) writeCommit_written(1) [OF assms(1-4)] in auto)

section \<open>A system with a publication in flight\<close>

definition sampleSystem :: system where
  "sampleSystem =
     (let q = reserved (revisionReservationKey ''acme'') (freshStore [1]) in
      \<lparr>sm_store = (freshStore [1])\<lparr>st_reservations := [revisionReservationKey ''acme'' \<mapsto> q], st_nextRef := 1\<rparr>,
       sm_calls = [0 \<mapsto> \<lparr>cl_reservation = q,
         cl_work = WorkPut (sampleRevision 7) \<lparr>pp_record = sampleRevision 7, pp_created = True\<rparr>\<rparr>]\<rparr>)"

lemma sampleSystem_reachable: "(systemStep sampleSha256 sampleDsl)\<^sup>*\<^sup>* (startSystem [1]) sampleSystem"
proof (rule r_into_rtranclp)
  let ?q = "reserved (revisionReservationKey ''acme'') (freshStore [1])"
  let ?s = "(freshStore [1])\<lparr>st_reservations := [revisionReservationKey ''acme'' \<mapsto> ?q], st_nextRef := 1\<rparr>"
  have n: "rm_namespace (rc_metadata (sampleRevision 7)) = ''acme''" by (simp add: sampleRevision_def)
  have w: "NewRevisionRecordFromWrite sampleSha256 sampleDsl (sampleRevision 7) = Inr (sampleRevision 7)"
    using sampleRevision_valid by (simp add: NewRevisionRecordFromWrite_Inr_iff)
  have c: "NewPutRevisionResult sampleSha256 sampleDsl (sampleRevision 7) True =
      Inr \<lparr>pp_record = sampleRevision 7, pp_created = True\<rparr>"
    using sampleRevision_valid by (simp add: NewPutRevisionResult_def)
  have r: "putRevisionReserve (sampleRevision 7) (sm_store (startSystem [1])) = (PutReserved ?q False, ?s)"
    by (simp add: putRevisionReserve_def n reserveCommitLocked_def startSystem_def freshStore_def reserved_def nested_def
        nextEventSequenceLocked_def MaxUint64_def Let_def)
  from Put_reserves [OF _ w c r, of 0] show "systemStep sampleSha256 sampleDsl (startSystem [1]) sampleSystem"
    by (simp add: startSystem_def sampleSystem_def Let_def)
qed

section \<open>Properties\<close>

text \<open>
  C36: whatever calls run concurrently, in whatever interleaving of their critical sections, the store
  stays well formed: the event log, the revision index, the slots and the data of every namespace keep
  their invariants. Every call in flight holds the reservation of its key, no two calls hold the same
  one, and a call that still has to commit holds the key of what it will change.
\<close>

theorem concurrent_store_wellformed:
  assumes "(systemStep sha256 dsl)\<^sup>*\<^sup>* (startSystem key) y"
  shows "storeInv sha256 dsl (sm_store y) \<and>
    (\<forall>i c. sm_calls y i = Some c \<longrightarrow>
       st_reservations (sm_store y) (cr_key (cl_reservation c)) = Some (cl_reservation c) \<and>
       (cl_work c \<noteq> WorkDone \<longrightarrow> workKey (cl_work c) = Some (cr_key (cl_reservation c)))) \<and>
    (\<forall>i j c d. sm_calls y i = Some c \<longrightarrow> sm_calls y j = Some d \<longrightarrow>
       cr_key (cl_reservation c) = cr_key (cl_reservation d) \<longrightarrow> i = j)"
proof -
  have inv: "systemInv sha256 dsl y" by (rule reachable_inv [OF assms])
  then have "storeInv sha256 dsl (sm_store y)" by (simp add: systemInv_def)
  with systemInv_call(1,2) [OF inv] systemInv_keys [OF inv] show ?thesis by blast
qed

theorem concurrent_store_wellformed_witness:
  "storeInv sampleSha256 sampleDsl (sm_store sampleSystem) \<and> (\<exists>c. sm_calls sampleSystem 0 = Some c \<and>
     st_reservations (sm_store sampleSystem) (cr_key (cl_reservation c)) = Some (cl_reservation c))"
proof -
  obtain c where "sm_calls sampleSystem 0 = Some c" by (simp add: sampleSystem_def Let_def)
  with concurrent_store_wellformed [OF sampleSystem_reachable] show ?thesis by blast
qed

text \<open>
  C37: no update is lost and no reserved work is wasted. In every state the calls can reach, a call that
  has reserved and prepared finds all its preconditions still true when it commits: with a live context,
  a positive clock and room in the event sequence the commit succeeds, and it changes the state it finds
  then in exactly the way the call prepared, however many other calls committed in between.
\<close>

theorem reserved_commit_succeeds:
  assumes "digests32 sha256" "(systemStep sha256 dsl)\<^sup>*\<^sup>* (startSystem key) y" "sm_calls y i = Some c" "0 < t"
    and "\<forall>n. highWater (sm_store y) n < 2 ^ 64 - 1"
  shows "case cl_work c of
      WorkActivate request g \<Rightarrow>
        \<exists>a s'. activateCommit sha256 False err request (cl_reservation c) g t (sm_store y) = (Inr a, s') \<and>
          activated request a (sm_store y) s'
    | WorkPut r created \<Rightarrow>
        \<exists>s'. putRevisionCommit sha256 dsl False err r created (cl_reservation c) t (sm_store y) = (Inr created, s') \<and>
          published r (sm_store y) s'
    | WorkWrite request fp base candidate response \<Rightarrow>
        \<exists>s'. writeCommit sha256 False err request fp (cl_reservation c) base candidate response t (sm_store y) =
            (Inr response, s') \<and> written request fp response (sm_store y) s'
    | WorkDone \<Rightarrow> True"
proof -
  let ?s = "sm_store y"
  have sys: "systemInv sha256 dsl y" by (rule reachable_inv [OF assms(2)])
  note call = systemInv_call(3,4) [OF sys assms(3)]
  have inv: "eventsInv sha256 ?s" "slotsInv ?s" "dataInv ?s" "revisionsInv sha256 dsl ?s" and key: "st_cursorKeyOK ?s"
    using sys by (simp_all add: systemInv_def storeInv_def)
  show ?thesis
  proof (cases "cl_work c")
    case (WorkActivate request g)
    then have p: "isOk (NewActivateRequest (ar_namespace request) (ar_slot request) (ar_targetRevisionID request)
        (ar_expectation request))" "activateChecks request ?s = Inr g"
      using call(1) by (simp_all add: prepared_def)
    from activateCommit_live [OF assms(1) inv(1) key p(1) call(2) p(2) spec [OF assms(5)] assms(4)]
    obtain a s' where run: "activateCommit sha256 False err request (cl_reservation c) g t ?s = (Inr a, s')" by blast
    then show ?thesis using activateCommit_effect(1) [OF inv(1,2) run] WorkActivate by auto
  next
    case (WorkPut r created)
    then have p: "validRevisionRecord sha256 dsl r"
      "nested (st_revisions ?s) (rm_namespace (rc_metadata r)) (rm_ID (rc_metadata r)) = None"
      using call(1) by (simp_all add: prepared_def)
    from putRevisionCommit_live [OF assms(1) inv(1) key p(1) call(2) p(2) spec [OF assms(5)] assms(4)]
    obtain s' where run: "putRevisionCommit sha256 dsl False err r created (cl_reservation c) t ?s = (Inr created, s')" by blast
    have pub: "published r ?s s'" by (rule putRevisionCommit_publishes [OF inv(1,4,2) p run])
    then show ?thesis using run WorkPut by auto
  next
    case (WorkWrite request fp base candidate response)
    then have p: "validMutations request" "candidateFor request candidate response ?s" "writeUnchanged request base ?s"
      "idempotencyRecord (st_data ?s (wr_namespace request)) (wr_idempotencyKey request) = None"
      "nested (st_revisions ?s) (wr_namespace request) (wr_validationRevisionID request) \<noteq> None"
      using call(1) by (simp_all add: prepared_def)
    have "dv_generation candidate \<noteq> 0"
      using p(2) unat_succ [of "dataGeneration ?s (wr_namespace request)"] by (auto simp: candidateFor_def Let_def)
    moreover have "validNamespace (wr_namespace request)" using p(1) by (simp add: validMutations_def)
    ultimately obtain s' where run: "writeCommit sha256 False err request fp (cl_reservation c) base candidate response t ?s =
        (Inr response, s')"
      using writeCommit_live [OF assms(1) inv(1) key _ _ call(2) p(3,5,4) spec [OF assms(5)] assms(4)] by blast
    have "written request fp response ?s s'" by (rule writeCommit_writes [OF inv(1,3,2) p(2,4) run])
    then show ?thesis using run WorkWrite by auto
  qed simp
qed

theorem reserved_commit_succeeds_witness:
  "\<exists>c s'. sm_calls sampleSystem 0 = Some c \<and>
     putRevisionCommit sampleSha256 sampleDsl False CtxLive (sampleRevision 7)
       \<lparr>pp_record = sampleRevision 7, pp_created = True\<rparr> (cl_reservation c) 5 (sm_store sampleSystem) =
       (Inr \<lparr>pp_record = sampleRevision 7, pp_created = True\<rparr>, s') \<and>
     published (sampleRevision 7) (sm_store sampleSystem) s'"
proof -
  obtain c where c: "sm_calls sampleSystem 0 = Some c"
    "cl_work c = WorkPut (sampleRevision 7) \<lparr>pp_record = sampleRevision 7, pp_created = True\<rparr>"
    by (simp add: sampleSystem_def Let_def)
  have "\<forall>n. highWater (sm_store sampleSystem) n < 2 ^ 64 - 1"
    by (simp add: sampleSystem_def Let_def highWater_def freshStore_def)
  from reserved_commit_succeeds [OF sampleSha256_digests sampleSystem_reachable c(1) _ this, of 5 CtxLive] c
  show ?thesis by auto
qed





end
