(* ===== verification/Spec2Isabelle.thy ===== *)
theory Spec2Isabelle
  imports Memory_Concurrency
begin

text \<open>
  A verification development of the policy engine.
\<close>

end
